(* ===== verification/PyPrelude.thy ===== *)
theory PyPrelude
  imports Main
begin

section \<open>The Python the tools are written in\<close>

text \<open>
  What the components share of the language and of its standard library. The tools are
  Python 2 programs, so a \<open>str\<close> is a sequence of bytes: the model's \<open>string\<close>. The
  character classes are those of the C locale, in which the tools run.

  A raise is a value: \<open>'a res\<close> is either the exception (\<open>Inl\<close>) or the result (\<open>Inr\<close>).
  \<open>rbind\<close> is sequencing: it stops at the first raise.
\<close>

subsection \<open>Exceptions\<close>

datatype py_error =
    IndexError
  | KeyError
  | AssertionError
  | AttributeError
  | TypeError
  | ValueError
  | ZeroDivisionError
  | UnboundLocalError
  | RecursionError
  | IOError
  | NameError
  | ShutilError
  | StopIteration
  | SystemExit int
  | WafError string
  | PreprocError string
  | Unmodelled  \<comment> \<open>no raise of Python: an input the model makes no claim about\<close>

type_synonym 'a res = "py_error + 'a"

definition rbind :: "'a res \<Rightarrow> ('a \<Rightarrow> 'b res) \<Rightarrow> 'b res" where
  "rbind r f = (case r of Inl e \<Rightarrow> Inl e | Inr a \<Rightarrow> f a)"

lemma rbind_simps [simp]:
  "rbind (Inl e) f = Inl e"
  "rbind (Inr a) f = f a"
  by (simp_all add: rbind_def)

lemma rbind_eq_Inr [simp]: "rbind r f = Inr b \<longleftrightarrow> (\<exists>a. r = Inr a \<and> f a = Inr b)"
  by (cases r) simp_all

lemma rbind_eq_Inl [simp]:
  "rbind r f = Inl e \<longleftrightarrow> r = Inl e \<or> (\<exists>a. r = Inr a \<and> f a = Inl e)"
  by (cases r) simp_all

lemma rbind_cong [fundef_cong]:
  "r = r' \<Longrightarrow> (\<And>a. r' = Inr a \<Longrightarrow> f a = f' a) \<Longrightarrow> rbind r f = rbind r' f'"
  by (cases r') simp_all

lemma rbind_assoc: "rbind (rbind r f) g = rbind r (\<lambda>a. rbind (f a) g)"
  by (cases r) simp_all

subsection \<open>Characters\<close>

definition ord :: "char \<Rightarrow> nat" where
  "ord c = of_char c"

definition py_isspace :: "char \<Rightarrow> bool" where
  "py_isspace c \<longleftrightarrow> ord c \<in> {9, 10, 11, 12, 13, 32}"

definition py_isupper :: "char \<Rightarrow> bool" where
  "py_isupper c \<longleftrightarrow> 65 \<le> ord c \<and> ord c \<le> 90"

definition py_islower :: "char \<Rightarrow> bool" where
  "py_islower c \<longleftrightarrow> 97 \<le> ord c \<and> ord c \<le> 122"

definition py_isalpha :: "char \<Rightarrow> bool" where
  "py_isalpha c \<longleftrightarrow> py_isupper c \<or> py_islower c"

definition py_isdigit :: "char \<Rightarrow> bool" where
  "py_isdigit c \<longleftrightarrow> 48 \<le> ord c \<and> ord c \<le> 57"

definition py_lower_char :: "char \<Rightarrow> char" where
  "py_lower_char c = (if py_isupper c then char_of (ord c + 32) else c)"

definition py_lower :: "string \<Rightarrow> string" where
  "py_lower s = map py_lower_char s"

definition is_word_char :: "char \<Rightarrow> bool" where
  "is_word_char c \<longleftrightarrow> py_isalpha c \<or> py_isdigit c \<or> c = CHR ''_''"

text \<open>The named collections the component proofs share.\<close>

named_theorems char_defs \<open>definitions of the character classes\<close>
named_theorems py_str \<open>definitions of the string methods\<close>

lemmas [char_defs] = ord_def py_isspace_def py_isupper_def py_islower_def py_isalpha_def
  py_isdigit_def is_word_char_def

lemma ord_less [simp]: "ord c < 256"
  by (simp add: ord_def)

lemma char_of_ord [simp]: "char_of (ord c) = c"
  by (simp add: ord_def)

lemma ord_char_of [simp]: "n < 256 \<Longrightarrow> ord (char_of n) = n"
  by (simp add: ord_def)

lemma ord_inject [simp]: "ord c = ord d \<longleftrightarrow> c = d"
  by (metis char_of_ord)

lemma py_lower_idem [simp]: "py_lower (py_lower s) = py_lower s"
proof -
  have "py_lower_char (py_lower_char c) = py_lower_char c" for c
    by (simp add: py_lower_char_def py_isupper_def)
  then show ?thesis by (simp add: py_lower_def)
qed

lemma word_char_not_space: "is_word_char c \<Longrightarrow> \<not> py_isspace c"
  by (auto simp: char_defs)

subsection \<open>String methods\<close>

definition py_lstrip :: "string \<Rightarrow> string" where
  "py_lstrip s = dropWhile py_isspace s"

definition py_rstrip :: "string \<Rightarrow> string" where
  "py_rstrip s = rev (dropWhile py_isspace (rev s))"

definition py_strip :: "string \<Rightarrow> string" where
  "py_strip s = py_rstrip (py_lstrip s)"

definition py_startswith :: "string \<Rightarrow> string \<Rightarrow> bool" where
  "py_startswith s p \<longleftrightarrow> take (length p) s = p"

definition py_endswith :: "string \<Rightarrow> string \<Rightarrow> bool" where
  "py_endswith s p \<longleftrightarrow> py_startswith (rev s) (rev p)"

text \<open>\<open>s.split(sep)\<close> for a one-character separator: always at least one part.\<close>

fun py_split :: "char \<Rightarrow> string \<Rightarrow> string list" where
  "py_split sep [] = [[]]"
| "py_split sep (c # cs) =
     (if c = sep then [] # py_split sep cs
      else (case py_split sep cs of [] \<Rightarrow> [[c]] | p # ps \<Rightarrow> (c # p) # ps))"

text \<open>\<open>s.split()\<close>: runs of white space separate, no empty part.\<close>

fun py_split_ws :: "string \<Rightarrow> string list" where
  "py_split_ws [] = []"
| "py_split_ws (c # cs) =
     (if py_isspace c then py_split_ws cs
      else (case cs of
              [] \<Rightarrow> [[c]]
            | d # _ \<Rightarrow>
                if py_isspace d then [c] # py_split_ws cs
                else (case py_split_ws cs of [] \<Rightarrow> [[c]] | p # ps \<Rightarrow> (c # p) # ps)))"

fun py_join :: "string \<Rightarrow> string list \<Rightarrow> string" where
  "py_join sep [] = []"
| "py_join sep [x] = x"
| "py_join sep (x # y # ys) = x @ sep @ py_join sep (y # ys)"

text \<open>\<open>s.find(sub, start)\<close>, with \<open>None\<close> for -1.\<close>

fun find_sub :: "string \<Rightarrow> string \<Rightarrow> nat option" where
  "find_sub sub [] = (if sub = [] then Some 0 else None)"
| "find_sub sub (c # cs) =
     (if py_startswith (c # cs) sub then Some 0 else map_option Suc (find_sub sub cs))"

definition py_find :: "string \<Rightarrow> string \<Rightarrow> nat \<Rightarrow> nat option" where
  "py_find s sub start =
     (if length s < start then None
      else map_option (\<lambda>k. start + k) (find_sub sub (drop start s)))"

text \<open>\<open>s.replace(old, new)\<close>: left to right, no overlap; an empty \<open>old\<close> matches before
  every character and at the end.\<close>

function (sequential) py_replace :: "string \<Rightarrow> string \<Rightarrow> string \<Rightarrow> string" where
  "py_replace [] new s = concat (map (\<lambda>c. new @ [c]) s) @ new"
| "py_replace (o1 # old) new [] = []"
| "py_replace (o1 # old) new (c # cs) =
     (if py_startswith (c # cs) (o1 # old)
      then new @ py_replace (o1 # old) new (drop (length old) cs)
      else c # py_replace (o1 # old) new cs)"
  by pat_completeness auto
termination
  by (relation "measure (\<lambda>(p, n, s). length s)") (auto simp: less_Suc_eq_le)

definition py_slice :: "'a list \<Rightarrow> nat \<Rightarrow> nat \<Rightarrow> 'a list" where
  "py_slice xs i j = drop i (take j xs)"

definition py_index :: "'a list \<Rightarrow> nat \<Rightarrow> 'a res" where
  "py_index xs i = (if i < length xs then Inr (xs ! i) else Inl IndexError)"

lemmas [py_str] = py_lstrip_def py_rstrip_def py_strip_def py_startswith_def
  py_endswith_def py_find_def py_slice_def

text \<open>Decimal numerals: \<open>str(n)\<close> of a natural number and \<open>int(s)\<close> of a digit string.\<close>

definition digit_char :: "nat \<Rightarrow> char" where
  "digit_char d = char_of (48 + d)"

fun py_str_nat :: "nat \<Rightarrow> string" where
  "py_str_nat n = (if n < 10 then [digit_char n] else py_str_nat (n div 10) @ [digit_char (n mod 10)])"

declare py_str_nat.simps [simp del]

definition digits_val :: "string \<Rightarrow> nat" where
  "digits_val s = foldl (\<lambda>a c. 10 * a + (ord c - 48)) 0 s"

subsection \<open>Lemmas on the string methods\<close>

lemma find_sub_Some:
  "find_sub sub s = Some k \<Longrightarrow>
     k \<le> length s \<and> take (length sub) (drop k s) = sub"
  by (induction s arbitrary: k) (auto simp: py_startswith_def split: if_splits)

lemma find_sub_first:
  "find_sub sub s = Some k \<Longrightarrow> j < k \<Longrightarrow> take (length sub) (drop j s) \<noteq> sub"
proof (induction s arbitrary: j k)
  case (Cons c cs)
  then show ?case
    by (cases j) (auto simp: py_startswith_def split: if_splits)
qed (auto split: if_splits)

lemma find_sub_None:
  "find_sub sub s = None \<Longrightarrow> take (length sub) (drop j s) \<noteq> sub \<or> length s < j"
proof (induction s arbitrary: j)
  case (Cons c cs)
  then show ?case
    by (cases j) (auto simp: py_startswith_def split: if_splits)
qed (auto split: if_splits)

lemma py_split_nonempty [simp]: "py_split sep s \<noteq> []"
  by (induction s) (auto split: list.splits)

lemma py_join_split: "py_join [sep] (py_split sep s) = s"
proof (induction s)
  case (Cons c cs)
  obtain p ps where ps: "py_split sep cs = p # ps"
    by (cases "py_split sep cs") auto
  then show ?case
    using Cons by (cases ps) auto
qed simp

lemma py_split_no_sep: "p \<in> set (py_split sep s) \<Longrightarrow> sep \<notin> set p"
  by (induction s arbitrary: p) (auto split: if_splits list.splits)

lemma digit_char_isdigit [simp]: "d < 10 \<Longrightarrow> py_isdigit (digit_char d)"
  by (simp add: digit_char_def py_isdigit_def)

lemma ord_digit_char [simp]: "d < 10 \<Longrightarrow> ord (digit_char d) = 48 + d"
  by (simp add: digit_char_def)

lemma digits_val_snoc: "digits_val (s @ [c]) = 10 * digits_val s + (ord c - 48)"
  by (simp add: digits_val_def)

lemma py_str_nat_digits: "\<forall>c \<in> set (py_str_nat n). py_isdigit c"
proof (induction n rule: py_str_nat.induct)
  case (1 n)
  then show ?case
    by (subst py_str_nat.simps) auto
qed

lemma py_str_nat_nonempty [simp]: "py_str_nat n \<noteq> []"
  by (subst py_str_nat.simps) simp

lemma digits_val_str_nat [simp]: "digits_val (py_str_nat n) = n"
proof (induction n rule: py_str_nat.induct)
  case (1 n)
  show ?case
  proof (cases "n < 10")
    case True
    then show ?thesis
      by (subst py_str_nat.simps) (simp add: digits_val_def)
  next
    case False
    then show ?thesis
      using 1 by (subst py_str_nat.simps) (simp add: digits_val_snoc)
  qed
qed

end
