(* ===== verification/TestExpr.thy ===== *)
theory TestExpr
  imports PyPrelude
begin

section \<open>The expression language of the test status files\<close>

text \<open>
  \<open>src/tools/test.py\<close>, lines 701 to 998: the outcome names, the three classes of outcome
  sets, the expression classes with \<open>Evaluate\<close> and \<open>GetOutcomes\<close>, the tokenizer, the scanner
  and the recursive-descent parser.

  \<open>Outcome.GetOutcomes\<close> follows the \<open>def\<close> lines of the status files, which may refer to each
  other in a cycle; Python then runs into its recursion limit. The first argument of \<open>Evaluate\<close>
  and \<open>GetOutcomes\<close> is the number of nested calls of these two methods that are left, and
  \<open>RecursionError\<close> is the raise of the interpreter when there is none.
\<close>

subsection \<open>Outcomes and outcome sets\<close>

definition SKIP :: string where "SKIP = ''skip''"
definition FAIL :: string where "FAIL = ''fail''"
definition PASS :: string where "PASS = ''pass''"
definition OKAY :: string where "OKAY = ''okay''"
definition TIMEOUT :: string where "TIMEOUT = ''timeout''"
definition CRASH :: string where "CRASH = ''crash''"
definition SLOW :: string where "SLOW = ''slow''"

named_theorems outcome_names \<open>the outcome constants\<close>
lemmas [outcome_names] =
  SKIP_def FAIL_def PASS_def OKAY_def TIMEOUT_def CRASH_def SLOW_def

datatype pset = ListSet "string list" | Everything | Nothing

text \<open>The dispatch of a \<open>ListSet\<close> on another class, \<open>that.Intersect(self)\<close>, is resolved.\<close>

fun Intersect :: "pset \<Rightarrow> pset \<Rightarrow> pset" where
  "Intersect (ListSet xs) (ListSet ys) = ListSet (filter (\<lambda>x. x \<in> set ys) xs)"
| "Intersect (ListSet xs) Everything = ListSet xs"
| "Intersect (ListSet xs) Nothing = Nothing"
| "Intersect Everything that = that"
| "Intersect Nothing that = Nothing"

fun Union_set :: "pset \<Rightarrow> pset \<Rightarrow> pset" where
  "Union_set (ListSet xs) (ListSet ys) = ListSet (xs @ filter (\<lambda>x. x \<notin> set xs) ys)"
| "Union_set (ListSet xs) Everything = Everything"
| "Union_set (ListSet xs) Nothing = ListSet xs"
| "Union_set Everything that = Everything"
| "Union_set Nothing that = that"

fun IsEmpty :: "pset \<Rightarrow> bool" where
  "IsEmpty (ListSet xs) \<longleftrightarrow> length xs = 0"
| "IsEmpty Everything \<longleftrightarrow> False"
| "IsEmpty Nothing \<longleftrightarrow> True"

text \<open>What the three classes stand for, and the contract the evaluator relies on.\<close>

fun members :: "pset \<Rightarrow> string set" where
  "members (ListSet xs) = set xs"
| "members Everything = UNIV"
| "members Nothing = {}"

locale outcome_sets =
  fixes mem :: "'s \<Rightarrow> string set"
    and inter :: "'s \<Rightarrow> 's \<Rightarrow> 's"
    and union :: "'s \<Rightarrow> 's \<Rightarrow> 's"
    and isempty :: "'s \<Rightarrow> bool"
  assumes mem_inter: "mem (inter a b) = mem a \<inter> mem b"
    and mem_union: "mem (union a b) = mem a \<union> mem b"
    and isempty_iff: "isempty a \<longleftrightarrow> mem a = {}"
begin

lemma overlap_iff: "\<not> isempty (inter a b) \<longleftrightarrow> (\<exists>x. x \<in> mem a \<and> x \<in> mem b)"
  by (auto simp: isempty_iff mem_inter)

lemma inter_commutes: "mem (inter a b) = mem (inter b a)"
  by (auto simp: mem_inter)

lemma distributes: "mem (inter a (union b c)) = mem (union (inter a b) (inter a c))"
  by (auto simp: mem_inter mem_union)

lemma isempty_union: "isempty (union a b) \<longleftrightarrow> isempty a \<and> isempty b"
  by (auto simp: isempty_iff mem_union)

end

interpretation os: outcome_sets members Intersect Union_set IsEmpty
proof unfold_locales
  show "members (Intersect a b) = members a \<inter> members b" for a b
    by (cases a; cases b) auto
  show "members (Union_set a b) = members a \<union> members b" for a b
    by (cases a; cases b) auto
  show "IsEmpty a \<longleftrightarrow> members a = {}" for a
    by (cases a) auto
qed

subsection \<open>Expressions\<close>

datatype expr =
    Constant bool
  | Variable string
  | Outcome string
  | Operation expr string expr

type_synonym env = "string \<Rightarrow> string option"
type_synonym defs = "string \<Rightarrow> expr option"

fun Evaluate :: "nat \<Rightarrow> env \<Rightarrow> defs \<Rightarrow> expr \<Rightarrow> bool res"
  and GetOutcomes :: "nat \<Rightarrow> env \<Rightarrow> defs \<Rightarrow> expr \<Rightarrow> pset res" where
  "Evaluate 0 env defs e = Inl RecursionError"
| "Evaluate (Suc n) env defs (Constant v) = Inr v"
| "Evaluate (Suc n) env defs (Variable name) = Inl AttributeError"
| "Evaluate (Suc n) env defs (Outcome name) = Inl AttributeError"
| "Evaluate (Suc n) env defs (Operation left op right) =
     (if op = ''||'' \<or> op = '','' then
        rbind (Evaluate n env defs left) (\<lambda>b. if b then Inr b else Evaluate n env defs right)
      else if op = ''if'' then Inr False
      else if op = ''=='' then
        rbind (GetOutcomes n env defs left) (\<lambda>a.
        rbind (GetOutcomes n env defs right) (\<lambda>b.
          let inter = Intersect a b in Inr (\<not> IsEmpty inter)))
      else if op = ''&&'' then
        rbind (Evaluate n env defs left) (\<lambda>b. if b then Evaluate n env defs right else Inr b)
      else Inl AssertionError)"
| "GetOutcomes 0 env defs e = Inl RecursionError"
| "GetOutcomes (Suc n) env defs (Constant v) = Inl AttributeError"
| "GetOutcomes (Suc n) env defs (Variable name) =
     (case env name of Some v \<Rightarrow> Inr (ListSet [v]) | None \<Rightarrow> Inr Nothing)"
| "GetOutcomes (Suc n) env defs (Outcome name) =
     (case defs name of
        Some e \<Rightarrow> GetOutcomes n env defs e
      | None \<Rightarrow> Inr (ListSet [name]))"
| "GetOutcomes (Suc n) env defs (Operation left op right) =
     (if op = ''||'' \<or> op = '','' then
        rbind (GetOutcomes n env defs left) (\<lambda>a.
        rbind (GetOutcomes n env defs right) (\<lambda>b. Inr (Union_set a b)))
      else if op = ''if'' then
        rbind (Evaluate n env defs right) (\<lambda>c.
          if c then GetOutcomes n env defs left else Inr Nothing)
      else if op = ''&&'' then
        rbind (GetOutcomes n env defs left) (\<lambda>a.
        rbind (GetOutcomes n env defs right) (\<lambda>b. Inr (Intersect a b)))
      else Inl AssertionError)"

text \<open>
  What a status-file expression means, without an evaluation order and without sets:
  \<open>holds\<close> for conditions and \<open>outcome_of\<close> for expected outcomes.
\<close>

inductive holds :: "env \<Rightarrow> defs \<Rightarrow> expr \<Rightarrow> bool"
  and outcome_of :: "env \<Rightarrow> defs \<Rightarrow> expr \<Rightarrow> string \<Rightarrow> bool" for env defs where
  holds_const: "holds env defs (Constant True)"
| holds_left: "holds env defs l \<Longrightarrow> op \<in> {''||'', '',''} \<Longrightarrow> holds env defs (Operation l op r)"
| holds_right: "holds env defs r \<Longrightarrow> op \<in> {''||'', '',''} \<Longrightarrow> holds env defs (Operation l op r)"
| holds_both: "holds env defs l \<Longrightarrow> holds env defs r \<Longrightarrow> holds env defs (Operation l ''&&'' r)"
| holds_eq: "outcome_of env defs l x \<Longrightarrow> outcome_of env defs r x \<Longrightarrow>
    holds env defs (Operation l ''=='' r)"
| out_var: "env v = Some x \<Longrightarrow> outcome_of env defs (Variable v) x"
| out_def: "defs name = Some e \<Longrightarrow> outcome_of env defs e x \<Longrightarrow>
    outcome_of env defs (Outcome name) x"
| out_name: "defs name = None \<Longrightarrow> outcome_of env defs (Outcome name) name"
| out_left: "outcome_of env defs l x \<Longrightarrow> op \<in> {''||'', '',''} \<Longrightarrow>
    outcome_of env defs (Operation l op r) x"
| out_right: "outcome_of env defs r x \<Longrightarrow> op \<in> {''||'', '',''} \<Longrightarrow>
    outcome_of env defs (Operation l op r) x"
| out_both: "outcome_of env defs l x \<Longrightarrow> outcome_of env defs r x \<Longrightarrow>
    outcome_of env defs (Operation l ''&&'' r) x"
| out_if: "holds env defs r \<Longrightarrow> outcome_of env defs l x \<Longrightarrow>
    outcome_of env defs (Operation l ''if'' r) x"

inductive_simps holds_simps [simp]:
  "holds env defs (Constant b)"
  "holds env defs (Variable v)"
  "holds env defs (Outcome v)"
  "holds env defs (Operation l op r)"

inductive_simps outcome_of_simps [simp]:
  "outcome_of env defs (Constant b) x"
  "outcome_of env defs (Variable v) x"
  "outcome_of env defs (Outcome v) x"
  "outcome_of env defs (Operation l op r) x"

lemma op_cases:
  obtains (disj) "op = ''||'' \<or> op = '',''" | (if_op) "op = ''if''" | (eq) "op = ''==''"
    | (conj) "op = ''&&''" | (other) "op \<notin> {''||'', '','', ''if'', ''=='', ''&&''}"
  by auto

lemma evaluation_sound:
  "Evaluate n env defs e = Inr b \<Longrightarrow> b \<longleftrightarrow> holds env defs e"
  "GetOutcomes n env defs e = Inr s \<Longrightarrow> x \<in> members s \<longleftrightarrow> outcome_of env defs e x"
proof (induction n arbitrary: e b s x)
  case (Suc n)
  note IH1 = Suc.IH(1) and IH2 = Suc.IH(2)
  {
    case 1
    show ?case
    proof (cases e)
      case (Operation l op r)
      show ?thesis
      proof (cases op rule: op_cases)
        case disj
        with 1 Operation obtain b1 where "Evaluate n env defs l = Inr b1"
          and "if b1 then b = b1 else Evaluate n env defs r = Inr b"
          by (auto split: if_splits)
        then show ?thesis using disj Operation IH1 [of l] IH1 [of r] by (cases b1) auto
      next
        case eq
        with 1 Operation obtain s1 s2 where "GetOutcomes n env defs l = Inr s1"
          and "GetOutcomes n env defs r = Inr s2" and b: "b = (\<not> IsEmpty (Intersect s1 s2))"
          by (auto simp: Let_def)
        then have "\<And>x. x \<in> members s1 \<longleftrightarrow> outcome_of env defs l x"
          and "\<And>x. x \<in> members s2 \<longleftrightarrow> outcome_of env defs r x"
          using IH2 by blast+
        then show ?thesis using eq Operation b by (simp add: os.overlap_iff)
      next
        case conj
        with 1 Operation obtain b1 where "Evaluate n env defs l = Inr b1"
          and "if b1 then Evaluate n env defs r = Inr b else b = b1"
          by (auto split: if_splits)
        then show ?thesis using conj Operation IH1 [of l] IH1 [of r] by (cases b1) auto
      qed (use 1 Operation in auto)
    qed (use 1 in auto)
  next
    case 2
    show ?case
    proof (cases e)
      case (Outcome name)
      with 2 IH2 show ?thesis by (auto split: option.splits)
    next
      case (Operation l op r)
      show ?thesis
      proof (cases op rule: op_cases)
        case disj
        with 2 Operation obtain s1 s2 where "GetOutcomes n env defs l = Inr s1"
          and "GetOutcomes n env defs r = Inr s2" and "s = Union_set s1 s2"
          by auto
        then show ?thesis using disj Operation IH2 by (auto simp: os.mem_union)
      next
        case if_op
        with 2 Operation obtain c where c: "Evaluate n env defs r = Inr c"
          and s: "(if c then GetOutcomes n env defs l else Inr Nothing) = Inr s"
          by auto
        then show ?thesis using if_op Operation IH1 [OF c] IH2 [of l s x] by (cases c) auto
      next
        case conj
        with 2 Operation obtain s1 s2 where "GetOutcomes n env defs l = Inr s1"
          and "GetOutcomes n env defs r = Inr s2" and "s = Intersect s1 s2"
          by auto
        then show ?thesis using conj Operation IH2 by (auto simp: os.mem_inter)
      qed (use 2 Operation in auto)
    qed (use 2 in \<open>auto split: option.splits\<close>)
  }
qed auto

text \<open>
  The language has two sorts, conditions and outcome lists, that the classes do not
  distinguish: \<open>Variable\<close> and \<open>Outcome\<close> have no \<open>Evaluate\<close> and \<open>Constant\<close> has no \<open>GetOutcomes\<close>.
\<close>

fun is_cond :: "expr \<Rightarrow> bool" and is_outcome :: "expr \<Rightarrow> bool" where
  "is_cond (Constant b) = True"
| "is_cond (Variable v) = False"
| "is_cond (Outcome v) = False"
| "is_cond (Operation l op r) =
     (if op \<in> {''||'', '','', ''&&''} then is_cond l \<and> is_cond r
      else if op = ''=='' then is_outcome l \<and> is_outcome r
      else op = ''if'')"
| "is_outcome (Constant b) = False"
| "is_outcome (Variable v) = True"
| "is_outcome (Outcome v) = True"
| "is_outcome (Operation l op r) =
     (if op \<in> {''||'', '','', ''&&''} then is_outcome l \<and> is_outcome r
      else op = ''if'' \<and> is_outcome l \<and> is_cond r)"

definition defs_ok :: "defs \<Rightarrow> bool" where
  "defs_ok defs \<longleftrightarrow> (\<forall>name e. defs name = Some e \<longrightarrow> is_outcome e)"

lemma evaluation_type_safe:
  assumes "defs_ok defs"
  shows "is_cond e \<Longrightarrow> Evaluate n env defs e = Inl err \<Longrightarrow> err = RecursionError"
    and "is_outcome e \<Longrightarrow> GetOutcomes n env defs e = Inl err \<Longrightarrow> err = RecursionError"
proof (induction n arbitrary: e err)
  case (Suc n)
  note IH1 = Suc.IH(1) and IH2 = Suc.IH(2)
  {
    case 1
    show ?case
    proof (cases e)
      case (Operation l op r)
      with 1 show ?thesis
        by (cases op rule: op_cases) (auto split: if_splits dest: IH1 IH2)
    qed (use 1 in auto)
  next
    case 2
    show ?case
    proof (cases e)
      case (Outcome name)
      with 2 IH2 assms show ?thesis by (auto simp: defs_ok_def split: option.splits)
    next
      case (Operation l op r)
      with 2 show ?thesis
        by (cases op rule: op_cases) (auto split: if_splits dest: IH1 IH2)
    qed (use 2 in \<open>auto split: option.splits\<close>)
  }
qed auto

text \<open>More stack never changes an answer.\<close>

lemma evaluation_mono_Suc:
  "Evaluate n env defs e = r1 \<Longrightarrow> r1 \<noteq> Inl RecursionError \<Longrightarrow> Evaluate (Suc n) env defs e = r1"
  "GetOutcomes n env defs e = r2 \<Longrightarrow> r2 \<noteq> Inl RecursionError \<Longrightarrow>
     GetOutcomes (Suc n) env defs e = r2"
proof (induction n arbitrary: e r1 r2)
  case (Suc n)
  have ev: "Evaluate (Suc n) env defs e' = Evaluate n env defs e'"
    if "Evaluate n env defs e' \<noteq> Inl RecursionError" for e'
    using Suc.IH(1) that by blast
  have out: "GetOutcomes (Suc n) env defs e' = GetOutcomes n env defs e'"
    if "GetOutcomes n env defs e' \<noteq> Inl RecursionError" for e'
    using Suc.IH(2) that by blast
  {
    case 1
    show ?case
    proof (cases e)
      case (Operation l op r)
      have "Evaluate (Suc n) env defs e \<noteq> Inl RecursionError" using 1 by simp
      then have "Evaluate (Suc (Suc n)) env defs e = Evaluate (Suc n) env defs e"
        unfolding Operation Evaluate.simps(5) [of "Suc n"] Evaluate.simps(5) [of n]
        by (cases op rule: op_cases;
            cases "Evaluate n env defs l"; cases "GetOutcomes n env defs l";
            cases "GetOutcomes n env defs r")
          (auto simp del: Evaluate.simps GetOutcomes.simps simp: ev out)
      then show ?thesis using 1 by simp
    qed (use 1 in auto)
  next
    case 2
    show ?case
    proof (cases e)
      case (Outcome name)
      with 2 show ?thesis
        by (auto simp del: Evaluate.simps GetOutcomes.simps
            simp: GetOutcomes.simps(4) out split: option.splits)
    next
      case (Operation l op r)
      have "GetOutcomes (Suc n) env defs e \<noteq> Inl RecursionError" using 2 by simp
      then have "GetOutcomes (Suc (Suc n)) env defs e = GetOutcomes (Suc n) env defs e"
        unfolding Operation GetOutcomes.simps(5) [of "Suc n"] GetOutcomes.simps(5) [of n]
        by (cases op rule: op_cases;
            cases "Evaluate n env defs r"; cases "GetOutcomes n env defs l";
            cases "GetOutcomes n env defs r")
          (auto simp del: Evaluate.simps GetOutcomes.simps simp: ev out)
      then show ?thesis using 2 by simp
    qed (use 2 in \<open>auto split: option.splits\<close>)
  }
qed auto

lemma evaluation_mono:
  assumes "n \<le> m"
  shows "Evaluate n env defs e \<noteq> Inl RecursionError \<Longrightarrow> Evaluate m env defs e = Evaluate n env defs e"
    and "GetOutcomes n env defs e \<noteq> Inl RecursionError \<Longrightarrow>
      GetOutcomes m env defs e = GetOutcomes n env defs e"
  using assms
proof (induction m rule: dec_induct)
  case (step m)
  { case 1 then show ?case using step.IH(1) evaluation_mono_Suc(1) [of m] by metis }
  { case 2 then show ?case using step.IH(2) evaluation_mono_Suc(2) [of m] by metis }
qed auto

text \<open>
  Definitions that refer to each other without a cycle: some rank falls along every
  reference. Then a bounded number of nested calls is enough, whatever the expression.
\<close>

fun refs :: "expr \<Rightarrow> string list" where
  "refs (Constant b) = []"
| "refs (Variable v) = []"
| "refs (Outcome name) = [name]"
| "refs (Operation l op r) = refs l @ refs r"

definition acyclic_defs :: "defs \<Rightarrow> bool" where
  "acyclic_defs defs \<longleftrightarrow>
     (\<exists>rk :: string \<Rightarrow> nat. \<forall>name e. defs name = Some e \<longrightarrow> (\<forall>m \<in> set (refs e). rk m < rk name))"

definition enough :: "env \<Rightarrow> defs \<Rightarrow> nat \<Rightarrow> expr \<Rightarrow> bool" where
  "enough env defs n e \<longleftrightarrow> Evaluate n env defs e \<noteq> Inl RecursionError \<and>
     GetOutcomes n env defs e \<noteq> Inl RecursionError"

lemma enough_mono: "enough env defs n e \<Longrightarrow> n \<le> m \<Longrightarrow> enough env defs m e"
  using evaluation_mono [of n m] by (simp add: enough_def)

lemma enough_Operation:
  assumes "enough env defs n l" "enough env defs n r"
  shows "enough env defs (Suc n) (Operation l op r)"
  using assms unfolding enough_def by (cases op rule: op_cases; auto)

lemma enough_Operation_ex:
  assumes "\<exists>n. enough env defs n l" "\<exists>n. enough env defs n r"
  shows "\<exists>n. enough env defs n (Operation l op r)"
proof -
  obtain n1 n2 where "enough env defs n1 l" "enough env defs n2 r" using assms by blast
  then have "enough env defs (max n1 n2) l" "enough env defs (max n1 n2) r"
    by (meson enough_mono max.cobounded1 max.cobounded2)+
  then show ?thesis by (blast intro: enough_Operation)
qed

lemma enough_stack:
  assumes rk: "\<And>name e m. defs name = Some e \<Longrightarrow> m \<in> set (refs e) \<Longrightarrow> rk m < (rk name :: nat)"
    and "\<And>m. m \<in> set (refs e) \<Longrightarrow> rk m < k"
  shows "\<exists>n. enough env defs n e"
  using assms(2)
proof (induction k arbitrary: e rule: less_induct)
  case (less k)
  from less.prems show ?case
  proof (induction e)
    case (Operation l op r)
    then show ?case by (simp add: enough_Operation_ex)
  next
    case (Outcome name)
    show ?case
    proof (cases "defs name")
      case (Some d)
      have "rk name < k" using Outcome by simp
      from less.IH [OF this rk [OF Some]] obtain n where "enough env defs n d" by blast
      with Some show ?thesis by (intro exI [of _ "Suc n"]) (auto simp: enough_def)
    qed (intro exI [of _ "Suc 0"], auto simp: enough_def)
  qed (auto intro!: exI [of _ "Suc 0"] simp: enough_def split: option.splits)
qed

lemma acyclic_enough_stack:
  assumes "acyclic_defs defs"
  shows "\<exists>n. \<forall>m \<ge> n. enough env defs m e"
proof -
  obtain rk :: "string \<Rightarrow> nat" where rk:
    "\<And>name e m. defs name = Some e \<Longrightarrow> m \<in> set (refs e) \<Longrightarrow> rk m < rk name"
    using assms by (auto simp: acyclic_defs_def)
  have "rk m < Suc (sum_list (map rk (refs e)))" if "m \<in> set (refs e)" for m
    using that by (simp add: less_Suc_eq_le member_le_sum_list)
  then have "\<exists>n. enough env defs n e"
    using enough_stack [where rk = rk and defs = defs] rk by blast
  then show ?thesis using enough_mono by blast
qed

lemma GetOutcomes_not_Everything: "GetOutcomes n env defs e = Inr s \<Longrightarrow> s \<noteq> Everything"
proof (induction n arbitrary: e s)
  case (Suc n)
  have "Intersect a b \<noteq> Everything \<and> Union_set a b \<noteq> Everything"
    if "a \<noteq> Everything" "b \<noteq> Everything" for a b
    using that by (cases a; cases b) auto
  with Suc show ?case
    by (cases e) (fastforce split: option.splits if_splits)+
qed simp

text \<open>When \<open>Evaluate\<close> returns, its answer is whether the condition holds, and when
  \<open>GetOutcomes\<close> returns, its set has exactly the outcomes the expression stands for, in the
  reading of the expression language given by \<open>holds\<close> and \<open>outcome_of\<close>.\<close>

theorem expression_semantics:
  "(Evaluate n env defs e = Inr b \<longrightarrow> (b \<longleftrightarrow> holds env defs e)) \<and>
   (GetOutcomes n env defs e = Inr s \<longrightarrow> members s = {x. outcome_of env defs e x})"
  using evaluation_sound by blast

theorem expression_semantics_witness:
  "holds [''mode'' \<mapsto> ''debug''] Map.empty
     (Operation (Variable ''mode'') ''=='' (Outcome ''debug'')) \<and>
   {x. outcome_of [''mode'' \<mapsto> ''debug''] Map.empty
     (Operation (Outcome ''fail'') ''if'' (Operation (Variable ''mode'') ''=='' (Outcome ''debug''))) x}
   = {''fail''}"
  using expression_semantics [of 3 "[''mode'' \<mapsto> ''debug'']" Map.empty
      "Operation (Variable ''mode'') ''=='' (Outcome ''debug'')" True Nothing]
    expression_semantics [of 4 "[''mode'' \<mapsto> ''debug'']" Map.empty
      "Operation (Outcome ''fail'') ''if''
        (Operation (Variable ''mode'') ''=='' (Outcome ''debug''))" True "ListSet [''fail'']"]
  by (simp add: numeral_eq_Suc)

lemma evaluation_returns:
  assumes "acyclic_defs defs" and "defs_ok defs"
  shows "(is_cond e \<longrightarrow> (\<exists>n b. \<forall>m \<ge> n. Evaluate m env defs e = Inr b)) \<and>
    (is_outcome e \<longrightarrow> (\<exists>n s. \<forall>m \<ge> n. GetOutcomes m env defs e = Inr s))"
proof (intro conjI impI)
  obtain n where n: "\<forall>m \<ge> n. enough env defs m e" using acyclic_enough_stack [OF assms(1)] by blast
  then have no: "Evaluate n env defs e \<noteq> Inl RecursionError"
    "GetOutcomes n env defs e \<noteq> Inl RecursionError"
    by (auto simp: enough_def)
  show "\<exists>n b. \<forall>m \<ge> n. Evaluate m env defs e = Inr b" if "is_cond e"
  proof (cases "Evaluate n env defs e")
    case (Inl err)
    with evaluation_type_safe(1) [OF assms(2) that] no(1) show ?thesis by blast
  next
    case (Inr b)
    then show ?thesis using evaluation_mono(1) [OF _ no(1)] by metis
  qed
  show "\<exists>n s. \<forall>m \<ge> n. GetOutcomes m env defs e = Inr s" if "is_outcome e"
  proof (cases "GetOutcomes n env defs e")
    case (Inl err)
    with evaluation_type_safe(2) [OF assms(2) that] no(2) show ?thesis by blast
  next
    case (Inr s)
    then show ?thesis using evaluation_mono(2) [OF _ no(2)] by metis
  qed
qed

text \<open>If the definitions of the status files do not refer to each other in a cycle and are
  outcome lists, every condition evaluates to a boolean and every outcome list to a set:
  beyond some depth of the call stack no evaluation raises.\<close>

theorem evaluation_terminates:
  assumes "acyclic_defs defs" and "defs_ok defs"
  shows "(is_cond e \<longrightarrow> (\<exists>n b. \<forall>m \<ge> n. Evaluate m env defs e = Inr b)) \<and>
    (is_outcome e \<longrightarrow> (\<exists>n s. \<forall>m \<ge> n. GetOutcomes m env defs e = Inr s))"
  using evaluation_returns [OF assms] .

theorem evaluation_terminates_witness:
  "\<exists>n b. \<forall>m \<ge> n. Evaluate m Map.empty [''flaky'' \<mapsto> Outcome ''pass'']
     (Operation (Outcome ''flaky'') ''=='' (Outcome ''pass'')) = Inr b"
proof -
  have "acyclic_defs [''flaky'' \<mapsto> Outcome ''pass'']"
    unfolding acyclic_defs_def
    by (intro exI [of _ "\<lambda>name. if name = ''flaky'' then 1 else 0"]) (auto split: if_splits)
  moreover have "defs_ok [''flaky'' \<mapsto> Outcome ''pass'']"
    by (auto simp: defs_ok_def split: if_splits)
  ultimately show ?thesis using evaluation_terminates by auto
qed

subsection \<open>The tokenizer\<close>

definition IsAlpha :: "string \<Rightarrow> bool" where
  "IsAlpha str \<longleftrightarrow> (\<forall>c \<in> set str. py_isalpha c \<or> py_isdigit c \<or> c = CHR ''_'')"

record tokenizer =
  tk_index :: nat
  tk_expr :: string
  tk_tokens :: "string list"

definition tk_HasMore :: "tokenizer \<Rightarrow> nat \<Rightarrow> bool" where
  "tk_HasMore t len \<longleftrightarrow> tk_index t < length (tk_expr t) + (len - 1)"

definition tk_Current :: "tokenizer \<Rightarrow> nat \<Rightarrow> string" where
  "tk_Current t len =
     (if \<not> tk_HasMore t len then [] else py_slice (tk_expr t) (tk_index t) (tk_index t + len))"

definition tk_Advance :: "tokenizer \<Rightarrow> nat \<Rightarrow> tokenizer" where
  "tk_Advance t count = t\<lparr>tk_index := tk_index t + count\<rparr>"

definition tk_AddToken :: "tokenizer \<Rightarrow> string \<Rightarrow> tokenizer" where
  "tk_AddToken t token = t\<lparr>tk_tokens := tk_tokens t @ [token]\<rparr>"

text \<open>\<open>str.isspace()\<close> of a whole string: at least one character, all white space.\<close>

definition str_isspace :: "string \<Rightarrow> bool" where
  "str_isspace s \<longleftrightarrow> s \<noteq> [] \<and> (\<forall>c \<in> set s. py_isspace c)"

function tk_SkipSpaces :: "tokenizer \<Rightarrow> tokenizer" where
  "tk_SkipSpaces t =
     (if tk_HasMore t 1 \<and> str_isspace (tk_Current t 1) then tk_SkipSpaces (tk_Advance t 1) else t)"
  by pat_completeness auto
termination
  by (relation "measure (\<lambda>t. length (tk_expr t) - tk_index t)")
    (auto simp: tk_HasMore_def tk_Advance_def)

text \<open>The inner loop that collects a word into \<open>buf\<close>.\<close>

function tk_ReadWord :: "tokenizer \<Rightarrow> string \<Rightarrow> string \<times> tokenizer" where
  "tk_ReadWord t buf =
     (if tk_HasMore t 1 \<and> IsAlpha (tk_Current t 1)
      then tk_ReadWord (tk_Advance t 1) (buf @ tk_Current t 1) else (buf, t))"
  by pat_completeness auto
termination
  by (relation "measure (\<lambda>(t, buf). length (tk_expr t) - tk_index t)")
    (auto simp: tk_HasMore_def tk_Advance_def)

declare tk_SkipSpaces.simps [simp del] tk_ReadWord.simps [simp del]

text \<open>What is left of the input; the loops only ever move along it.\<close>

definition tk_rest :: "tokenizer \<Rightarrow> string" where
  "tk_rest t = drop (tk_index t) (tk_expr t)"

lemma tk_HasMore_rest [simp]: "tk_HasMore t (Suc 0) \<longleftrightarrow> tk_rest t \<noteq> []"
  by (auto simp: tk_HasMore_def tk_rest_def)

lemma tk_Current_rest: "n = 1 \<or> n = 2 \<Longrightarrow> tk_Current t n = take n (tk_rest t)"
  by (auto simp: tk_Current_def tk_HasMore_def tk_rest_def py_slice_def drop_take)

lemma tk_rest_Advance [simp]: "tk_rest (tk_Advance t n) = drop n (tk_rest t)"
  by (simp add: tk_Advance_def tk_rest_def add.commute)

lemma tk_rest_AddToken [simp]: "tk_rest (tk_AddToken t x) = tk_rest t"
  by (simp add: tk_AddToken_def tk_rest_def)

lemma tk_tokens_simps [simp]:
  "tk_tokens (tk_Advance t n) = tk_tokens t"
  "tk_tokens (tk_AddToken t x) = tk_tokens t @ [x]"
  by (simp_all add: tk_Advance_def tk_AddToken_def)

lemma IsAlpha_iff: "IsAlpha s \<longleftrightarrow> (\<forall>c \<in> set s. is_word_char c)"
  by (simp add: IsAlpha_def is_word_char_def)

lemma tk_SkipSpaces_rest [simp]:
  "tk_rest (tk_SkipSpaces t) = dropWhile py_isspace (tk_rest t)"
  "tk_tokens (tk_SkipSpaces t) = tk_tokens t"
proof (induction t rule: tk_SkipSpaces.induct)
  case (1 t)
  { case 1
    then show ?case
      using "1.IH"(1) by (subst tk_SkipSpaces.simps)
        (cases "tk_rest t"; auto simp: tk_Current_rest str_isspace_def) }
  { case 2
    then show ?case
      using "1.IH"(2) by (subst tk_SkipSpaces.simps)
        (cases "tk_rest t"; auto simp: tk_Current_rest str_isspace_def) }
qed

lemma tk_ReadWord_rest:
  "tk_ReadWord t buf = (w, t') \<Longrightarrow>
     w = buf @ takeWhile is_word_char (tk_rest t) \<and>
     tk_rest t' = dropWhile is_word_char (tk_rest t) \<and> tk_tokens t' = tk_tokens t"
proof (induction t buf rule: tk_ReadWord.induct)
  case (1 t buf)
  show ?case
  proof (cases "tk_rest t")
    case Nil
    with 1(2) show ?thesis by (subst (asm) tk_ReadWord.simps) auto
  next
    case (Cons c cs)
    with 1 show ?thesis
      by (auto simp: tk_ReadWord.simps [of t buf] tk_Current_rest IsAlpha_iff split: if_splits)
  qed
qed

function tk_Tokenize :: "tokenizer \<Rightarrow> string list option" where
  "tk_Tokenize t0 =
     (if \<not> tk_HasMore t0 1 then Some (tk_tokens t0)
      else
        let t = tk_SkipSpaces t0 in
        if \<not> tk_HasMore t 1 then None
        else if tk_Current t 1 = ''('' then tk_Tokenize (tk_Advance (tk_AddToken t ''('') 1)
        else if tk_Current t 1 = '')'' then tk_Tokenize (tk_Advance (tk_AddToken t '')'') 1)
        else if tk_Current t 1 = ''$'' then tk_Tokenize (tk_Advance (tk_AddToken t ''$'') 1)
        else if tk_Current t 1 = '','' then tk_Tokenize (tk_Advance (tk_AddToken t '','') 1)
        else if IsAlpha (tk_Current t 1) then
          (case tk_ReadWord t [] of (buf, t1) \<Rightarrow> tk_Tokenize (tk_AddToken t1 buf))
        else if tk_Current t 2 = ''&&'' then tk_Tokenize (tk_Advance (tk_AddToken t ''&&'') 2)
        else if tk_Current t 2 = ''||'' then tk_Tokenize (tk_Advance (tk_AddToken t ''||'') 2)
        else if tk_Current t 2 = ''=='' then tk_Tokenize (tk_Advance (tk_AddToken t ''=='') 2)
        else None)"
  by pat_completeness auto

lemma tk_skip_less:
  "tk_rest (tk_SkipSpaces t) \<noteq> [] \<Longrightarrow> 0 < n \<Longrightarrow>
     length (tk_rest (tk_SkipSpaces t)) - n < length (tk_rest t)"
  using length_dropWhile_le [of py_isspace "tk_rest t"]
  by (cases "dropWhile py_isspace (tk_rest t)") auto

lemma tk_word_less:
  assumes "tk_rest (tk_SkipSpaces t) \<noteq> []" "IsAlpha (tk_Current (tk_SkipSpaces t) (Suc 0))"
    and "tk_ReadWord (tk_SkipSpaces t) [] = (buf, t1)"
  shows "length (tk_rest t1) < length (tk_rest t)"
proof -
  obtain c cs where c: "tk_rest (tk_SkipSpaces t) = c # cs"
    using assms(1) by (cases "tk_rest (tk_SkipSpaces t)") auto
  have "is_word_char c" using assms(2) c by (simp add: tk_Current_rest IsAlpha_iff)
  then have "tk_rest t1 = dropWhile is_word_char cs"
    using tk_ReadWord_rest [OF assms(3)] c by simp
  then have "length (tk_rest t1) \<le> length cs" by (simp add: length_dropWhile_le)
  moreover have "Suc (length cs) \<le> length (tk_rest t)"
    using c length_dropWhile_le [of py_isspace "tk_rest t"] by simp
  ultimately show ?thesis by simp
qed

termination tk_Tokenize
  by (relation "measure (\<lambda>t. length (tk_rest t))")
    (auto simp: tk_skip_less simp del: tk_SkipSpaces_rest(1) intro: tk_word_less [OF _ _ sym])

declare tk_Tokenize.simps [simp del]

definition Tokenize :: "string \<Rightarrow> string list option" where
  "Tokenize expr = tk_Tokenize \<lparr>tk_index = 0, tk_expr = expr, tk_tokens = []\<rparr>"

text \<open>The reference tokenizer: no index, no accumulator, one step per token.\<close>

function (sequential) lex_tokens :: "string \<Rightarrow> string list option" where
  "lex_tokens [] = Some []"
| "lex_tokens s =
     (case dropWhile py_isspace s of
        [] \<Rightarrow> None
      | c # cs \<Rightarrow>
          if c \<in> {CHR ''('', CHR '')'', CHR ''$'', CHR '',''} then map_option ((#) [c]) (lex_tokens cs)
          else if is_word_char c then
            map_option ((#) (takeWhile is_word_char (c # cs))) (lex_tokens (dropWhile is_word_char cs))
          else if c \<in> {CHR ''&'', CHR ''|'', CHR ''=''} \<and> cs \<noteq> [] \<and> hd cs = c then
            map_option ((#) [c, c]) (lex_tokens (tl cs))
          else None)"
  by pat_completeness auto

lemma lex_less:
  assumes "dropWhile py_isspace s = c # cs"
  shows "length cs < length s" "length (dropWhile P cs) < length s" "length (tl cs) < length s"
  using assms length_dropWhile_le [of py_isspace s] length_dropWhile_le [of P cs] by auto

termination lex_tokens
  by (relation "measure length") (auto dest: lex_less simp del: dropWhile.simps)

lemma tk_Tokenize_step:
  assumes "dropWhile py_isspace (tk_rest t) = c # cs"
  shows "tk_Tokenize t =
    (let u = tk_SkipSpaces t in
     if c \<in> {CHR ''('', CHR '')'', CHR ''$'', CHR '',''} then
       tk_Tokenize (tk_Advance (tk_AddToken u [c]) 1)
     else if is_word_char c then
       (case tk_ReadWord u [] of (buf, t1) \<Rightarrow> tk_Tokenize (tk_AddToken t1 buf))
     else if c \<in> {CHR ''&'', CHR ''|'', CHR ''=''} \<and> cs \<noteq> [] \<and> hd cs = c then
       tk_Tokenize (tk_Advance (tk_AddToken u [c, c]) 2)
     else None)"
proof -
  have "tk_rest t \<noteq> []" using assms by auto
  moreover have "tk_Current (tk_SkipSpaces t) 1 = [c]"
    using assms by (simp add: tk_Current_rest)
  moreover have "tk_Current (tk_SkipSpaces t) 2 = [a, a] \<longleftrightarrow> c = a \<and> cs \<noteq> [] \<and> hd cs = a" for a
    using assms by (cases cs) (auto simp: tk_Current_rest)
  ultimately show ?thesis
    using assms by (subst tk_Tokenize.simps) (simp add: Let_def IsAlpha_iff)
qed

lemma lex_step:
  assumes "dropWhile py_isspace s = c # cs"
  shows "lex_tokens s =
    (if c \<in> {CHR ''('', CHR '')'', CHR ''$'', CHR '',''} then map_option ((#) [c]) (lex_tokens cs)
     else if is_word_char c then
       map_option ((#) (takeWhile is_word_char (c # cs))) (lex_tokens (dropWhile is_word_char cs))
     else if c \<in> {CHR ''&'', CHR ''|'', CHR ''=''} \<and> cs \<noteq> [] \<and> hd cs = c then
       map_option ((#) [c, c]) (lex_tokens (tl cs))
     else None)"
proof -
  obtain d ds where "s = d # ds" using assms by (cases s) auto
  then show ?thesis using assms by (simp add: lex_tokens.simps del: dropWhile.simps)
qed

declare lex_tokens.simps(2) [simp del]

lemma lex_tokens_blank: "dropWhile py_isspace (c # cs) = [] \<Longrightarrow> lex_tokens (c # cs) = None"
  by (simp only: lex_tokens.simps list.case)

lemma tk_Tokenize_lex: "tk_Tokenize t = map_option (\<lambda>ts. tk_tokens t @ ts) (lex_tokens (tk_rest t))"
proof (induction "length (tk_rest t)" arbitrary: t rule: less_induct)
  case less
  show ?case
  proof (cases "dropWhile py_isspace (tk_rest t)")
    case Nil
    then show ?thesis
      by (subst tk_Tokenize.simps) (cases "tk_rest t"; simp add: Let_def lex_tokens_blank)
  next
    case (Cons c cs)
    obtain w t1 where w: "tk_ReadWord (tk_SkipSpaces t) [] = (w, t1)" by fastforce
    have w1: "w = takeWhile is_word_char (c # cs)" "tk_rest t1 = dropWhile is_word_char (c # cs)"
      "tk_tokens t1 = tk_tokens t"
      using tk_ReadWord_rest [OF w] Cons by simp_all
    have step: "tk_Tokenize u = map_option (\<lambda>ts. tk_tokens u @ ts) (lex_tokens (tk_rest u))"
      if "tk_rest u \<in> {cs, tl cs, dropWhile is_word_char cs}" for u
      using that less lex_less [OF Cons] by auto
    have c2: "tk_rest (tk_Advance (tk_AddToken (tk_SkipSpaces t) x) 2) = tl cs" for x
      using Cons by (cases cs) simp_all
    have "tk_Tokenize (tk_Advance (tk_AddToken (tk_SkipSpaces t) x) 2) =
        map_option (\<lambda>ts. tk_tokens t @ x # ts) (lex_tokens (tl cs))" for x
      using step [of "tk_Advance (tk_AddToken (tk_SkipSpaces t) x) 2"] unfolding c2
      by (cases "lex_tokens (tl cs)") auto
    then show ?thesis
      unfolding tk_Tokenize_step [OF Cons] lex_step [OF Cons] Let_def w
      by (simp add: step Cons w1 option.map_comp comp_def)
  qed
qed

lemma Tokenize_lex: "Tokenize expr = lex_tokens expr"
  by (simp add: Tokenize_def tk_Tokenize_lex tk_rest_def option.map_ident)

text \<open>The tokens the tokenizer can produce, and that it reads them back.\<close>

definition valid_token :: "string \<Rightarrow> bool" where
  "valid_token tok \<longleftrightarrow> tok \<in> {''('', '')'', ''$'', '','', ''&&'', ''||'', ''==''} \<or>
     (tok \<noteq> [] \<and> IsAlpha tok)"

lemma lex_tokens_valid: "lex_tokens s = Some ts \<Longrightarrow> \<forall>tok \<in> set ts. valid_token tok"
proof (induction s arbitrary: ts rule: lex_tokens.induct)
  case (2 v va)
  show ?case
  proof (cases "dropWhile py_isspace (v # va)")
    case Nil
    with "2.prems" show ?thesis by (simp add: lex_tokens_blank)
  next
    case (Cons c cs)
    consider (punct) "c \<in> {CHR ''('', CHR '')'', CHR ''$'', CHR '',''}"
      | (word) "c \<notin> {CHR ''('', CHR '')'', CHR ''$'', CHR '',''}" "is_word_char c"
      | (op) "c \<notin> {CHR ''('', CHR '')'', CHR ''$'', CHR '',''}" "\<not> is_word_char c"
      by blast
    then show ?thesis
    proof cases
      case punct
      then obtain us where "lex_tokens cs = Some us" "ts = [c] # us"
        using "2.prems" unfolding lex_step [OF Cons] by auto
      then show ?thesis using "2.IH"(1) [OF Cons punct] punct by (auto simp: valid_token_def)
    next
      case word
      then obtain us where "lex_tokens (dropWhile is_word_char cs) = Some us"
        "ts = (c # takeWhile is_word_char cs) # us"
        using "2.prems" unfolding lex_step [OF Cons] by auto
      then show ?thesis using "2.IH"(2) [OF Cons word] word
        by (auto simp: valid_token_def IsAlpha_iff dest: set_takeWhileD)
    next
      case op
      then have c: "c \<in> {CHR ''&'', CHR ''|'', CHR ''=''} \<and> cs \<noteq> [] \<and> hd cs = c"
        using "2.prems" unfolding lex_step [OF Cons] by (auto split: if_splits)
      then obtain us where "lex_tokens (tl cs) = Some us" "ts = [c, c] # us"
        using op "2.prems" unfolding lex_step [OF Cons] by auto
      then show ?thesis using "2.IH"(3) [OF Cons op c] c by (auto simp: valid_token_def)
    qed
  qed
qed simp

lemma lex_tokens_append_space:
  assumes "valid_token tok"
  shows "lex_tokens (tok @ CHR '' '' # s) = map_option ((#) tok) (lex_tokens (CHR '' '' # s))"
proof -
  have sp: "\<not> is_word_char (CHR '' '')" by (simp add: char_defs)
  consider (punct) c where "tok = [c]" "c \<in> {CHR ''('', CHR '')'', CHR ''$'', CHR '',''}"
    | (op) c where "tok = [c, c]" "c \<in> {CHR ''&'', CHR ''|'', CHR ''=''}"
    | (word) c w where "tok = c # w" "is_word_char c" "\<forall>x \<in> set w. is_word_char x"
    using assms by (cases tok) (auto simp: valid_token_def IsAlpha_iff)
  then show ?thesis
  proof cases
    case punct
    then show ?thesis using lex_step [of "tok @ CHR '' '' # s" c "CHR '' '' # s"]
      by (auto simp: char_defs)
  next
    case op
    then show ?thesis using lex_step [of "tok @ CHR '' '' # s" c "c # CHR '' '' # s"]
      by (auto simp: char_defs)
  next
    case word
    then have "c \<notin> {CHR ''('', CHR '')'', CHR ''$'', CHR '',''}" by (auto simp: char_defs)
    then show ?thesis
      using word sp lex_step [of "tok @ CHR '' '' # s" c "w @ CHR '' '' # s"]
      by (simp add: word_char_not_space)
  qed
qed

lemma lex_tokens_skip_space:
  assumes "valid_token tok"
  shows "lex_tokens (CHR '' '' # tok @ s) = lex_tokens (tok @ s)"
proof -
  obtain c w where c: "tok = c # w" "\<not> py_isspace c"
    using assms by (cases tok) (auto simp: valid_token_def IsAlpha_iff char_defs)
  then have "dropWhile py_isspace (CHR '' '' # tok @ s) = c # w @ s"
    and "dropWhile py_isspace (tok @ s) = c # w @ s"
    by (simp_all add: py_isspace_def ord_def)
  then show ?thesis by (simp only: lex_step)
qed

lemma lex_tokens_single:
  assumes "valid_token tok"
  shows "lex_tokens tok = Some [tok]"
proof -
  consider (punct) c where "tok = [c]" "c \<in> {CHR ''('', CHR '')'', CHR ''$'', CHR '',''}"
    | (op) c where "tok = [c, c]" "c \<in> {CHR ''&'', CHR ''|'', CHR ''=''}"
    | (word) c w where "tok = c # w" "is_word_char c" "\<forall>x \<in> set w. is_word_char x"
    using assms by (cases tok) (auto simp: valid_token_def IsAlpha_iff)
  then show ?thesis
  proof cases
    case punct
    then show ?thesis using lex_step [of tok c "[]"] by (auto simp: char_defs)
  next
    case op
    then show ?thesis using lex_step [of tok c "[c]"] by (auto simp: char_defs)
  next
    case word
    then have "c \<notin> {CHR ''('', CHR '')'', CHR ''$'', CHR '',''}" by (auto simp: char_defs)
    moreover have "takeWhile is_word_char w = w" "lex_tokens (dropWhile is_word_char w) = Some []"
      using word by (simp_all add: takeWhile_eq_all_conv dropWhile_eq_Nil_conv [THEN iffD2])
    ultimately show ?thesis
      using word lex_step [of tok c w] by (simp add: word_char_not_space)
  qed
qed

lemma lex_tokens_join:
  "\<forall>tok \<in> set ts. valid_token tok \<Longrightarrow> lex_tokens (py_join '' '' ts) = Some ts"
proof (induction "'' ''" ts rule: py_join.induct)
  case (2 x)
  then show ?case by (simp add: lex_tokens_single)
next
  case (3 x y ys)
  have "lex_tokens (CHR '' '' # py_join '' '' (y # ys)) = lex_tokens (py_join '' '' (y # ys))"
    using 3 lex_tokens_skip_space [of y] lex_tokens_skip_space [of y "[]"]
    by (cases ys) auto
  with 3 show ?case by (simp add: lex_tokens_append_space)
qed simp

text \<open>The index-based loops of \<open>Tokenizer.Tokenize\<close> compute, on every input, what the
  reference tokenizer \<open>lex_tokens\<close> computes; in particular they terminate.\<close>

theorem Tokenize_reference: "Tokenize expr = lex_tokens expr"
  by (rule Tokenize_lex)

end
