(* ===== verification/TestParser.thy ===== *)
theory TestParser
  imports TestExpr
begin

section \<open>The parser of the test status files\<close>

text \<open>
  \<open>src/tools/test.py\<close>, lines 897 to 998: \<open>Scanner\<close>, the four recursive-descent functions and
  \<open>ParseCondition\<close>. A parse function returns the expression or \<open>None\<close> together with the
  scanner it has advanced; \<open>Scanner.Current\<close> past the last token is Python's \<open>IndexError\<close>.
  Each \<open>while\<close> loop is a function of its own. The first argument bounds the number of nested
  calls and loop rounds; \<open>parse_fuel\<close> is enough for every token list, so \<open>ParseCondition\<close>
  never runs out of it.
\<close>

subsection \<open>The scanner\<close>

record scanner =
  sc_tokens :: "string list"
  sc_index :: nat

definition Scanner :: "string list \<Rightarrow> scanner" where
  "Scanner tokens = \<lparr>sc_tokens = tokens, sc_index = 0\<rparr>"

definition sc_HasMore :: "scanner \<Rightarrow> bool" where
  "sc_HasMore scan \<longleftrightarrow> sc_index scan < length (sc_tokens scan)"

definition sc_Current :: "scanner \<Rightarrow> string res" where
  "sc_Current scan = py_index (sc_tokens scan) (sc_index scan)"

definition sc_Advance :: "scanner \<Rightarrow> scanner" where
  "sc_Advance scan = scan\<lparr>sc_index := sc_index scan + 1\<rparr>"

definition sc_rest :: "scanner \<Rightarrow> string list" where
  "sc_rest scan = drop (sc_index scan) (sc_tokens scan)"

definition sc_skip :: "nat \<Rightarrow> scanner \<Rightarrow> scanner" where
  "sc_skip k scan = scan\<lparr>sc_index := sc_index scan + k\<rparr>"

lemma sc_HasMore_rest [simp]: "sc_HasMore scan \<longleftrightarrow> sc_rest scan \<noteq> []"
  by (auto simp: sc_HasMore_def sc_rest_def)

lemma sc_Current_rest:
  "sc_Current scan = (case sc_rest scan of [] \<Rightarrow> Inl IndexError | tok # _ \<Rightarrow> Inr tok)"
  by (auto simp: sc_Current_def py_index_def sc_rest_def Cons_nth_drop_Suc [symmetric])

lemma sc_rest_Advance [simp]: "sc_rest (sc_Advance scan) = tl (sc_rest scan)"
  by (simp add: sc_rest_def sc_Advance_def drop_Suc tl_drop)

lemma sc_rest_skip [simp]: "sc_rest (sc_skip k scan) = drop k (sc_rest scan)"
  by (simp add: sc_rest_def sc_skip_def add.commute)

lemma sc_skip_simps [simp]:
  "sc_skip 0 scan = scan"
  "sc_Advance (sc_skip k scan) = sc_skip (Suc k) scan"
  "sc_skip j (sc_skip k scan) = sc_skip (k + j) scan"
  by (simp_all add: sc_skip_def sc_Advance_def add.assoc)

lemma sc_Advance_skip: "sc_Advance scan = sc_skip 1 scan"
  by (simp add: sc_skip_def sc_Advance_def)

subsection \<open>The parse functions\<close>

definition BINARIES :: "string list" where "BINARIES = [''=='']"
definition LOGICALS :: "string list" where "LOGICALS = [''&&'', ''||'', '','']"

text \<open>\<open>scan.HasMore() and (scan.Current() in toks)\<close>, the condition of the three loops.\<close>

definition at_token :: "string list \<Rightarrow> scanner \<Rightarrow> bool" where
  "at_token toks scan \<longleftrightarrow>
     sc_HasMore scan \<and> (case sc_Current scan of Inl e \<Rightarrow> False | Inr tok \<Rightarrow> tok \<in> set toks)"

lemma at_token_rest: "at_token toks scan \<longleftrightarrow> sc_rest scan \<noteq> [] \<and> hd (sc_rest scan) \<in> set toks"
  by (cases "sc_rest scan") (auto simp: at_token_def sc_Current_rest)

type_synonym parse_result = "(expr option \<times> scanner) res"

fun ParseAtomicExpression :: "nat \<Rightarrow> scanner \<Rightarrow> parse_result"
  and ParseOperatorExpression :: "nat \<Rightarrow> scanner \<Rightarrow> parse_result"
  and OperatorLoop :: "nat \<Rightarrow> expr \<Rightarrow> scanner \<Rightarrow> parse_result"
  and ParseConditionalExpression :: "nat \<Rightarrow> scanner \<Rightarrow> parse_result"
  and ConditionalLoop :: "nat \<Rightarrow> expr \<Rightarrow> scanner \<Rightarrow> parse_result"
  and ParseLogicalExpression :: "nat \<Rightarrow> scanner \<Rightarrow> parse_result"
  and LogicalLoop :: "nat \<Rightarrow> expr \<Rightarrow> scanner \<Rightarrow> parse_result" where
  "ParseAtomicExpression 0 scan = Inl RecursionError"
| "ParseAtomicExpression (Suc n) scan =
     rbind (sc_Current scan) (\<lambda>cur.
     if cur = ''true'' then Inr (Some (Constant True), sc_Advance scan)
     else if cur = ''false'' then Inr (Some (Constant False), sc_Advance scan)
     else if IsAlpha cur then Inr (Some (Outcome (py_lower cur)), sc_Advance scan)
     else if cur = ''$'' then
       (let scan = sc_Advance scan in
        rbind (sc_Current scan) (\<lambda>name.
          if \<not> IsAlpha name then Inr (None, scan)
          else Inr (Some (Variable (py_lower name)), sc_Advance scan)))
     else if cur = ''('' then
       rbind (ParseLogicalExpression n (sc_Advance scan)) (\<lambda>(result, scan).
         case result of
           None \<Rightarrow> Inr (None, scan)
         | Some e \<Rightarrow>
             rbind (sc_Current scan) (\<lambda>close.
               if close \<noteq> '')'' then Inr (None, scan) else Inr (Some e, sc_Advance scan)))
     else Inr (None, scan))"
| "ParseOperatorExpression 0 scan = Inl RecursionError"
| "ParseOperatorExpression (Suc n) scan =
     rbind (ParseAtomicExpression n scan) (\<lambda>(left, scan).
       case left of None \<Rightarrow> Inr (None, scan) | Some l \<Rightarrow> OperatorLoop n l scan)"
| "OperatorLoop 0 left scan = Inl RecursionError"
| "OperatorLoop (Suc n) left scan =
     (if at_token BINARIES scan then
        rbind (sc_Current scan) (\<lambda>op.
        rbind (ParseOperatorExpression n (sc_Advance scan)) (\<lambda>(right, scan).
          case right of
            None \<Rightarrow> Inr (None, scan)
          | Some r \<Rightarrow> OperatorLoop n (Operation left op r) scan))
      else Inr (Some left, scan))"
| "ParseConditionalExpression 0 scan = Inl RecursionError"
| "ParseConditionalExpression (Suc n) scan =
     rbind (ParseOperatorExpression n scan) (\<lambda>(left, scan).
       case left of None \<Rightarrow> Inr (None, scan) | Some l \<Rightarrow> ConditionalLoop n l scan)"
| "ConditionalLoop 0 left scan = Inl RecursionError"
| "ConditionalLoop (Suc n) left scan =
     (if at_token [''if''] scan then
        rbind (ParseOperatorExpression n (sc_Advance scan)) (\<lambda>(right, scan).
          case right of
            None \<Rightarrow> Inr (None, scan)
          | Some r \<Rightarrow> ConditionalLoop n (Operation left ''if'' r) scan)
      else Inr (Some left, scan))"
| "ParseLogicalExpression 0 scan = Inl RecursionError"
| "ParseLogicalExpression (Suc n) scan =
     rbind (ParseConditionalExpression n scan) (\<lambda>(left, scan).
       case left of None \<Rightarrow> Inr (None, scan) | Some l \<Rightarrow> LogicalLoop n l scan)"
| "LogicalLoop 0 left scan = Inl RecursionError"
| "LogicalLoop (Suc n) left scan =
     (if at_token LOGICALS scan then
        rbind (sc_Current scan) (\<lambda>op.
        rbind (ParseConditionalExpression n (sc_Advance scan)) (\<lambda>(right, scan).
          case right of
            None \<Rightarrow> Inr (None, scan)
          | Some r \<Rightarrow> LogicalLoop n (Operation left op r) scan))
      else Inr (Some left, scan))"

definition parse_fuel :: "string list \<Rightarrow> nat" where
  "parse_fuel tokens = 6 * length tokens + 4"

definition ParseCondition :: "string \<Rightarrow> expr option res" where
  "ParseCondition expr =
     (case Tokenize expr of
        None \<Rightarrow> Inr None
      | Some tokens \<Rightarrow>
          if tokens = [] then Inr None
          else
            let scan = Scanner tokens in
            rbind (ParseLogicalExpression (parse_fuel tokens) scan) (\<lambda>(ast, scan).
              case ast of
                None \<Rightarrow> Inr None
              | Some e \<Rightarrow> if sc_HasMore scan then Inr None else Inr (Some e)))"

subsection \<open>Progress and totality\<close>

text \<open>A parse function that returns an expression has consumed at least one token, and it
  never moves back.\<close>

definition consumed :: "bool \<Rightarrow> scanner \<Rightarrow> expr option \<times> scanner \<Rightarrow> bool" where
  "consumed strict scan res \<longleftrightarrow>
     length (sc_rest (snd res)) \<le> length (sc_rest scan) \<and>
     (strict \<and> fst res \<noteq> None \<longrightarrow> length (sc_rest (snd res)) < length (sc_rest scan))"

lemma sc_Current_Inr: "sc_Current scan = Inr tok \<Longrightarrow> \<exists>ts. sc_rest scan = tok # ts"
  by (auto simp: sc_Current_rest split: list.splits)

lemma consumed_loop:
  assumes "consumed True (sc_Advance scan) (right, s1)"
    and "(case right of None \<Rightarrow> Inr (None, s1) | Some e \<Rightarrow> f e) = Inr r"
    and "\<And>e. f e = Inr r \<Longrightarrow> consumed False s1 r"
  shows "consumed False scan r"
  using assms by (cases right) (fastforce simp: consumed_def)+

lemma consumed_then:
  assumes "consumed True scan (left, s1)"
    and "(case left of None \<Rightarrow> Inr (None, s1) | Some e \<Rightarrow> f e) = Inr r"
    and "\<And>e. f e = Inr r \<Longrightarrow> consumed False s1 r"
  shows "consumed True scan r"
  using assms by (cases left) (fastforce simp: consumed_def)+

lemma consumed_refl: "consumed False scan (e, scan)"
  by (simp add: consumed_def)

lemma consumed_paren:
  assumes "sc_rest scan \<noteq> []" "consumed True (sc_Advance scan) (result, s1)"
    and "(case result of None \<Rightarrow> Inr (None, s1)
      | Some e \<Rightarrow> rbind (sc_Current s1) (\<lambda>close.
          if close \<noteq> '')'' then Inr (None, s1) else Inr (Some e, sc_Advance s1))) = Inr r"
  shows "consumed True scan r"
  using assms by (cases "sc_rest scan"; cases result)
    (auto simp: consumed_def sc_Current_rest split: if_splits list.splits)

lemma consumed_atom:
  assumes "sc_Current scan = Inr tok"
  shows "consumed True scan (e, sc_Advance scan)"
    "consumed True scan (None, scan)"
    "sc_Current (sc_Advance scan) = Inr tok' \<Longrightarrow> consumed True scan (e, sc_Advance (sc_Advance scan))"
  using assms by (auto simp: consumed_def dest!: sc_Current_Inr)

lemma parse_consumed:
  "ParseAtomicExpression n scan = Inr r1 \<Longrightarrow> consumed True scan r1"
  "ParseOperatorExpression n scan = Inr r2 \<Longrightarrow> consumed True scan r2"
  "OperatorLoop n e scan = Inr r3 \<Longrightarrow> consumed False scan r3"
  "ParseConditionalExpression n scan = Inr r4 \<Longrightarrow> consumed True scan r4"
  "ConditionalLoop n e scan = Inr r5 \<Longrightarrow> consumed False scan r5"
  "ParseLogicalExpression n scan = Inr r6 \<Longrightarrow> consumed True scan r6"
  "LogicalLoop n e scan = Inr r7 \<Longrightarrow> consumed False scan r7"
proof (induction n arbitrary: scan e r1 r2 r3 r4 r5 r6 r7)
  case (Suc n)
  note IH = Suc.IH
  { case 1
    then obtain cur where cur: "sc_Current scan = Inr cur" by auto
    then have "sc_rest scan \<noteq> []" by (auto dest: sc_Current_Inr)
    show ?case
    proof (cases "cur = ''(''")
      case True
      with 1 cur obtain result s1 where sub: "ParseLogicalExpression n (sc_Advance scan) = Inr (result, s1)"
        and rest: "(case result of None \<Rightarrow> Inr (None, s1)
          | Some e \<Rightarrow> rbind (sc_Current s1) (\<lambda>close.
              if close \<noteq> '')'' then Inr (None, s1) else Inr (Some e, sc_Advance s1))) = Inr r1"
        by (auto simp: IsAlpha_iff char_defs simp del: rbind_eq_Inr dest: rbind_eq_Inr [THEN iffD1])
      show ?thesis by (rule consumed_paren [OF \<open>sc_rest scan \<noteq> []\<close> IH(6) [OF sub] rest])
    next
      case False
      with 1 cur show ?thesis
        by (auto simp: Let_def consumed_atom split: if_splits)
    qed }
  { case 2
    then obtain left s1 where sub: "ParseAtomicExpression n scan = Inr (left, s1)"
      and rest: "(case left of None \<Rightarrow> Inr (None, s1) | Some l \<Rightarrow> OperatorLoop n l s1) = Inr r2"
      by auto
    show ?case by (rule consumed_then [OF IH(1) [OF sub] rest IH(3)]) }
  { case 3
    show ?case
    proof (cases "at_token BINARIES scan")
      case True
      with 3 obtain op right s1 where sub: "ParseOperatorExpression n (sc_Advance scan) = Inr (right, s1)"
        and rest: "(case right of None \<Rightarrow> Inr (None, s1)
          | Some r \<Rightarrow> OperatorLoop n (Operation e op r) s1) = Inr r3"
        by auto
      show ?thesis by (rule consumed_loop [OF IH(2) [OF sub] rest IH(3)])
    qed (use 3 in \<open>auto simp: consumed_refl\<close>) }
  { case 4
    then obtain left s1 where sub: "ParseOperatorExpression n scan = Inr (left, s1)"
      and rest: "(case left of None \<Rightarrow> Inr (None, s1) | Some l \<Rightarrow> ConditionalLoop n l s1) = Inr r4"
      by auto
    show ?case by (rule consumed_then [OF IH(2) [OF sub] rest IH(5)]) }
  { case 5
    show ?case
    proof (cases "at_token [''if''] scan")
      case True
      with 5 obtain right s1 where sub: "ParseOperatorExpression n (sc_Advance scan) = Inr (right, s1)"
        and rest: "(case right of None \<Rightarrow> Inr (None, s1)
          | Some r \<Rightarrow> ConditionalLoop n (Operation e ''if'' r) s1) = Inr r5"
        by auto
      show ?thesis by (rule consumed_loop [OF IH(2) [OF sub] rest IH(5)])
    qed (use 5 in \<open>auto simp: consumed_refl\<close>) }
  { case 6
    then obtain left s1 where sub: "ParseConditionalExpression n scan = Inr (left, s1)"
      and rest: "(case left of None \<Rightarrow> Inr (None, s1) | Some l \<Rightarrow> LogicalLoop n l s1) = Inr r6"
      by auto
    show ?case by (rule consumed_then [OF IH(4) [OF sub] rest IH(7)]) }
  { case 7
    show ?case
    proof (cases "at_token LOGICALS scan")
      case True
      with 7 obtain op right s1 where sub: "ParseConditionalExpression n (sc_Advance scan) = Inr (right, s1)"
        and rest: "(case right of None \<Rightarrow> Inr (None, s1)
          | Some r \<Rightarrow> LogicalLoop n (Operation e op r) s1) = Inr r7"
        by auto
      show ?thesis by (rule consumed_loop [OF IH(4) [OF sub] rest IH(7)])
    qed (use 7 in \<open>auto simp: consumed_refl\<close>) }
qed simp_all

text \<open>With enough fuel, the only raise is the \<open>IndexError\<close> of a missing token.\<close>

lemma parse_only_IndexError:
  "6 * length (sc_rest scan) + 1 \<le> n \<Longrightarrow> ParseAtomicExpression n scan = Inl err \<Longrightarrow> err = IndexError"
  "6 * length (sc_rest scan) + 2 \<le> n \<Longrightarrow> ParseOperatorExpression n scan = Inl err \<Longrightarrow> err = IndexError"
  "6 * length (sc_rest scan) + 1 \<le> n \<Longrightarrow> OperatorLoop n e scan = Inl err \<Longrightarrow> err = IndexError"
  "6 * length (sc_rest scan) + 3 \<le> n \<Longrightarrow> ParseConditionalExpression n scan = Inl err \<Longrightarrow> err = IndexError"
  "6 * length (sc_rest scan) + 1 \<le> n \<Longrightarrow> ConditionalLoop n e scan = Inl err \<Longrightarrow> err = IndexError"
  "6 * length (sc_rest scan) + 4 \<le> n \<Longrightarrow> ParseLogicalExpression n scan = Inl err \<Longrightarrow> err = IndexError"
  "6 * length (sc_rest scan) + 1 \<le> n \<Longrightarrow> LogicalLoop n e scan = Inl err \<Longrightarrow> err = IndexError"
proof (induction n arbitrary: scan e err)
  case (Suc n)
  note IH = Suc.IH
  { case 1
    then consider (index) "sc_Current scan = Inl err" | (index2) "sc_Current (sc_Advance scan) = Inl err"
      | (sub) "sc_rest scan \<noteq> []" "ParseLogicalExpression n (sc_Advance scan) = Inl err"
      | (close) s1 where "sc_Current s1 = Inl err"
      by (auto simp: Let_def split: if_splits option.splits dest!: sc_Current_Inr)
    then show ?case
    proof cases
      case sub
      then have "6 * length (sc_rest (sc_Advance scan)) + 4 \<le> n"
        using 1(1) by (cases "sc_rest scan") auto
      with sub show ?thesis using IH(6) by blast
    qed (auto simp: sc_Current_rest split: list.splits) }
  { case 2
    then consider (sub) "ParseAtomicExpression n scan = Inl err"
      | (loop) l s1 where "ParseAtomicExpression n scan = Inr (Some l, s1)"
          "OperatorLoop n l s1 = Inl err"
      by (auto split: option.splits)
    then show ?case
    proof cases
      case sub with 2 show ?thesis by (intro IH(1)) auto
    next
      case loop
      with parse_consumed(1) [OF loop(1)] 2 show ?thesis
        by (intro IH(3) [OF _ loop(2)]) (simp add: consumed_def)
    qed }
  { case 3
    then have more: "sc_rest scan \<noteq> []" and at: "at_token BINARIES scan"
      by (auto simp: at_token_rest split: if_splits)
    have cur: "sc_Current scan = Inr (hd (sc_rest scan))"
      using more by (cases "sc_rest scan") (auto simp: sc_Current_rest)
    from 3 at cur consider (sub) "ParseOperatorExpression n (sc_Advance scan) = Inl err"
      | (loop) op r s1 where "ParseOperatorExpression n (sc_Advance scan) = Inr (Some r, s1)"
          "OperatorLoop n (Operation e op r) s1 = Inl err"
      by (auto split: option.splits)
    then show ?case
    proof cases
      case sub
      then have "6 * length (sc_rest (sc_Advance scan)) + 2 \<le> n"
        using 3(1) more by (cases "sc_rest scan") auto
      with sub show ?thesis using IH(2) by blast
    next
      case loop
      then have "6 * length (sc_rest s1) + 1 \<le> n"
        using parse_consumed(2) [OF loop(1)] 3(1) more
        by (cases "sc_rest scan") (auto simp: consumed_def)
      with loop(2) show ?thesis using IH(3) by blast
    qed }
  { case 4
    then consider (sub) "ParseOperatorExpression n scan = Inl err"
      | (loop) l s1 where "ParseOperatorExpression n scan = Inr (Some l, s1)"
          "ConditionalLoop n l s1 = Inl err"
      by (auto split: option.splits)
    then show ?case
    proof cases
      case sub with 4 show ?thesis by (intro IH(2)) auto
    next
      case loop
      with parse_consumed(2) [OF loop(1)] 4 show ?thesis
        by (intro IH(5) [OF _ loop(2)]) (simp add: consumed_def)
    qed }
  { case 5
    then have more: "sc_rest scan \<noteq> []" and at: "at_token [''if''] scan"
      by (auto simp: at_token_rest split: if_splits)
    have cur: "sc_Current scan = Inr (hd (sc_rest scan))"
      using more by (cases "sc_rest scan") (auto simp: sc_Current_rest)
    from 5 at cur consider (sub) "ParseOperatorExpression n (sc_Advance scan) = Inl err"
      | (loop) r s1 where "ParseOperatorExpression n (sc_Advance scan) = Inr (Some r, s1)"
          "ConditionalLoop n (Operation e ''if'' r) s1 = Inl err"
      by (auto split: option.splits)
    then show ?case
    proof cases
      case sub
      then have "6 * length (sc_rest (sc_Advance scan)) + 2 \<le> n"
        using 5(1) more by (cases "sc_rest scan") auto
      with sub show ?thesis using IH(2) by blast
    next
      case loop
      then have "6 * length (sc_rest s1) + 1 \<le> n"
        using parse_consumed(2) [OF loop(1)] 5(1) more
        by (cases "sc_rest scan") (auto simp: consumed_def)
      with loop(2) show ?thesis using IH(5) by blast
    qed }
  { case 6
    then consider (sub) "ParseConditionalExpression n scan = Inl err"
      | (loop) l s1 where "ParseConditionalExpression n scan = Inr (Some l, s1)"
          "LogicalLoop n l s1 = Inl err"
      by (auto split: option.splits)
    then show ?case
    proof cases
      case sub with 6 show ?thesis by (intro IH(4)) auto
    next
      case loop
      with parse_consumed(4) [OF loop(1)] 6 show ?thesis
        by (intro IH(7) [OF _ loop(2)]) (simp add: consumed_def)
    qed }
  { case 7
    then have more: "sc_rest scan \<noteq> []" and at: "at_token LOGICALS scan"
      by (auto simp: at_token_rest split: if_splits)
    have cur: "sc_Current scan = Inr (hd (sc_rest scan))"
      using more by (cases "sc_rest scan") (auto simp: sc_Current_rest)
    from 7 at cur consider (sub) "ParseConditionalExpression n (sc_Advance scan) = Inl err"
      | (loop) op r s1 where "ParseConditionalExpression n (sc_Advance scan) = Inr (Some r, s1)"
          "LogicalLoop n (Operation e op r) s1 = Inl err"
      by (auto split: option.splits)
    then show ?case
    proof cases
      case sub
      then have "6 * length (sc_rest (sc_Advance scan)) + 3 \<le> n"
        using 7(1) more by (cases "sc_rest scan") auto
      with sub show ?thesis using IH(4) by blast
    next
      case loop
      then have "6 * length (sc_rest s1) + 1 \<le> n"
        using parse_consumed(4) [OF loop(1)] 7(1) more
        by (cases "sc_rest scan") (auto simp: consumed_def)
      with loop(2) show ?thesis using IH(7) by blast
    qed }
qed simp_all

lemma ParseCondition_only_IndexError: "ParseCondition s = Inl err \<Longrightarrow> err = IndexError"
  using parse_only_IndexError(6) [of "Scanner tokens" "parse_fuel tokens" err for tokens]
  by (auto simp: ParseCondition_def Let_def Scanner_def sc_rest_def parse_fuel_def
      split: option.splits if_splits)

subsection \<open>Printing and parsing back\<close>

text \<open>The printer: every operation in parentheses. It is not part of the program; it says which
  token lists stand for an expression, so that the parser can be checked against it.\<close>

definition expr_ops :: "string list" where
  "expr_ops = [''=='', ''if'', ''&&'', ''||'', '','']"

fun untoks :: "expr \<Rightarrow> string list" where
  "untoks (Constant b) = [if b then ''true'' else ''false'']"
| "untoks (Variable v) = [''$'', v]"
| "untoks (Outcome name) = [name]"
| "untoks (Operation l op r) = [''(''] @ untoks l @ [op] @ untoks r @ ['')'']"

fun wf_expr :: "expr \<Rightarrow> bool" where
  "wf_expr (Constant b) = True"
| "wf_expr (Variable v) = (v \<noteq> [] \<and> IsAlpha v \<and> py_lower v = v)"
| "wf_expr (Outcome name) =
     (name \<noteq> [] \<and> IsAlpha name \<and> py_lower name = name \<and> name \<noteq> ''true'' \<and> name \<noteq> ''false'')"
| "wf_expr (Operation l op r) = (wf_expr l \<and> op \<in> set expr_ops \<and> wf_expr r)"

definition unparse :: "expr \<Rightarrow> string" where
  "unparse e = py_join '' '' (untoks e)"

lemma loops_stop:
  "\<not> at_token BINARIES scan \<Longrightarrow> 0 < n \<Longrightarrow> OperatorLoop n e scan = Inr (Some e, scan)"
  "\<not> at_token [''if''] scan \<Longrightarrow> 0 < n \<Longrightarrow> ConditionalLoop n e scan = Inr (Some e, scan)"
  "\<not> at_token LOGICALS scan \<Longrightarrow> 0 < n \<Longrightarrow> LogicalLoop n e scan = Inr (Some e, scan)"
  by (cases n; simp)+

lemma parse_steps:
  "ParseAtomicExpression n scan = Inr (Some l, s1) \<Longrightarrow>
     ParseOperatorExpression (Suc n) scan = OperatorLoop n l s1"
  "ParseOperatorExpression n scan = Inr (Some l, s1) \<Longrightarrow>
     ParseConditionalExpression (Suc n) scan = ConditionalLoop n l s1"
  "ParseConditionalExpression n scan = Inr (Some l, s1) \<Longrightarrow>
     ParseLogicalExpression (Suc n) scan = LogicalLoop n l s1"
  by simp_all

lemma loop_steps:
  "at_token BINARIES scan \<Longrightarrow> sc_Current scan = Inr op \<Longrightarrow>
     ParseOperatorExpression n (sc_Advance scan) = Inr (Some r, s1) \<Longrightarrow>
     OperatorLoop (Suc n) l scan = OperatorLoop n (Operation l op r) s1"
  "at_token [''if''] scan \<Longrightarrow>
     ParseOperatorExpression n (sc_Advance scan) = Inr (Some r, s1) \<Longrightarrow>
     ConditionalLoop (Suc n) l scan = ConditionalLoop n (Operation l ''if'' r) s1"
  "at_token LOGICALS scan \<Longrightarrow> sc_Current scan = Inr op \<Longrightarrow>
     ParseConditionalExpression n (sc_Advance scan) = Inr (Some r, s1) \<Longrightarrow>
     LogicalLoop (Suc n) l scan = LogicalLoop n (Operation l op r) s1"
  by simp_all

lemma paren_step:
  assumes "sc_Current scan = Inr ''(''"
    and "ParseLogicalExpression n (sc_Advance scan) = Inr (Some e, s1)"
    and "sc_Current s1 = Inr '')''"
  shows "ParseAtomicExpression (Suc n) scan = Inr (Some e, sc_Advance s1)"
  using assms by (simp add: IsAlpha_iff char_defs)

lemmas parse_funs = ParseAtomicExpression.simps ParseOperatorExpression.simps OperatorLoop.simps
  ParseConditionalExpression.simps ConditionalLoop.simps ParseLogicalExpression.simps
  LogicalLoop.simps
declare parse_funs [simp del]

lemma parse_atom_upwards:
  assumes "ParseAtomicExpression n scan = Inr (Some e, s1)" "\<not> at_token BINARIES s1"
  shows "ParseOperatorExpression (Suc n) scan = Inr (Some e, s1)"
    and "\<not> at_token [''if''] s1 \<Longrightarrow> ParseConditionalExpression (Suc (Suc n)) scan = Inr (Some e, s1)"
proof -
  have "0 < n" using assms by (cases n) (auto simp: parse_funs)
  with assms show op: "ParseOperatorExpression (Suc n) scan = Inr (Some e, s1)"
    by (simp add: parse_steps loops_stop)
  show "ParseConditionalExpression (Suc (Suc n)) scan = Inr (Some e, s1)"
    if "\<not> at_token [''if''] s1"
    using that parse_steps(2) [OF op] by (simp add: loops_stop)
qed

lemma parse_binary:
  assumes l: "\<And>k. m \<le> k \<Longrightarrow> ParseAtomicExpression k s1 = Inr (Some l, s2)"
    and r: "\<And>k. m \<le> k \<Longrightarrow> ParseAtomicExpression k (sc_Advance s2) = Inr (Some r, s4)"
    and s2: "sc_rest s2 = op # ts1" and s4: "sc_rest s4 = '')'' # ts"
    and op: "op \<in> set expr_ops"
  shows "ParseLogicalExpression (Suc (Suc (Suc (Suc (Suc (Suc m)))))) s1 =
    Inr (Some (Operation l op r), s4)"
proof -
  have stop: "\<not> at_token BINARIES s4" "\<not> at_token [''if''] s4" "\<not> at_token LOGICALS s4"
    using s4 by (auto simp: at_token_rest BINARIES_def LOGICALS_def)
  have at: "at_token toks s2 \<longleftrightarrow> op \<in> set toks" for toks
    using s2 by (simp add: at_token_rest)
  have cur: "sc_Current s2 = Inr op" using s2 by (simp add: sc_Current_rest)
  note l = l [of "Suc (Suc (Suc m))", simplified]
  consider "op = ''==''" | "op = ''if''" | "op \<in> set LOGICALS"
    using op by (auto simp: expr_ops_def LOGICALS_def)
  then show ?thesis
  proof cases
    case 1
    then have b: "at_token BINARIES s2" by (simp add: at BINARIES_def)
    have "ParseOperatorExpression (Suc (Suc m)) (sc_Advance s2) = Inr (Some r, s4)"
      using parse_atom_upwards(1) [OF r [of "Suc m"]] stop by simp
    from loop_steps(1) [OF b cur this, of l]
    have "ParseOperatorExpression (Suc (Suc (Suc (Suc m)))) s1 = Inr (Some (Operation l op r), s4)"
      using stop parse_steps(1) [OF l] by (simp add: loops_stop)
    from parse_steps(2) [OF this]
    have "ParseConditionalExpression (Suc (Suc (Suc (Suc (Suc m))))) s1 =
        Inr (Some (Operation l op r), s4)"
      using stop by (simp add: loops_stop)
    from parse_steps(3) [OF this] show ?thesis using stop by (simp add: loops_stop)
  next
    case 2
    then have c: "at_token [''if''] s2" "\<not> at_token BINARIES s2" by (simp_all add: at BINARIES_def)
    have "ParseOperatorExpression (Suc (Suc (Suc m))) (sc_Advance s2) = Inr (Some r, s4)"
      using parse_atom_upwards(1) [OF r [of "Suc (Suc m)"]] stop by simp
    from loop_steps(2) [OF c(1) this, of l]
    have "ParseConditionalExpression (Suc (Suc (Suc (Suc (Suc m))))) s1 =
        Inr (Some (Operation l op r), s4)"
      using parse_steps(2) [OF parse_atom_upwards(1) [OF l c(2)]] stop 2 by (simp add: loops_stop)
    from parse_steps(3) [OF this] show ?thesis using stop by (simp add: loops_stop)
  next
    case 3
    then have c: "at_token LOGICALS s2" "\<not> at_token BINARIES s2" "\<not> at_token [''if''] s2"
      using at by (auto simp: BINARIES_def LOGICALS_def)
    have "ParseConditionalExpression (Suc (Suc (Suc (Suc m)))) (sc_Advance s2) = Inr (Some r, s4)"
      using parse_atom_upwards(2) [OF r [of "Suc (Suc m)"]] stop by simp
    from loop_steps(3) [OF c(1) cur this, of l] show ?thesis
      using parse_steps(3) [OF parse_atom_upwards(2) [OF l c(2,3)]] stop by (simp add: loops_stop)
  qed
qed

lemma not_alpha: "\<not> IsAlpha ''$''" "\<not> IsAlpha ''(''"
  by (simp_all add: IsAlpha_iff char_defs)

lemma parse_untoks:
  "wf_expr e \<Longrightarrow> sc_rest scan = untoks e @ ts \<Longrightarrow> 6 * length (untoks e) \<le> n \<Longrightarrow>
     ParseAtomicExpression n scan = Inr (Some e, sc_skip (length (untoks e)) scan)"
proof (induction e arbitrary: n scan ts)
  case (Operation l op r)
  define m where "m = 6 * (length (untoks l) + length (untoks r))"
  define s1 where "s1 = sc_skip 1 scan"
  define s2 where "s2 = sc_skip (1 + length (untoks l)) scan"
  define s4 where "s4 = sc_skip (2 + length (untoks l) + length (untoks r)) scan"
  have rest: "sc_rest s1 = untoks l @ op # untoks r @ '')'' # ts"
    "sc_rest s2 = op # untoks r @ '')'' # ts" "sc_rest s4 = '')'' # ts"
    "sc_rest (sc_Advance s2) = untoks r @ '')'' # ts"
    using Operation.prems(2) by (simp_all add: s1_def s2_def s4_def)
  have l: "ParseAtomicExpression k s1 = Inr (Some l, s2)" if "m \<le> k" for k
    using Operation.IH(1) [OF _ rest(1)] Operation.prems(1) that
    by (simp add: m_def s1_def s2_def)
  have r: "ParseAtomicExpression k (sc_Advance s2) = Inr (Some r, s4)" if "m \<le> k" for k
    using Operation.IH(2) [OF _ rest(4)] Operation.prems(1) that
    by (simp add: m_def s2_def s4_def)
  obtain j where n: "n = Suc (Suc (Suc (Suc (Suc (Suc (Suc (m + j)))))))"
    using Operation.prems(3) le_Suc_ex [of "m + 7" n] by (auto simp: m_def)
  have "ParseLogicalExpression (Suc (Suc (Suc (Suc (Suc (Suc (m + j))))))) (sc_Advance scan) =
      Inr (Some (Operation l op r), s4)"
    using parse_binary [of "m + j" s1 l s2 r s4 op] l r rest(2,3) Operation.prems(1)
    by (simp add: s1_def sc_Advance_skip)
  from paren_step [OF _ this] show ?case
    using Operation.prems(2) rest(3) by (simp add: n sc_Current_rest s4_def)
next
  case (Constant b)
  then show ?case by (cases n) (auto simp: parse_funs sc_Current_rest sc_Advance_skip)
next
  case (Variable v)
  then show ?case
    by (cases n) (auto simp: parse_funs sc_Current_rest sc_Advance_skip not_alpha Let_def)
next
  case (Outcome v)
  then show ?case by (cases n) (auto simp: parse_funs sc_Current_rest sc_Advance_skip)
qed

lemma untoks_nonempty [simp]: "untoks e \<noteq> []"
  by (cases e) auto

lemma valid_symbols: "valid_token ''=='' \<and> valid_token ''&&'' \<and> valid_token ''||'' \<and>
    valid_token '','' \<and> valid_token ''('' \<and> valid_token '')'' \<and> valid_token ''$''"
  by (simp add: valid_token_def)

lemma valid_words: "valid_token ''if''" "valid_token ''true''" "valid_token ''false''"
  by (simp_all add: valid_token_def IsAlpha_iff char_defs)

lemma valid_ops: "op \<in> set expr_ops \<Longrightarrow> valid_token op"
  using valid_symbols valid_words by (auto simp: expr_ops_def)

lemma untoks_valid: "wf_expr e \<Longrightarrow> tok \<in> set (untoks e) \<Longrightarrow> valid_token tok"
proof (induction e)
  case (Operation l op r)
  then show ?case using valid_ops valid_symbols by auto
next
  case (Variable v)
  then show ?case using valid_symbols by (auto simp: valid_token_def)
next
  case (Outcome v)
  then show ?case by (auto simp: valid_token_def)
qed (use valid_words in \<open>auto split: if_splits\<close>)

lemma Tokenize_join:
  assumes "\<forall>tok \<in> set toks. valid_token tok"
  shows "Tokenize (py_join '' '' toks) = Some toks"
  using assms by (simp add: Tokenize_lex lex_tokens_join)

lemma parse_all_untoks:
  assumes "wf_expr e"
  shows "ParseLogicalExpression (parse_fuel (untoks e)) (Scanner (untoks e)) =
    Inr (Some e, sc_skip (length (untoks e)) (Scanner (untoks e)))"
proof -
  let ?s = "Scanner (untoks e)" and ?n = "6 * length (untoks e) + 1"
  have rest: "sc_rest ?s = untoks e @ []" by (simp add: Scanner_def sc_rest_def)
  have fuel: "parse_fuel (untoks e) = Suc (Suc (Suc ?n))" by (simp add: parse_fuel_def)
  have stop: "\<not> at_token toks (sc_skip (length (untoks e)) ?s)" for toks
    using rest by (simp add: at_token_rest)
  have "ParseAtomicExpression ?n ?s = Inr (Some e, sc_skip (length (untoks e)) ?s)"
    by (rule parse_untoks [OF assms rest]) simp
  from parse_atom_upwards(2) [OF this stop stop] show ?thesis
    unfolding fuel using parse_steps(3) stop by (simp add: loops_stop)
qed

text \<open>Running out of tokens in the middle of an expression.\<close>

lemma parse_missing:
  assumes "sc_rest scan = []"
  shows "ParseOperatorExpression (Suc (Suc n)) scan = Inl IndexError"
    "ParseConditionalExpression (Suc (Suc (Suc n))) scan = Inl IndexError"
  using assms by (simp_all add: parse_funs sc_Current_rest)

lemma parse_dangling:
  assumes "wf_expr e" and "op \<in> set expr_ops"
  shows "ParseLogicalExpression (parse_fuel (untoks e @ [op])) (Scanner (untoks e @ [op])) =
    Inl IndexError"
proof -
  let ?s = "Scanner (untoks e @ [op])"
  define n where "n = 6 * length (untoks e) + 4"
  let ?n = "Suc (Suc (Suc n))"
  define s1 where "s1 = sc_skip (length (untoks e)) ?s"
  have rest: "sc_rest ?s = untoks e @ [op]" by (simp add: Scanner_def sc_rest_def)
  then have s1: "sc_rest s1 = [op]" "sc_rest (sc_Advance s1) = []" "sc_Current s1 = Inr op"
    by (simp_all add: s1_def sc_Current_rest)
  have at: "at_token toks s1 \<longleftrightarrow> op \<in> set toks" for toks using s1 by (simp add: at_token_rest)
  have fuel: "parse_fuel (untoks e @ [op]) = Suc (Suc (Suc ?n))" by (simp add: parse_fuel_def n_def)
  have atom: "ParseAtomicExpression ?n ?s = Inr (Some e, s1)"
    unfolding s1_def by (rule parse_untoks [OF assms(1) rest]) (simp add: n_def)
  consider "op = ''==''" | "op = ''if''" | "op \<in> set LOGICALS"
    using assms(2) by (auto simp: expr_ops_def LOGICALS_def)
  then show ?thesis
  proof cases
    case 1
    then have "OperatorLoop ?n e s1 = Inl IndexError"
      using at s1 parse_missing(1) [OF s1(2)] by (simp add: parse_funs(6) BINARIES_def)
    then show ?thesis
      unfolding fuel using parse_steps(1) [OF atom] by (simp add: parse_funs(8,12))
  next
    case 2
    then have "ParseOperatorExpression (Suc ?n) ?s = Inr (Some e, s1)"
      using parse_atom_upwards(1) [OF atom] at by (simp add: BINARIES_def)
    moreover have "ConditionalLoop (Suc ?n) e s1 = Inl IndexError"
      using 2 at parse_missing(1) [OF s1(2)] by (simp add: parse_funs(10))
    ultimately show ?thesis
      unfolding fuel using parse_steps(2) by (simp add: parse_funs(12))
  next
    case 3
    then have "ParseConditionalExpression (Suc (Suc ?n)) ?s = Inr (Some e, s1)"
      using parse_atom_upwards(2) [OF atom] at by (auto simp: BINARIES_def LOGICALS_def)
    moreover have "LogicalLoop (Suc (Suc ?n)) e s1 = Inl IndexError"
      using 3 at s1 parse_missing(2) [OF s1(2)] by (simp add: parse_funs(14))
    ultimately show ?thesis
      unfolding fuel using parse_steps(3) by simp
  qed
qed

lemma parse_unparse:
  assumes "wf_expr e"
  shows "ParseCondition (unparse e) = Inr (Some e)"
proof -
  have "Tokenize (unparse e) = Some (untoks e)"
    unfolding unparse_def using untoks_valid [OF assms] by (blast intro: Tokenize_join)
  then show ?thesis
    using parse_all_untoks [OF assms]
    by (simp add: ParseCondition_def Scanner_def sc_rest_def sc_skip_def)
qed

text \<open>Parsing the printed form of an expression gives the expression back, through the
  tokenizer and the whole recursive descent.\<close>

theorem ParseCondition_unparse:
  "wf_expr e \<Longrightarrow> ParseCondition (unparse e) = Inr (Some e)"
  by (rule parse_unparse)

theorem ParseCondition_unparse_witness:
  "unparse (Operation (Outcome ''pass'') '','' (Operation (Outcome ''fail'') ''if''
     (Operation (Variable ''mode'') ''=='' (Outcome ''debug'')))) =
     ''( pass , ( fail if ( $ mode == debug ) ) )'' \<and>
   ParseCondition ''( pass , ( fail if ( $ mode == debug ) ) )'' =
     Inr (Some (Operation (Outcome ''pass'') '','' (Operation (Outcome ''fail'') ''if''
       (Operation (Variable ''mode'') ''=='' (Outcome ''debug'')))))"
proof -
  let ?e = "Operation (Outcome ''pass'') '','' (Operation (Outcome ''fail'') ''if''
     (Operation (Variable ''mode'') ''=='' (Outcome ''debug'')))"
  have "wf_expr ?e"
    by (simp add: expr_ops_def IsAlpha_iff char_defs py_lower_def py_lower_char_def)
  then have "ParseCondition (unparse ?e) = Inr (Some ?e)" by (rule ParseCondition_unparse)
  moreover have "unparse ?e = ''( pass , ( fail if ( $ mode == debug ) ) )''"
    by (simp add: unparse_def)
  ultimately show ?thesis by simp
qed

text \<open>\<open>ParseCondition\<close> returns on every string, with an expression or with \<open>None\<close>, or it
  raises \<open>IndexError\<close>; it raises nothing else and its recursion is bounded by the number of
  tokens.\<close>

theorem ParseCondition_total:
  "(\<exists>r. ParseCondition s = Inr r) \<or> ParseCondition s = Inl IndexError"
  using ParseCondition_only_IndexError by (cases "ParseCondition s") auto

text \<open>An expression that stops after an operator is not reported as malformed: the parser
  reads past the last token and \<open>IndexError\<close> leaves \<open>ParseCondition\<close>.\<close>

theorem ParseCondition_dangling_operator:
  assumes "wf_expr e" and "op \<in> set expr_ops"
  shows "ParseCondition (py_join '' '' (untoks e @ [op])) = Inl IndexError"
proof -
  have "Tokenize (py_join '' '' (untoks e @ [op])) = Some (untoks e @ [op])"
    using untoks_valid [OF assms(1)] valid_ops [OF assms(2)] by (intro Tokenize_join) auto
  then show ?thesis
    using parse_dangling [OF assms] by (simp add: ParseCondition_def Let_def)
qed

theorem ParseCondition_dangling_operator_witness:
  "ParseCondition ''pass &&'' = Inl IndexError"
proof -
  have "wf_expr (Outcome ''pass'')"
    by (simp add: IsAlpha_iff char_defs py_lower_def py_lower_char_def)
  moreover have "''&&'' \<in> set expr_ops" by (simp add: expr_ops_def)
  ultimately show ?thesis
    using ParseCondition_dangling_operator [of "Outcome ''pass''" "''&&''"] by simp
qed

end
