(* ===== verification/PyRegex.thy ===== *)
theory PyRegex
  imports PyPrelude
begin

section \<open>The regular expressions of Python's re module\<close>

text \<open>
  The tools match with the backtracking engine of the \<open>re\<close> module. \<open>rmatch\<close> lists all ways a
  pattern matches from a position, in the order in which the engine tries them: the first
  element is the match that \<open>re\<close> reports. A loop stops at an iteration that consumes nothing,
  as the engine does. Patterns are written as terms; the theories that use one give the
  pattern text of the source beside it.
\<close>

datatype rx =
    Eps
  | Cls "char \<Rightarrow> bool"          \<comment> \<open>one character of a class\<close>
  | Seq rx rx
  | Alt rx rx
  | Star rx                     \<comment> \<open>greedy \<open>*\<close>\<close>
  | LazyStar rx                 \<comment> \<open>\<open>*?\<close>\<close>
  | Grp nat rx                  \<comment> \<open>capturing group\<close>
  | Bos                         \<comment> \<open>\<open>^\<close> without \<open>re.MULTILINE\<close>\<close>
  | Eos                         \<comment> \<open>\<open>$\<close> without \<open>re.MULTILINE\<close>\<close>
  | Bol                         \<comment> \<open>\<open>^\<close> with \<open>re.MULTILINE\<close>\<close>
  | Eol                         \<comment> \<open>\<open>$\<close> with \<open>re.MULTILINE\<close>\<close>

type_synonym caps = "nat \<Rightarrow> (nat \<times> nat) option"

primrec star_iter ::
  "bool \<Rightarrow> (nat \<Rightarrow> caps \<Rightarrow> (nat \<times> caps) list) \<Rightarrow> nat \<Rightarrow> nat \<Rightarrow> caps \<Rightarrow> (nat \<times> caps) list" where
  "star_iter greedy f 0 i c = [(i, c)]"
| "star_iter greedy f (Suc n) i c =
     (let again = concat (map (\<lambda>(j, d). if i < j then star_iter greedy f n j d else []) (f i c))
      in if greedy then again @ [(i, c)] else (i, c) # again)"

primrec rmatch :: "rx \<Rightarrow> string \<Rightarrow> nat \<Rightarrow> caps \<Rightarrow> (nat \<times> caps) list" where
  "rmatch Eps s i c = [(i, c)]"
| "rmatch (Cls p) s i c = (if i < length s \<and> p (s ! i) then [(Suc i, c)] else [])"
| "rmatch (Seq r1 r2) s i c = concat (map (\<lambda>(j, d). rmatch r2 s j d) (rmatch r1 s i c))"
| "rmatch (Alt r1 r2) s i c = rmatch r1 s i c @ rmatch r2 s i c"
| "rmatch (Star r) s i c = star_iter True (rmatch r s) (length s - i) i c"
| "rmatch (LazyStar r) s i c = star_iter False (rmatch r s) (length s - i) i c"
| "rmatch (Grp k r) s i c = map (\<lambda>(j, d). (j, d(k \<mapsto> (i, j)))) (rmatch r s i c)"
| "rmatch Bos s i c = (if i = 0 then [(i, c)] else [])"
| "rmatch Eos s i c =
     (if i = length s \<or> (Suc i = length s \<and> s ! i = CHR 0x0A) then [(i, c)] else [])"
| "rmatch Bol s i c = (if i = 0 \<or> (i \<le> length s \<and> s ! (i - 1) = CHR 0x0A) then [(i, c)] else [])"
| "rmatch Eol s i c = (if i = length s \<or> (i < length s \<and> s ! i = CHR 0x0A) then [(i, c)] else [])"

text \<open>\<open>pattern.match(s)\<close> and \<open>m.group(k)\<close>.\<close>

definition re_match :: "rx \<Rightarrow> string \<Rightarrow> (nat \<times> caps) option" where
  "re_match r s = (case rmatch r s 0 Map.empty of [] \<Rightarrow> None | m # _ \<Rightarrow> Some m)"

lemma re_match_None: "re_match r s = None \<longleftrightarrow> rmatch r s 0 Map.empty = []"
  by (simp add: re_match_def split: list.splits)

definition re_group :: "string \<Rightarrow> nat \<times> caps \<Rightarrow> nat \<Rightarrow> string" where
  "re_group s m k = (case snd m k of None \<Rightarrow> [] | Some (a, b) \<Rightarrow> py_slice s a b)"

text \<open>\<open>pattern.search(s)\<close>, \<open>pattern.finditer(s)\<close> and \<open>pattern.sub(f, s)\<close>, from a position. A match is its start, its end
  and its groups; behind an empty match the search goes on one character later.\<close>

function finditer_from :: "rx \<Rightarrow> string \<Rightarrow> nat \<Rightarrow> (nat \<times> nat \<times> caps) list" where
  "finditer_from r s i =
     (if length s < i then []
      else
        case rmatch r s i Map.empty of
          [] \<Rightarrow> finditer_from r s (Suc i)
        | (j, c) # _ \<Rightarrow> (i, j, c) # finditer_from r s (if j \<le> i then Suc i else j))"
  by pat_completeness auto
termination by (relation "measure (\<lambda>(r, s, i). Suc (length s) - i)") auto

declare finditer_from.simps [simp del]

definition finditer :: "rx \<Rightarrow> string \<Rightarrow> (nat \<times> nat \<times> caps) list" where
  "finditer r s = finditer_from r s 0"

definition re_search :: "rx \<Rightarrow> string \<Rightarrow> (nat \<times> nat \<times> caps) option" where
  "re_search r s = (case finditer r s of [] \<Rightarrow> None | m # _ \<Rightarrow> Some m)"

text \<open>\<open>m.group(k)\<close>, \<open>None\<close> when the group took no part in the match.\<close>

definition mgroup :: "string \<Rightarrow> nat \<times> nat \<times> caps \<Rightarrow> nat \<Rightarrow> string option" where
  "mgroup s m k = map_option (\<lambda>(a, b). py_slice s a b) (snd (snd m) k)"

fun sub_matches :: "(nat \<times> nat \<times> caps \<Rightarrow> string) \<Rightarrow> string \<Rightarrow> nat \<Rightarrow> (nat \<times> nat \<times> caps) list \<Rightarrow> string" where
  "sub_matches f s i [] = drop i s"
| "sub_matches f s i ((a, b, c) # ms) = py_slice s i a @ f (a, b, c) @ sub_matches f s b ms"

definition re_sub :: "rx \<Rightarrow> (nat \<times> nat \<times> caps \<Rightarrow> string) \<Rightarrow> string \<Rightarrow> string" where
  "re_sub r f s = sub_matches f s 0 (finditer r s)"

definition Plus :: "rx \<Rightarrow> rx" where "Plus r = Seq r (Star r)"
definition Opt :: "rx \<Rightarrow> rx" where "Opt r = Alt r Eps"
definition Lit :: "char \<Rightarrow> rx" where "Lit c = Cls (\<lambda>d. d = c)"
definition Any :: rx where "Any = Cls (\<lambda>d. d \<noteq> CHR 0x0A)"
definition Space :: rx where "Space = Cls py_isspace"
definition Word :: rx where "Word = Cls is_word_char"
definition NotIn :: "char list \<Rightarrow> rx" where "NotIn cs = Cls (\<lambda>d. d \<notin> set cs)"

primrec Str :: "string \<Rightarrow> rx" where
  "Str [] = Eps"
| "Str (c # cs) = Seq (Lit c) (Str cs)"

named_theorems rx_defs \<open>pattern abbreviations\<close>
lemmas [rx_defs] = Plus_def Opt_def Lit_def Any_def Space_def Word_def NotIn_def

subsection \<open>Matches lie inside the string\<close>

lemma star_iter_bounds:
  assumes "\<And>i c j d. (j, d) \<in> set (f i c) \<Longrightarrow> i \<le> n \<Longrightarrow> i \<le> j \<and> j \<le> n"
  shows "(j, d) \<in> set (star_iter g f k i c) \<Longrightarrow> i \<le> n \<Longrightarrow> i \<le> j \<and> j \<le> n"
proof (induction k arbitrary: i c)
  case (Suc k)
  then have "(j = i \<and> d = c) \<or> (\<exists>i' c'. (i', c') \<in> set (f i c) \<and> i < i' \<and>
      (j, d) \<in> set (star_iter g f k i' c'))"
    by (auto simp: Let_def split: if_splits)
  with Suc assms show ?case by (meson le_trans order_refl)
qed simp

lemma rmatch_bounds: "(j, d) \<in> set (rmatch r s i c) \<Longrightarrow> i \<le> length s \<Longrightarrow> i \<le> j \<and> j \<le> length s"
proof (induction r arbitrary: i c j d)
  case (Seq r1 r2)
  then show ?case by (fastforce intro: le_trans)
next
  case (Star r)
  show ?case using star_iter_bounds [of "rmatch r s" "length s"] Star by (metis rmatch.simps(5))
next
  case (LazyStar r)
  show ?case using star_iter_bounds [of "rmatch r s" "length s"] LazyStar by (metis rmatch.simps(6))
next
  case (Grp k r)
  then show ?case by auto
qed (auto split: if_splits)

subsection \<open>Runs of one class\<close>

definition span :: "(char \<Rightarrow> bool) \<Rightarrow> string \<Rightarrow> nat \<Rightarrow> nat" where
  "span p s i = length (takeWhile p (drop i s))"

lemma span_Suc:
  "i < length s \<Longrightarrow> span p s i = (if p (s ! i) then Suc (span p s (Suc i)) else 0)"
  by (simp add: span_def Cons_nth_drop_Suc [symmetric])

lemma span_end [simp]: "length s \<le> i \<Longrightarrow> span p s i = 0"
  by (simp add: span_def)

lemma star_iter_Cls:
  "length s - i \<le> n \<Longrightarrow>
     star_iter True (rmatch (Cls p) s) n i c = map (\<lambda>j. (j, c)) (rev [i..<Suc (i + span p s i)])"
proof (induction n arbitrary: i)
  case (Suc n)
  show ?case
  proof (cases "i < length s \<and> p (s ! i)")
    case True
    have "[i..<Suc (i + Suc (span p s (Suc i)))] = i # [Suc i..<Suc (Suc i + span p s (Suc i))]"
      by (subst upt_conv_Cons) auto
    with True Suc show ?thesis by (simp add: span_Suc Let_def del: upt_Suc)
  next
    case False
    then have "span p s i = 0" by (cases "i < length s") (auto simp: span_Suc)
    with False show ?thesis by (auto simp: Let_def)
  qed
qed simp

lemma rmatch_Star_Cls:
  "rmatch (Star (Cls p)) s i c = map (\<lambda>j. (j, c)) (rev [i..<Suc (i + span p s i)])"
  by (simp add: star_iter_Cls del: upt_Suc)

text \<open>What the engine reports for a greedy run followed by a pattern that cannot start inside
  the run: the run takes all it can.\<close>

lemma concat_first:
  assumes "\<And>x. x \<in> set xs \<Longrightarrow> f x = []"
  shows "concat (map f xs) = []"
  using assms by simp

lemma rmatch_run_then:
  assumes "\<And>j. i \<le> j \<Longrightarrow> j < i + span p s i \<Longrightarrow> rmatch r s j c = []"
  shows "rmatch (Seq (Star (Cls p)) r) s i c = rmatch r s (i + span p s i) c"
proof -
  let ?n = "i + span p s i"
  have "rmatch (Seq (Star (Cls p)) r) s i c =
      concat (map (\<lambda>j. rmatch r s j c) (rev [i..<Suc ?n]))"
    by (simp add: rmatch_Star_Cls comp_def del: rmatch.simps(5) upt_Suc)
  also have "rev [i..<Suc ?n] = ?n # rev [i..<?n]" by simp
  also have "concat (map (\<lambda>j. rmatch r s j c) (?n # rev [i..<?n])) = rmatch r s ?n c"
    using assms by (simp add: concat_eq_Nil_conv [THEN iffD2])
  finally show ?thesis .
qed

lemma span_inside: "i \<le> j \<Longrightarrow> j < i + span p s i \<Longrightarrow> j < length s \<and> p (s ! j)"
proof -
  assume "i \<le> j" "j < i + span p s i"
  then obtain k where k: "j = i + k" "k < span p s i" by (metis le_Suc_ex nat_add_left_cancel_less)
  then have "takeWhile p (drop i s) ! k = drop i s ! k" "k < length (takeWhile p (drop i s))"
    by (simp_all add: span_def takeWhile_nth)
  moreover have "p (takeWhile p (drop i s) ! k)"
    using calculation(2) nth_mem set_takeWhileD by metis
  moreover have "i + k < length s"
    using calculation(2) length_takeWhile_le [of p "drop i s"] by simp
  ultimately show ?thesis using k by simp
qed

subsection \<open>The reported match\<close>

text \<open>Rules for the first element of \<open>rmatch\<close>, for the shapes the patterns of the tools have: a
  run of a class takes all it can when the rest of the pattern matches behind it.\<close>

definition first :: "rx \<Rightarrow> string \<Rightarrow> nat \<Rightarrow> caps \<Rightarrow> (nat \<times> caps) option" where
  "first r s i c = (case rmatch r s i c of [] \<Rightarrow> None | m # _ \<Rightarrow> Some m)"

lemma re_match_first: "re_match r s = first r s 0 Map.empty"
  by (simp add: re_match_def first_def)

lemma first_append:
  "(case xs @ ys of [] \<Rightarrow> None | m # _ \<Rightarrow> Some m) =
     (case xs of [] \<Rightarrow> (case ys of [] \<Rightarrow> None | m # _ \<Rightarrow> Some m) | m # _ \<Rightarrow> Some m)"
  by (cases xs) simp_all

lemma run_head: "rev [i..<Suc (i + n)] = (i + n) # rev [i..<i + n]"
  by simp

lemma first_Seq_Star:
  assumes "first r s (i + span p s i) c = Some m"
  shows "first (Seq (Star (Cls p)) r) s i c = Some m"
  using assms unfolding first_def rmatch.simps(3) rmatch_Star_Cls run_head
  by (simp add: first_append split: list.splits)

lemma first_Seq_Grp_Star:
  assumes "first r s (i + span p s i) (c(k \<mapsto> (i, i + span p s i))) = Some m"
  shows "first (Seq (Grp k (Star (Cls p))) r) s i c = Some m"
  using assms unfolding first_def rmatch.simps(3) rmatch.simps(7) rmatch_Star_Cls run_head
  by (simp add: first_append split: list.splits)

lemma first_Grp_Star:
  "first (Grp k (Star (Cls p))) s i c =
     Some (i + span p s i, c(k \<mapsto> (i, i + span p s i)))"
  unfolding first_def rmatch.simps(7) rmatch_Star_Cls run_head by simp

lemma rmatch_Plus_Cls:
  assumes "i < length s" "p (s ! i)"
  shows "rmatch (Plus (Cls p)) s i c = map (\<lambda>j. (j, c)) (rev [Suc i..<Suc (i + span p s i)])"
  using assms rmatch_Star_Cls [of p s "Suc i" c]
  by (simp add: Plus_def span_Suc del: rmatch.simps(5) upt_Suc)

lemma first_Seq_Plus:
  assumes "i < length s" "p (s ! i)" "first r s (i + span p s i) c = Some m"
  shows "first (Seq (Plus (Cls p)) r) s i c = Some m"
proof -
  obtain n where n: "i + span p s i = Suc i + n" using assms by (simp add: span_Suc)
  show ?thesis
    using assms(3) unfolding first_def rmatch.simps(3) rmatch_Plus_Cls [of i s p, OF assms(1,2)] n run_head
    by (simp add: first_append split: list.splits)
qed

lemma first_Seq_Grp_Plus:
  assumes "i < length s" "p (s ! i)"
    and "first r s (i + span p s i) (c(k \<mapsto> (i, i + span p s i))) = Some m"
  shows "first (Seq (Grp k (Plus (Cls p))) r) s i c = Some m"
proof -
  obtain n where n: "i + span p s i = Suc i + n" using assms by (simp add: span_Suc)
  show ?thesis
    using assms(3) unfolding first_def rmatch.simps(3,7) rmatch_Plus_Cls [of i s p, OF assms(1,2)] n run_head
    by (simp add: first_append split: list.splits)
qed

lemma first_Seq_Cls:
  "first (Seq (Cls p) r) s i c = (if i < length s \<and> p (s ! i) then first r s (Suc i) c else None)"
  by (simp add: first_def)

lemma concat_map_assoc:
  "concat (map g (concat (map f xs))) = concat (map (\<lambda>x. concat (map g (f x))) xs)"
  by (induction xs) auto

lemma first_simps:
  "first (Seq Bos r) s i c = (if i = 0 then first r s i c else None)"
  "first Eos s i c =
     (if i = length s \<or> (Suc i = length s \<and> s ! i = CHR 0x0A) then Some (i, c) else None)"
  "first (Cls p) s i c = (if i < length s \<and> p (s ! i) then Some (Suc i, c) else None)"
  "first (Seq (Seq r1 r2) r3) s i c = first (Seq r1 (Seq r2 r3)) s i c"
  "first (Seq Eps r) s i c = first r s i c"
  by (simp_all add: first_def concat_map_assoc case_prod_unfold)

lemma rmatch_Seq_Nil: "(\<And>j d. rmatch r2 s j d = []) \<Longrightarrow> rmatch (Seq r1 r2) s i c = []"
  by (auto simp: case_prod_beta)

lemma rmatch_Seq_Nil_left: "rmatch r1 s i c = [] \<Longrightarrow> rmatch (Seq r1 r2) s i c = []"
  by simp

lemma rmatch_Lit_Nil: "ch \<notin> set s \<Longrightarrow> rmatch (Seq (Lit ch) r) s i c = []"
  by (auto simp: Lit_def)

lemma first_None: "first r s i c = None \<longleftrightarrow> rmatch r s i c = []"
  by (simp add: first_def split: list.splits)

text \<open>The span of a run, from the text around it.\<close>

lemma span_eq:
  assumes "drop i s = xs @ ys" "\<forall>c \<in> set xs. p c" "ys = [] \<or> \<not> p (hd ys)"
  shows "span p s i = length xs"
proof -
  have "takeWhile p (xs @ ys) = xs"
    using assms(2,3) by (cases ys) (auto simp: takeWhile_append)
  then show ?thesis using assms(1) by (simp add: span_def)
qed

lemma run_Seq_Star:
  assumes "drop i s = xs @ ys" "\<forall>c \<in> set xs. p c" "ys = [] \<or> \<not> p (hd ys)"
    and "first r s (i + length xs) c = Some m"
  shows "first (Seq (Star (Cls p)) r) s i c = Some m"
  using assms(4) span_eq [OF assms(1-3)] by (intro first_Seq_Star) simp

lemma run_Seq_Grp_Star:
  assumes "drop i s = xs @ ys" "\<forall>c \<in> set xs. p c" "ys = [] \<or> \<not> p (hd ys)"
    and "first r s (i + length xs) (c(k \<mapsto> (i, i + length xs))) = Some m"
  shows "first (Seq (Grp k (Star (Cls p))) r) s i c = Some m"
  using assms(4) span_eq [OF assms(1-3)] by (intro first_Seq_Grp_Star) simp

lemma drop_start:
  assumes "drop i s = xs @ ys" "xs \<noteq> []" "\<forall>c \<in> set xs. p c"
  shows "i < length s \<and> p (s ! i)"
proof -
  have "i < length s" using assms(1,2) by (cases "i < length s") auto
  moreover have "s ! i = hd xs"
    using assms(1,2) calculation by (metis hd_append2 hd_drop_conv_nth)
  ultimately show ?thesis using assms(2,3) by simp
qed

lemma run_Seq_Plus:
  assumes "drop i s = xs @ ys" "xs \<noteq> []" "\<forall>c \<in> set xs. p c" "ys = [] \<or> \<not> p (hd ys)"
    and "first r s (i + length xs) c = Some m"
  shows "first (Seq (Plus (Cls p)) r) s i c = Some m"
  using assms(5) span_eq [OF assms(1,3,4)] drop_start [OF assms(1-3)]
  by (intro first_Seq_Plus) simp_all

lemma run_Seq_Grp_Plus:
  assumes "drop i s = xs @ ys" "xs \<noteq> []" "\<forall>c \<in> set xs. p c" "ys = [] \<or> \<not> p (hd ys)"
    and "first r s (i + length xs) (c(k \<mapsto> (i, i + length xs))) = Some m"
  shows "first (Seq (Grp k (Plus (Cls p))) r) s i c = Some m"
  using assms(5) span_eq [OF assms(1,3,4)] drop_start [OF assms(1-3)]
  by (intro first_Seq_Grp_Plus) simp_all

lemma lit_Seq:
  assumes "drop i s = ch # ys" "first r s (Suc i) c = Some m"
  shows "first (Seq (Lit ch) r) s i c = Some m"
  using assms drop_start [of i s "[ch]" ys "\<lambda>d. d = ch"] by (simp add: Lit_def first_Seq_Cls)

lemma drop_step: "drop i s = xs @ ys \<Longrightarrow> drop (i + length xs) s = ys"
  by (metis add.commute append_eq_conv_conj drop_drop)

subsection \<open>Searching\<close>

lemma finditer_from_first:
  "finditer_from r s i =
     (if length s < i then []
      else case first r s i Map.empty of
          None \<Rightarrow> finditer_from r s (Suc i)
        | Some (j, c) \<Rightarrow> (i, j, c) # finditer_from r s (if j \<le> i then Suc i else j))"
  by (subst finditer_from.simps) (auto simp: first_def split: list.splits)

lemma first_Alt: "first (Alt r1 r2) s i c = (case first r1 s i c of None \<Rightarrow> first r2 s i c | Some m \<Rightarrow> Some m)"
  by (simp add: first_def split: list.splits)

lemma drop_Cons_parts: "drop i s = x # l \<Longrightarrow> i < length s \<and> s ! i = x \<and> drop (Suc i) s = l"
proof -
  assume d: "drop i s = x # l"
  then have "i < length s" by (metis drop_eq_Nil list.distinct(1) not_le)
  then show ?thesis using d by (simp add: Cons_nth_drop_Suc [symmetric])
qed

lemma rmatch_two: "rmatch (Str [a, b]) s i c = (if take 2 (drop i s) = [a, b] then [(i + 2, c)] else [])"
proof (cases "drop i s")
  case Nil
  then show ?thesis by (simp add: Lit_def)
next
  case d: (Cons x l)
  note i = drop_Cons_parts [OF d]
  show ?thesis
  proof (cases l)
    case Nil
    then show ?thesis using d i by (auto simp: Lit_def)
  next
    case (Cons y l')
    then have "Suc i < length s" "s ! Suc i = y" using drop_Cons_parts [of "Suc i" s y l'] i by simp_all
    then show ?thesis using i Cons d by (auto simp: Lit_def)
  qed
qed

lemma takeWhile_shorter: "x \<in> set s \<Longrightarrow> \<not> P x \<Longrightarrow> length (takeWhile P s) < length s"
  by (induction s) auto

lemma slice_app: "i \<le> j \<Longrightarrow> j < length s \<Longrightarrow> py_slice s i (Suc j) = py_slice s i j @ [s ! j]"
  by (simp add: py_slice_def take_Suc_conv_app_nth drop_append)

end
