(* ===== verification/TestConfig.thy ===== *)
theory TestConfig
  imports TestParser PyRegex
begin

section \<open>Status files: patterns, rules, sections and the classification of tests\<close>

text \<open>
  \<open>src/tools/test.py\<close>, lines 1001 to 1112 and 1229 to 1247, and \<open>ReadLinesFrom\<close> of
  \<open>src/deps/v8/tools/utils.py\<close>. A \<open>Pattern\<close> compiles its text to a regular expression when it is
  first used; the cache is not observable and is left out. The text of a pattern is
  modelled where \<open>.\<close> and \<open>*\<close> are its only metacharacters; for another metacharacter
  \<open>Pattern_match\<close> is \<open>Unmodelled\<close>. Rules are objects with an identity, which the set
  \<open>unused_rules\<close> uses; here the identity of a rule is its place in \<open>all_rules\<close>.
\<close>

subsection \<open>Patterns\<close>

datatype pattern = Pattern string

definition rx_meta :: string where
  "rx_meta = ''.^$*+?{}[]|()'' @ [CHR 0x5C]"

fun glob_rx :: "string \<Rightarrow> rx res" where
  "glob_rx [] = Inr Eps"
| "glob_rx (c # cs) =
     (if c = CHR ''.'' then
        (case cs of
           d # ds \<Rightarrow>
             if d = CHR ''*'' then rbind (glob_rx ds) (\<lambda>r. Inr (Seq (Star Any) r))
             else rbind (glob_rx cs) (\<lambda>r. Inr (Seq Any r))
         | [] \<Rightarrow> Inr (Seq Any Eps))
      else if c \<in> set rx_meta then Inl Unmodelled
      else rbind (glob_rx cs) (\<lambda>r. Inr (Seq (Lit c) r)))"

definition Pattern_match :: "pattern \<Rightarrow> string \<Rightarrow> bool res" where
  "Pattern_match p str =
     (case p of Pattern pat \<Rightarrow>
        rbind (glob_rx (py_replace ''*'' ''.*'' pat)) (\<lambda>body.
          Inr (re_match (Seq Bos (Seq body Eos)) str \<noteq> None)))"

definition SplitPath :: "string \<Rightarrow> pattern list" where
  "SplitPath s =
     (let stripped = map py_strip (py_split (CHR ''/'') s)
      in map Pattern (filter (\<lambda>s. length s > 0) stripped))"

text \<open>The loop shared by \<open>Rule.Contains\<close> and \<open>TestConfiguration.Contains\<close>.\<close>

fun match_all :: "pattern list \<Rightarrow> string list \<Rightarrow> bool res" where
  "match_all [] file = Inr True"
| "match_all (p # ps) [] = Inl IndexError"
| "match_all (p # ps) (f # fs) =
     rbind (Pattern_match p f) (\<lambda>b. if b then match_all ps fs else Inr False)"

definition Path_Contains :: "pattern list \<Rightarrow> string list \<Rightarrow> bool res" where
  "Path_Contains path file =
     (if length path > length file then Inr False else match_all path file)"

subsection \<open>Rules, sections and classification\<close>

record rule =
  raw_path :: string
  rl_path :: "pattern list"
  rl_value :: expr

definition rule_GetOutcomes :: "nat \<Rightarrow> env \<Rightarrow> defs \<Rightarrow> rule \<Rightarrow> string list res" where
  "rule_GetOutcomes n env defs r =
     rbind (GetOutcomes n env defs (rl_value r)) (\<lambda>s.
       case s of ListSet elms \<Rightarrow> Inr elms | _ \<Rightarrow> Inl AssertionError)"

definition rule_Contains :: "rule \<Rightarrow> string list \<Rightarrow> bool res" where
  "rule_Contains r path = Path_Contains (rl_path r) path"

record section_rec =
  sec_condition :: "expr option"
  sec_rules :: "rule list"

definition AddRule :: "section_rec \<Rightarrow> rule \<Rightarrow> section_rec" where
  "AddRule s r = s\<lparr>sec_rules := sec_rules s @ [r]\<rparr>"

record classified =
  cl_case :: "string list"
  cl_outcomes :: "string set"

text \<open>\<open>s.condition.Evaluate(env, defs)\<close>: a section whose condition did not parse has \<open>None\<close>.\<close>

definition eval_condition :: "nat \<Rightarrow> env \<Rightarrow> defs \<Rightarrow> section_rec \<Rightarrow> bool res" where
  "eval_condition n env defs s =
     (case sec_condition s of None \<Rightarrow> Inl AttributeError | Some e \<Rightarrow> Evaluate n env defs e)"

fun enabled_sections :: "nat \<Rightarrow> env \<Rightarrow> defs \<Rightarrow> section_rec list \<Rightarrow> section_rec list res" where
  "enabled_sections n env defs [] = Inr []"
| "enabled_sections n env defs (s # ss) =
     rbind (eval_condition n env defs s) (\<lambda>b.
     rbind (enabled_sections n env defs ss) (\<lambda>rest. Inr (if b then s # rest else rest)))"

fun matching_rules :: "(nat \<times> rule) list \<Rightarrow> string list \<Rightarrow> (nat \<times> rule) list res" where
  "matching_rules [] path = Inr []"
| "matching_rules (r # rs) path =
     rbind (rule_Contains (snd r) path) (\<lambda>b.
     rbind (matching_rules rs path) (\<lambda>rest. Inr (if b then r # rest else rest)))"

fun collect_outcomes ::
  "nat \<Rightarrow> env \<Rightarrow> defs \<Rightarrow> (nat \<times> rule) list \<Rightarrow> string set \<Rightarrow> nat set \<Rightarrow> (string set \<times> nat set) res" where
  "collect_outcomes n env defs [] outcomes unused = Inr (outcomes, unused)"
| "collect_outcomes n env defs (r # rs) outcomes unused =
     rbind (rule_GetOutcomes n env defs (snd r)) (\<lambda>elms.
       collect_outcomes n env defs rs (outcomes \<union> set elms) (unused - {fst r}))"

fun classify_cases ::
  "nat \<Rightarrow> env \<Rightarrow> defs \<Rightarrow> (nat \<times> rule) list \<Rightarrow> string list list \<Rightarrow> classified list \<Rightarrow> nat set \<Rightarrow>
     string set \<Rightarrow> (classified list \<times> nat set \<times> string set) res" where
  "classify_cases n env defs rules [] result unused all_outcomes =
     Inr (result, unused, all_outcomes)"
| "classify_cases n env defs rules (path # cases) result unused all_outcomes =
     rbind (matching_rules rules path) (\<lambda>matches.
     rbind (collect_outcomes n env defs matches {} unused) (\<lambda>(collected, unused).
       let outcomes = (if collected = {} then {PASS} else collected) in
       classify_cases n env defs rules cases
         (result @ [\<lparr>cl_case = path, cl_outcomes = outcomes\<rparr>]) unused
         (all_outcomes \<union> outcomes)))"

definition ClassifyTests ::
  "nat \<Rightarrow> section_rec list \<Rightarrow> defs \<Rightarrow> string list list \<Rightarrow> env \<Rightarrow>
     (classified list \<times> nat set \<times> string set) res" where
  "ClassifyTests n sections defs cases env =
     rbind (enabled_sections n env defs sections) (\<lambda>secs.
       let all_rules = concat (map sec_rules secs) in
       classify_cases n env defs (enumerate 0 all_rules) cases [] {0..<length all_rules} {})"

subsection \<open>Reading a status file\<close>

definition HEADER_PATTERN :: rx where  \<comment> \<open>\<open>\[([^]]+)\]\<close>\<close>
  "HEADER_PATTERN = Seq (Lit (CHR ''['')) (Seq (Grp 1 (Plus (NotIn '']''))) (Lit (CHR '']'')))"

definition RULE_PATTERN :: rx where  \<comment> \<open>\<open>\s*([^: ]*)\s*:(.*)\<close>\<close>
  "RULE_PATTERN =
     Seq (Star Space) (Seq (Grp 1 (Star (NotIn '': ''))) (Seq (Star Space)
       (Seq (Lit (CHR '':'')) (Grp 2 (Star Any)))))"

definition DEF_PATTERN :: rx where  \<comment> \<open>\<open>^def\s*(\w+)\s*=(.*)$\<close>\<close>
  "DEF_PATTERN =
     Seq Bos (Seq (Str ''def'') (Seq (Star Space) (Seq (Grp 1 (Plus Word)) (Seq (Star Space)
       (Seq (Lit (CHR ''='')) (Seq (Grp 2 (Star Any)) Eos))))))"

definition PREFIX_PATTERN :: rx where  \<comment> \<open>\<open>^\s*prefix\s+([\w\_\.\-\/]+)$\<close>\<close>
  "PREFIX_PATTERN =
     Seq Bos (Seq (Star Space) (Seq (Str ''prefix'') (Seq (Plus Space)
       (Seq (Grp 1 (Plus (Cls (\<lambda>c. is_word_char c \<or> c \<in> set ''_.-/'')))) Eos))))"

fun ReadLinesFrom :: "string list \<Rightarrow> string list" where
  "ReadLinesFrom [] = []"
| "ReadLinesFrom (line # lines) =
     (let line = (if CHR ''#'' \<in> set line then takeWhile (\<lambda>c. c \<noteq> CHR ''#'') line else line);
          line = py_strip line
      in if length line = 0 then ReadLinesFrom lines else line # ReadLinesFrom lines)"

text \<open>The section that receives rules, \<open>current_section\<close>, is always the last of \<open>sections\<close>.\<close>

definition add_to_last :: "section_rec list \<Rightarrow> rule \<Rightarrow> section_rec list" where
  "add_to_last sections r = butlast sections @ [AddRule (last sections) r]"

type_synonym config = "bool \<times> section_rec list \<times> defs"

fun read_lines ::
  "string list \<Rightarrow> pattern list \<Rightarrow> section_rec list \<Rightarrow> defs \<Rightarrow> config res" where
  "read_lines [] prefix sections defs = Inr (True, sections, defs)"
| "read_lines (line # lines) prefix sections defs =
     (case re_match HEADER_PATTERN line of
        Some m \<Rightarrow>
          rbind (ParseCondition (py_strip (re_group line m 1))) (\<lambda>condition.
            read_lines lines prefix
              (sections @ [\<lparr>sec_condition = condition, sec_rules = []\<rparr>]) defs)
      | None \<Rightarrow>
     (case re_match RULE_PATTERN line of
        Some m \<Rightarrow>
          let path = prefix @ SplitPath (py_strip (re_group line m 1)) in
          rbind (ParseCondition (py_strip (re_group line m 2))) (\<lambda>value.
            case value of
              None \<Rightarrow> Inr (False, sections, defs)
            | Some v \<Rightarrow>
                read_lines lines prefix
                  (add_to_last sections
                    \<lparr>raw_path = re_group line m 1, rl_path = path, rl_value = v\<rparr>) defs)
      | None \<Rightarrow>
     (case re_match DEF_PATTERN line of
        Some m \<Rightarrow>
          let name = py_lower (re_group line m 1) in
          rbind (ParseCondition (py_strip (re_group line m 2))) (\<lambda>value.
            case value of
              None \<Rightarrow> Inr (False, sections, defs)
            | Some v \<Rightarrow> read_lines lines prefix sections (defs(name \<mapsto> v)))
      | None \<Rightarrow>
     (case re_match PREFIX_PATTERN line of
        Some m \<Rightarrow> read_lines lines (SplitPath (py_strip (re_group line m 1))) sections defs
      | None \<Rightarrow> Inr (False, sections, defs)))))"

definition ReadConfigurationInto ::
  "string list \<Rightarrow> section_rec list \<Rightarrow> defs \<Rightarrow> config res" where
  "ReadConfigurationInto file sections defs =
     read_lines (ReadLinesFrom file) []
       (sections @ [\<lparr>sec_condition = Some (Constant True), sec_rules = []\<rparr>]) defs"

subsection \<open>Patterns are globs\<close>

text \<open>The reference: \<open>*\<close> stands for any run of characters, \<open>.\<close> for any one character, neither of
  them for a newline.\<close>

fun glob :: "string \<Rightarrow> string \<Rightarrow> bool" where
  "glob [] s = (s = [])"
| "glob (c # p) [] = (c = CHR ''*'' \<and> glob p [])"
| "glob (c # p) (d # ds) =
     (if c = CHR ''*'' then glob p (d # ds) \<or> (d \<noteq> CHR 0x0A \<and> glob (c # p) ds)
      else if c = CHR ''.'' then d \<noteq> CHR 0x0A \<and> glob p ds
      else c = d \<and> glob p ds)"

definition plain_pattern :: "string \<Rightarrow> bool" where
  "plain_pattern pat \<longleftrightarrow> (\<forall>c \<in> set pat. c \<in> set rx_meta \<longrightarrow> c = CHR ''*'' \<or> c = CHR ''.'')"

lemma glob_star:
  "glob (CHR ''*'' # p) s \<longleftrightarrow>
     (\<exists>k \<le> length s. (\<forall>c \<in> set (take k s). c \<noteq> CHR 0x0A) \<and> glob p (drop k s))"
proof (induction s)
  case (Cons d ds)
  have "(\<exists>k \<le> length (d # ds). (\<forall>c \<in> set (take k (d # ds)). c \<noteq> CHR 0x0A) \<and>
        glob p (drop k (d # ds))) \<longleftrightarrow>
      glob p (d # ds) \<or> (d \<noteq> CHR 0x0A \<and> (\<exists>k \<le> length ds.
        (\<forall>c \<in> set (take k ds). c \<noteq> CHR 0x0A) \<and> glob p (drop k ds)))" (is "?l \<longleftrightarrow> ?r")
  proof
    assume ?l
    then obtain k where "k \<le> length (d # ds)" "\<forall>c \<in> set (take k (d # ds)). c \<noteq> CHR 0x0A"
      "glob p (drop k (d # ds))" by blast
    then show ?r by (cases k) auto
  next
    assume ?r
    then consider "glob p (d # ds)" | k where "d \<noteq> CHR 0x0A" "k \<le> length ds"
      "\<forall>c \<in> set (take k ds). c \<noteq> CHR 0x0A" "glob p (drop k ds)" by blast
    then show ?l
    proof cases
      case 1 then show ?l by (intro exI [of _ 0]) simp
    next
      case 2 then show ?l by (intro exI [of _ "Suc k"]) simp
    qed
  qed
  then show ?case using Cons by simp
qed auto

lemma star_replace:
  "py_replace ''*'' ''.*'' pat = concat (map (\<lambda>c. if c = CHR ''*'' then ''.*'' else [c]) pat)"
  by (induction pat) (auto simp: py_startswith_def)

fun pat_rx :: "string \<Rightarrow> rx" where
  "pat_rx [] = Eps"
| "pat_rx (c # p) =
     Seq (if c = CHR ''*'' then Star Any else if c = CHR ''.'' then Any else Lit c) (pat_rx p)"

lemma glob_rx_plain:
  "plain_pattern pat \<Longrightarrow> glob_rx (py_replace ''*'' ''.*'' pat) = Inr (pat_rx pat)"
  unfolding star_replace
proof (induction pat)
  case (Cons c p)
  let ?rest = "concat (map (\<lambda>c. if c = CHR ''*'' then ''.*'' else [c]) p)"
  have IH: "glob_rx ?rest = Inr (pat_rx p)" using Cons by (simp add: plain_pattern_def)
  consider "c = CHR ''*''" | "c = CHR ''.''" | "c \<notin> set rx_meta" "c \<noteq> CHR ''*''" "c \<noteq> CHR ''.''"
    using Cons.prems by (auto simp: plain_pattern_def)
  then show ?case
  proof cases
    case 2
    show ?thesis
    proof (cases p)
      case Nil
      with 2 show ?thesis by simp
    next
      case (Cons d ds)
      then obtain x xs where x: "?rest = x # xs" "x \<noteq> CHR ''*''" by (cases "d = CHR ''*''") auto
      have "glob_rx (c # ?rest) = rbind (glob_rx ?rest) (\<lambda>r. Inr (Seq Any r))"
        using 2 x by simp
      with IH 2 show ?thesis by simp
    qed
  qed (use IH in simp_all)
qed simp

lemma set_take_nl:
  assumes "i \<le> j" "j \<le> length s"
  shows "(\<forall>c \<in> set (py_slice s i j). P c) \<longleftrightarrow> j \<le> i + span P s i"
proof -
  have len: "length (take (j - i) (drop i s)) = j - i" using assms by simp
  have sl: "py_slice s i j = take (j - i) (drop i s)" by (simp add: py_slice_def drop_take)
  show ?thesis
  proof
    assume "\<forall>c \<in> set (py_slice s i j). P c"
    then have "takeWhile P (take (j - i) (drop i s) @ drop (j - i) (drop i s)) =
        take (j - i) (drop i s) @ takeWhile P (drop (j - i) (drop i s))"
      by (intro takeWhile_append2) (simp add: sl)
    then have "length (takeWhile P (drop i s)) =
        length (take (j - i) (drop i s) @ takeWhile P (drop (j - i) (drop i s)))"
      by (simp only: append_take_drop_id)
    then have "j - i \<le> span P s i"
      unfolding span_def length_append len by linarith
    then show "j \<le> i + span P s i" by simp
  next
    assume j: "j \<le> i + span P s i"
    show "\<forall>c \<in> set (py_slice s i j). P c"
    proof
      fix c assume "c \<in> set (py_slice s i j)"
      then obtain k where "k < j - i" "c = s ! (i + k)"
        using assms by (auto simp: sl in_set_conv_nth)
      then show "P c" using j span_inside [of i "i + k" P s] by simp
    qed
  qed
qed

lemma pat_rx_ends:
  "i \<le> length s \<Longrightarrow>
     (\<exists>d. (j, d) \<in> set (rmatch (pat_rx pat) s i c)) \<longleftrightarrow>
     i \<le> j \<and> j \<le> length s \<and> glob pat (py_slice s i j)"
proof (induction pat arbitrary: i c)
  case Nil
  then show ?case by (auto simp: py_slice_def)
next
  case (Cons a p)
  have one: "py_slice s i j = s ! i # py_slice s (Suc i) j" if "i < j" "j \<le> length s"
    using that by (simp add: py_slice_def drop_take Cons_nth_drop_Suc [symmetric] Suc_diff_Suc
        take_Suc_Cons [symmetric])
  show ?case
  proof (cases "a = CHR ''*''")
    case True
    have "(\<exists>d. (j, d) \<in> set (rmatch (pat_rx (a # p)) s i c)) \<longleftrightarrow>
        (\<exists>k. i \<le> k \<and> k \<le> i + span (\<lambda>d. d \<noteq> CHR 0x0A) s i \<and> (\<exists>d. (j, d) \<in> set (rmatch (pat_rx p) s k c)))"
      using True
      by (auto simp: Any_def rmatch_Star_Cls Bex_def less_Suc_eq_le simp del: rmatch.simps(5) upt_Suc)
    also have "\<dots> \<longleftrightarrow> (\<exists>k. i \<le> k \<and> k \<le> i + span (\<lambda>d. d \<noteq> CHR 0x0A) s i \<and> k \<le> j \<and> j \<le> length s \<and>
        glob p (py_slice s k j))"
    proof -
      have "i + span (\<lambda>d. d \<noteq> CHR 0x0A) s i \<le> length s"
        using Cons.prems length_takeWhile_le [of "\<lambda>d. d \<noteq> CHR 0x0A" "drop i s"] by (simp add: span_def)
      then show ?thesis using Cons.IH by (meson le_trans)
    qed
    also have "\<dots> \<longleftrightarrow> i \<le> j \<and> j \<le> length s \<and> glob (a # p) (py_slice s i j)"
    proof -
      have sl: "take (k - i) (py_slice s i j) = py_slice s i k"
        "drop (k - i) (py_slice s i j) = py_slice s k j" if "i \<le> k" "k \<le> j" for k
        using that by (auto simp: py_slice_def drop_take min_def)
      show ?thesis
      proof
        assume "\<exists>k. i \<le> k \<and> k \<le> i + span (\<lambda>d. d \<noteq> CHR 0x0A) s i \<and> k \<le> j \<and> j \<le> length s \<and>
          glob p (py_slice s k j)"
        then obtain k where k: "i \<le> k" "k \<le> i + span (\<lambda>d. d \<noteq> CHR 0x0A) s i" "k \<le> j" "j \<le> length s"
          "glob p (py_slice s k j)" by blast
        have nl: "\<forall>c \<in> set (py_slice s i k). c \<noteq> CHR 0x0A"
          using set_take_nl [of i k s "\<lambda>d. d \<noteq> CHR 0x0A"] k by simp
        have "k - i \<le> length (py_slice s i j)" using k by (simp add: py_slice_def)
        with nl k(5) have "glob (a # p) (py_slice s i j)"
          unfolding True glob_star sl [OF k(1,3), symmetric] by blast
        with k show "i \<le> j \<and> j \<le> length s \<and> glob (a # p) (py_slice s i j)" by simp
      next
        assume "i \<le> j \<and> j \<le> length s \<and> glob (a # p) (py_slice s i j)"
        then have ij: "i \<le> j" "j \<le> length s" and g: "glob (CHR ''*'' # p) (py_slice s i j)"
          using True by simp_all
        from g [unfolded glob_star] obtain k where k: "k \<le> length (py_slice s i j)"
          "\<forall>c \<in> set (take k (py_slice s i j)). c \<noteq> CHR 0x0A" "glob p (drop k (py_slice s i j))"
          by blast
        from k(1) have "k \<le> j - i" using ij by (simp add: py_slice_def)
        note k = this ij k(2,3)
        then show "\<exists>k. i \<le> k \<and> k \<le> i + span (\<lambda>d. d \<noteq> CHR 0x0A) s i \<and> k \<le> j \<and> j \<le> length s \<and>
            glob p (py_slice s k j)"
          using k sl [of "i + k"] set_take_nl [of i "i + k" s "\<lambda>d. d \<noteq> CHR 0x0A"]
          by (intro exI [of _ "i + k"]) simp
      qed
    qed
    finally show ?thesis .
  next
    case False
    have "(\<exists>d. (j, d) \<in> set (rmatch (pat_rx (a # p)) s i c)) \<longleftrightarrow>
        i < length s \<and> (if a = CHR ''.'' then s ! i \<noteq> CHR 0x0A else s ! i = a) \<and>
        Suc i \<le> j \<and> j \<le> length s \<and> glob p (py_slice s (Suc i) j)"
      using False Cons.IH [of "Suc i" c]
      by (cases "a = CHR ''.''"; cases "i < length s") (auto simp: rx_defs)
    also have "\<dots> \<longleftrightarrow> i \<le> j \<and> j \<le> length s \<and> glob (a # p) (py_slice s i j)"
    proof (cases "i < j")
      case True
      then show ?thesis using False one by auto
    next
      case False
      then have "py_slice s i j = []" by (simp add: py_slice_def)
      then show ?thesis using False \<open>a \<noteq> CHR ''*''\<close> by auto
    qed
    finally show ?thesis .
  qed
qed

lemma Pattern_match_glob:
  assumes "plain_pattern pat"
  shows "Pattern_match (Pattern pat) str =
    Inr (glob pat str \<or> (str \<noteq> [] \<and> last str = CHR 0x0A \<and> glob pat (butlast str)))"
proof -
  have "re_match (Seq Bos (Seq (pat_rx pat) Eos)) str \<noteq> None \<longleftrightarrow>
      (\<exists>j d. (j, d) \<in> set (rmatch (pat_rx pat) str 0 Map.empty) \<and>
        (j = length str \<or> (Suc j = length str \<and> str ! j = CHR 0x0A)))"
    unfolding re_match_None by (auto split: if_splits intro!: bexI)
  also have "\<dots> \<longleftrightarrow> (\<exists>j. j \<le> length str \<and> glob pat (take j str) \<and>
        (j = length str \<or> (Suc j = length str \<and> str ! j = CHR 0x0A)))"
    using pat_rx_ends [of 0 str _ pat Map.empty] by (auto simp: py_slice_def)
  also have "\<dots> \<longleftrightarrow> glob pat str \<or> (str \<noteq> [] \<and> last str = CHR 0x0A \<and> glob pat (butlast str))"
    by (cases str rule: rev_cases) (auto simp: nth_append)
  finally show ?thesis
    using glob_rx_plain [OF assms] by (simp add: Pattern_match_def)
qed

subsection \<open>Classification\<close>

text \<open>What a test is expected to do: the outcomes of all rules that match its path, over the
  sections whose condition holds.\<close>

definition enabled :: "env \<Rightarrow> defs \<Rightarrow> section_rec \<Rightarrow> bool" where
  "enabled env defs s \<longleftrightarrow> (\<exists>e. sec_condition s = Some e \<and> holds env defs e)"

definition active_rules :: "env \<Rightarrow> defs \<Rightarrow> section_rec list \<Rightarrow> rule list" where
  "active_rules env defs sections = concat (map sec_rules (filter (enabled env defs) sections))"

definition expected :: "env \<Rightarrow> defs \<Rightarrow> section_rec list \<Rightarrow> string list \<Rightarrow> string set" where
  "expected env defs sections path =
     {x. \<exists>r \<in> set (active_rules env defs sections).
        rule_Contains r path = Inr True \<and> outcome_of env defs (rl_value r) x}"

lemma enabled_sections_filter:
  "enabled_sections n env defs ss = Inr secs \<Longrightarrow> secs = filter (enabled env defs) ss"
proof (induction ss arbitrary: secs)
  case (Cons s ss)
  then obtain b rest where b: "eval_condition n env defs s = Inr b"
    and "enabled_sections n env defs ss = Inr rest" "secs = (if b then s # rest else rest)"
    by auto
  moreover have "b \<longleftrightarrow> enabled env defs s"
    using b evaluation_sound(1) by (auto simp: eval_condition_def enabled_def split: option.splits)
  ultimately show ?case using Cons.IH by simp
qed simp

lemma matching_rules_filter:
  "matching_rules rs path = Inr ms \<Longrightarrow>
     ms = filter (\<lambda>r. rule_Contains (snd r) path = Inr True) rs"
  by (induction rs arbitrary: ms) auto

lemma rule_GetOutcomes_sound:
  "rule_GetOutcomes n env defs r = Inr elms \<Longrightarrow>
     set elms = {x. outcome_of env defs (rl_value r) x}"
proof -
  assume "rule_GetOutcomes n env defs r = Inr elms"
  then obtain s where s: "GetOutcomes n env defs (rl_value r) = Inr s" and "s = ListSet elms"
    by (auto simp: rule_GetOutcomes_def split: pset.splits) (metis pset.exhaust)
  with evaluation_sound(2) [OF s] show ?thesis by auto
qed

lemma collect_outcomes_sound:
  "collect_outcomes n env defs rs outcomes unused = Inr (outs, un) \<Longrightarrow>
     outs = outcomes \<union> {x. \<exists>r \<in> set rs. outcome_of env defs (rl_value (snd r)) x} \<and>
     un = unused - fst ` set rs"
proof (induction rs arbitrary: outcomes unused)
  case (Cons r rs)
  then obtain elms where e: "rule_GetOutcomes n env defs (snd r) = Inr elms"
    and "collect_outcomes n env defs rs (outcomes \<union> set elms) (unused - {fst r}) = Inr (outs, un)"
    by auto
  from Cons.IH [OF this(2)] rule_GetOutcomes_sound [OF e] show ?case by auto
qed simp

definition classified_as :: "env \<Rightarrow> defs \<Rightarrow> rule list \<Rightarrow> string list \<Rightarrow> string set" where
  "classified_as env defs rules path =
     (let outs = {x. \<exists>r \<in> set rules. rule_Contains r path = Inr True \<and>
        outcome_of env defs (rl_value r) x}
      in if outs = {} then {PASS} else outs)"

lemma classify_cases_sound:
  "classify_cases n env defs (enumerate 0 rules) cases result unused all_outcomes =
     Inr (result', unused', all') \<Longrightarrow>
   result' = result @ map (\<lambda>p. \<lparr>cl_case = p, cl_outcomes = classified_as env defs rules p\<rparr>) cases \<and>
   unused' = unused - {i. i < length rules \<and>
     (\<exists>p \<in> set cases. rule_Contains (rules ! i) p = Inr True)} \<and>
   all' = all_outcomes \<union> (\<Union>p \<in> set cases. classified_as env defs rules p)"
proof (induction cases arbitrary: result unused all_outcomes)
  case (Cons p cases)
  then obtain ms collected un where m: "matching_rules (enumerate 0 rules) p = Inr ms"
    and c: "collect_outcomes n env defs ms {} unused = Inr (collected, un)"
    and rest: "classify_cases n env defs (enumerate 0 rules) cases
      (result @ [\<lparr>cl_case = p, cl_outcomes = if collected = {} then {PASS} else collected\<rparr>]) un
      (all_outcomes \<union> (if collected = {} then {PASS} else collected)) =
        Inr (result', unused', all')"
    by (auto simp: Let_def)
  have ms: "set ms = {(i, rules ! i) | i. i < length rules \<and> rule_Contains (rules ! i) p = Inr True}"
    using matching_rules_filter [OF m] by (auto simp: in_set_enumerate_eq)
  have "(\<exists>r \<in> set ms. outcome_of env defs (rl_value (snd r)) x) \<longleftrightarrow>
      (\<exists>r \<in> set rules. rule_Contains r p = Inr True \<and> outcome_of env defs (rl_value r) x)" for x
    unfolding ms by (fastforce simp: in_set_conv_nth)
  then have col: "collected = {x. \<exists>r \<in> set rules. rule_Contains r p = Inr True \<and>
      outcome_of env defs (rl_value r) x}"
    using collect_outcomes_sound [OF c] by simp
  have "fst ` set ms = {i. i < length rules \<and> rule_Contains (rules ! i) p = Inr True}"
    unfolding ms by force
  then have un: "un = unused - {i. i < length rules \<and> rule_Contains (rules ! i) p = Inr True}"
    using collect_outcomes_sound [OF c] by simp
  have "(if collected = {} then {PASS} else collected) = classified_as env defs rules p"
    unfolding classified_as_def Let_def col by (rule refl)
  with Cons.IH [OF rest] show ?case by (auto simp: un)
qed simp

subsection \<open>Reading back a printed status file\<close>

text \<open>The four kinds of lines, how they are written, and what each should do to the prefix, the
  sections and the definitions.\<close>

datatype item = Header expr | RuleLine string expr | DefLine string expr | PrefixLine string

fun print_item :: "item \<Rightarrow> string" where
  "print_item (Header e) = ''['' @ unparse e @ '']''"
| "print_item (RuleLine name e) = name @ '': '' @ unparse e"
| "print_item (DefLine name e) = ''def '' @ name @ '' = '' @ unparse e"
| "print_item (PrefixLine name) = ''prefix '' @ name"

definition path_char :: "char \<Rightarrow> bool" where
  "path_char c \<longleftrightarrow> is_word_char c \<or> c \<in> set ''_.-/''"

fun wf_item :: "item \<Rightarrow> bool" where
  "wf_item (Header e) = wf_expr e"
| "wf_item (RuleLine name e) = (name \<noteq> [] \<and> (\<forall>c \<in> set name. path_char c \<or> c = CHR ''*'') \<and> wf_expr e)"
| "wf_item (DefLine name e) = (name \<noteq> [] \<and> (\<forall>c \<in> set name. is_word_char c) \<and> wf_expr e)"
| "wf_item (PrefixLine name) = (name \<noteq> [] \<and> (\<forall>c \<in> set name. path_char c))"

type_synonym reader = "pattern list \<times> section_rec list \<times> defs"

fun apply_item :: "item \<Rightarrow> reader \<Rightarrow> reader" where
  "apply_item (Header e) (prefix, secs, defs) =
     (prefix, secs @ [\<lparr>sec_condition = Some e, sec_rules = []\<rparr>], defs)"
| "apply_item (RuleLine name e) (prefix, secs, defs) =
     (prefix, add_to_last secs \<lparr>raw_path = name, rl_path = prefix @ SplitPath name, rl_value = e\<rparr>, defs)"
| "apply_item (DefLine name e) (prefix, secs, defs) = (prefix, secs, defs(py_lower name \<mapsto> e))"
| "apply_item (PrefixLine name) (prefix, secs, defs) = (SplitPath name, secs, defs)"

text \<open>Characters of a printed expression.\<close>

definition expr_char :: "char \<Rightarrow> bool" where
  "expr_char c \<longleftrightarrow> is_word_char c \<or> c \<in> set ''()$,&|= ''"

lemma valid_token_chars: "valid_token tok \<Longrightarrow> c \<in> set tok \<Longrightarrow> expr_char c \<and> \<not> py_isspace c"
  by (auto simp: valid_token_def expr_char_def IsAlpha_iff word_char_not_space) (simp_all add: char_defs)

lemma py_join_set: "c \<in> set (py_join sep ts) \<Longrightarrow> c \<in> set sep \<or> (\<exists>t \<in> set ts. c \<in> set t)"
  by (induction sep ts rule: py_join.induct) auto

lemma unparse_chars: "wf_expr e \<Longrightarrow> c \<in> set (unparse e) \<Longrightarrow> expr_char c"
  using untoks_valid valid_token_chars
  by (fastforce simp: unparse_def expr_char_def dest: py_join_set)

lemma py_join_ends:
  assumes "ts \<noteq> []" "\<forall>t \<in> set ts. t \<noteq> [] \<and> (\<forall>c \<in> set t. \<not> py_isspace c)"
  shows "py_join sep ts \<noteq> [] \<and> \<not> py_isspace (hd (py_join sep ts)) \<and>
    \<not> py_isspace (last (py_join sep ts))"
  using assms by (induction sep ts rule: py_join.induct) auto

lemma strip_id:
  assumes "s \<noteq> []" "\<not> py_isspace (hd s)" "\<not> py_isspace (last s)"
  shows "py_strip s = s"
proof -
  have "dropWhile py_isspace s = s" using assms by (cases s) auto
  moreover have "dropWhile py_isspace (rev s) = rev s"
    using assms by (cases s rule: rev_cases) auto
  ultimately show ?thesis by (simp add: py_str)
qed

lemma strip_space: "py_strip (CHR '' '' # s) = py_strip s"
  by (simp add: py_str py_isspace_def ord_def)

lemma unparse_ends:
  assumes "wf_expr e"
  shows "unparse e \<noteq> []" "\<not> py_isspace (hd (unparse e))" "\<not> py_isspace (last (unparse e))"
proof -
  have "\<forall>t \<in> set (untoks e). t \<noteq> [] \<and> (\<forall>c \<in> set t. \<not> py_isspace c)"
    using untoks_valid [OF assms] valid_token_chars by (auto simp: valid_token_def)
  then show "unparse e \<noteq> []" "\<not> py_isspace (hd (unparse e))" "\<not> py_isspace (last (unparse e))"
    using py_join_ends [of "untoks e" "'' ''"] by (auto simp: unparse_def)
qed

lemma strip_unparse: "wf_expr e \<Longrightarrow> py_strip (unparse e) = unparse e"
  by (rule strip_id) (auto simp: unparse_ends)

lemma expr_char_not: "expr_char c \<Longrightarrow> c \<notin> set ''[]:#'' \<and> c \<noteq> CHR 0x0A"
  by (auto simp: expr_char_def char_defs)

lemma path_char_not: "path_char c \<or> c = CHR ''*'' \<Longrightarrow> c \<notin> set ''[]: #=('' \<and> c \<noteq> CHR 0x0A \<and> \<not> py_isspace c"
  by (auto simp: path_char_def char_defs)

lemma slice_mid: "py_slice (xs @ ys @ zs) (length xs) (length xs + length ys) = ys"
  by (simp add: py_slice_def)

lemma header_match:
  assumes "x \<noteq> []" "CHR '']'' \<notin> set x"
  shows "\<exists>m. re_match HEADER_PATTERN (''['' @ x @ '']'') = Some m \<and>
    re_group (''['' @ x @ '']'') m 1 = x"
proof -
  let ?s = "''['' @ x @ '']''"
  have "first (Lit (CHR '']'')) ?s (1 + length x) [1 \<mapsto> (1, 1 + length x)] =
      Some (Suc (1 + length x), [1 \<mapsto> (1, 1 + length x)])"
    by (simp add: Lit_def first_simps nth_append)
  then have "first (Seq (Grp 1 (Plus (NotIn '']''))) (Lit (CHR '']''))) ?s 1 Map.empty =
      Some (Suc (1 + length x), [1 \<mapsto> (1, 1 + length x)])"
    unfolding NotIn_def using assms by (intro run_Seq_Grp_Plus [of _ _ x "'']''"]) auto
  then have "re_match HEADER_PATTERN ?s = Some (Suc (1 + length x), [1 \<mapsto> (1, 1 + length x)])"
    unfolding re_match_first HEADER_PATTERN_def by (intro lit_Seq) simp_all
  then show ?thesis
    using slice_mid [of "''[''" x "'']''"] by (simp add: re_group_def)
qed

lemma header_no_match:
  assumes "s \<noteq> []" "hd s \<noteq> CHR ''[''"
  shows "re_match HEADER_PATTERN s = None"
  using assms
  by (cases s) (simp_all add: re_match_first HEADER_PATTERN_def Lit_def [of "CHR ''[''"] first_Seq_Cls)

lemma rule_no_match:
  assumes "CHR '':'' \<notin> set s"
  shows "re_match RULE_PATTERN s = None"
  unfolding re_match_None RULE_PATTERN_def
  by (intro rmatch_Seq_Nil rmatch_Lit_Nil assms)

lemma def_no_match:
  assumes "s \<noteq> []" "hd s \<noteq> CHR ''d''"
  shows "re_match DEF_PATTERN s = None"
  using assms by (cases s) (simp_all add: re_match_first DEF_PATTERN_def Lit_def first_simps first_Seq_Cls)

lemma rule_match:
  assumes name: "name \<noteq> []" "\<forall>c \<in> set name. path_char c \<or> c = CHR ''*''"
    and u: "\<forall>c \<in> set u. c \<noteq> CHR 0x0A"
  shows "\<exists>m. re_match RULE_PATTERN (name @ '': '' @ u) = Some m \<and>
    re_group (name @ '': '' @ u) m 1 = name \<and> re_group (name @ '': '' @ u) m 2 = CHR '' '' # u"
proof -
  let ?s = "name @ '': '' @ u"
  let ?c = "[1 \<mapsto> (0, length name)]"
  let ?c2 = "?c(2 \<mapsto> (Suc (length name), Suc (length name) + Suc (length u)))"
  have nc: "c \<notin> set '': ''" "\<not> py_isspace c" if "c \<in> set name" for c
    using path_char_not [of c] name(2) that by auto
  have tail: "drop (Suc (length name)) ?s = CHR '' '' # u" by simp
  have "span (\<lambda>d. d \<noteq> CHR 0x0A) ?s (Suc (length name)) = length (CHR '' '' # u)"
    by (rule span_eq [where ys = "[]"]) (use u in auto)
  then have "first (Grp 2 (Star Any)) ?s (Suc (length name)) ?c =
      Some (Suc (length name) + Suc (length u), ?c2)"
    unfolding Any_def first_Grp_Star by simp
  then have "first (Seq (Lit (CHR '':'')) (Grp 2 (Star Any))) ?s (length name) ?c =
      Some (Suc (length name) + Suc (length u), ?c2)"
    by (intro lit_Seq) simp_all
  then have "first (Seq (Star Space) (Seq (Lit (CHR '':'')) (Grp 2 (Star Any)))) ?s (length name) ?c =
      Some (Suc (length name) + Suc (length u), ?c2)"
    unfolding Space_def
    by (intro run_Seq_Star [where xs = "[]" and ys = "'': '' @ u"])
      (auto simp: py_isspace_def ord_def)
  then have "first (Seq (Grp 1 (Star (NotIn '': ''))) (Seq (Star Space)
       (Seq (Lit (CHR '':'')) (Grp 2 (Star Any))))) ?s 0 Map.empty =
      Some (Suc (length name) + Suc (length u), ?c2)"
    unfolding NotIn_def
    by (intro run_Seq_Grp_Star [where xs = name and ys = "'': '' @ u"]) (use nc in auto)
  then have "re_match RULE_PATTERN ?s = Some (Suc (length name) + Suc (length u), ?c2)"
    unfolding re_match_first RULE_PATTERN_def
    unfolding Space_def
    by (intro run_Seq_Star [where xs = "[]" and ys = ?s]) (use name nc in auto)
  then show ?thesis
    using slice_mid [of "[]" name "'': '' @ u"] slice_mid [of "name @ '':''" "CHR '' '' # u" "[]"]
    by (simp add: re_group_def)
qed

lemma Str_Seq:
  "drop i s = w @ ys \<Longrightarrow> first r s (i + length w) c = Some m \<Longrightarrow>
     first (Seq (Str w) r) s i c = Some m"
proof (induction w arbitrary: i)
  case (Cons a w)
  have "first (Seq (Str w) r) s (Suc i) c = Some m"
    using Cons.prems drop_step [of i s "[a]"] by (intro Cons.IH) simp_all
  then show ?case using Cons.prems by (auto simp: first_simps intro!: lit_Seq)
qed (simp add: first_simps)

lemma space_char: "py_isspace (CHR '' '')" "\<not> is_word_char (CHR '' '')" "\<not> py_isspace (CHR ''='')"
  by (simp_all add: char_defs)

lemma def_match:
  assumes name: "name \<noteq> []" "\<forall>c \<in> set name. is_word_char c"
    and u: "\<forall>c \<in> set u. c \<noteq> CHR 0x0A"
  shows "\<exists>m. re_match DEF_PATTERN (''def '' @ name @ '' = '' @ u) = Some m \<and>
    re_group (''def '' @ name @ '' = '' @ u) m 1 = name \<and>
    re_group (''def '' @ name @ '' = '' @ u) m 2 = CHR '' '' # u"
proof -
  let ?s = "''def '' @ name @ '' = '' @ u"
  let ?i = "4 + length name + 1"
  let ?j = "Suc ?i + length (CHR '' '' # u)"
  let ?c = "[1 \<mapsto> (4, 4 + length name)]"
  let ?c2 = "?c(2 \<mapsto> (Suc ?i, ?j))"
  have name_space: "\<not> py_isspace c" if "c \<in> set name" for c
    using name(2) that word_char_not_space by blast
  have d: "drop (4 + length name) ?s = '' '' @ ''= '' @ u" "drop ?i ?s = CHR ''='' # '' '' @ u"
    "drop (Suc ?i) ?s = CHR '' '' # u" "length ?s = ?j"
    by (simp_all add: eval_nat_numeral)
  have "first (Seq (Grp 2 (Star Any)) Eos) ?s (Suc ?i) ?c = Some (?j, ?c2)"
    unfolding Any_def
    by (rule run_Seq_Grp_Star [where xs = "CHR '' '' # u" and ys = "[]"])
      (use u d in \<open>auto simp: first_simps\<close>)
  then have "first (Seq (Lit (CHR ''='')) (Seq (Grp 2 (Star Any)) Eos)) ?s ?i ?c = Some (?j, ?c2)"
    by (intro lit_Seq) (rule d)
  then have "first (Seq (Star Space) (Seq (Lit (CHR ''='')) (Seq (Grp 2 (Star Any)) Eos)))
      ?s (4 + length name) ?c = Some (?j, ?c2)"
    unfolding Space_def
    by (intro run_Seq_Star [where xs = "'' ''" and ys = "''= '' @ u"])
      (auto simp: space_char eval_nat_numeral)
  then have *: "first (Seq (Grp 1 (Plus Word)) (Seq (Star Space) (Seq (Lit (CHR ''=''))
      (Seq (Grp 2 (Star Any)) Eos)))) ?s 4 Map.empty = Some (?j, ?c2)"
    unfolding Word_def
    by (intro run_Seq_Grp_Plus [where xs = name and ys = "'' = '' @ u"])
      (use name in \<open>auto simp: space_char\<close>)
  have "first (Seq (Star Space) (Seq (Grp 1 (Plus Word)) (Seq (Star Space)
      (Seq (Lit (CHR ''='')) (Seq (Grp 2 (Star Any)) Eos))))) ?s 3 Map.empty = Some (?j, ?c2)"
    unfolding Space_def
    by (rule run_Seq_Star [where xs = "'' ''" and ys = "name @ '' = '' @ u"])
      (use name name_space * [unfolded Space_def] in \<open>auto simp: space_char\<close>)
  then have "re_match DEF_PATTERN ?s = Some (?j, ?c2)"
    unfolding re_match_first DEF_PATTERN_def first_simps(1) if_P [OF refl]
    by (intro Str_Seq [where ys = "'' '' @ name @ '' = '' @ u"]) (simp_all add: eval_nat_numeral)
  then show ?thesis
    using slice_mid [of "''def ''" name "'' = '' @ u"]
      slice_mid [of "''def '' @ name @ '' =''" "CHR '' '' # u" "[]"]
    by (simp add: re_group_def eval_nat_numeral)
qed

lemma prefix_match:
  assumes name: "name \<noteq> []" "\<forall>c \<in> set name. path_char c"
  shows "\<exists>m. re_match PREFIX_PATTERN (''prefix '' @ name) = Some m \<and>
    re_group (''prefix '' @ name) m 1 = name"
proof -
  let ?s = "''prefix '' @ name"
  let ?c = "[1 \<mapsto> (7, 7 + length name)]"
  let ?G = "Seq (Grp 1 (Plus (Cls (\<lambda>c. is_word_char c \<or> c \<in> set ''_.-/'')))) Eos"
  have sp: "\<not> py_isspace c" if "c \<in> set name" for c using path_char_not name(2) that by blast
  have g: "first ?G ?s 7 Map.empty = Some (7 + length name, ?c)"
    by (rule run_Seq_Grp_Plus [where xs = name and ys = "[]"])
      (use name in \<open>auto simp: first_simps path_char_def\<close>)
  have "first (Seq (Plus Space) ?G) ?s 6 Map.empty = Some (7 + length name, ?c)"
    unfolding Space_def
    by (rule run_Seq_Plus [where xs = "'' ''" and ys = name])
      (use name sp g in \<open>auto simp: space_char\<close>)
  then have "first (Seq (Str ''prefix'') (Seq (Plus Space) ?G)) ?s 0 Map.empty =
      Some (7 + length name, ?c)"
    by (intro Str_Seq [where ys = "'' '' @ name"]) (simp_all add: eval_nat_numeral)
  then have "re_match PREFIX_PATTERN ?s = Some (7 + length name, ?c)"
    unfolding re_match_first PREFIX_PATTERN_def first_simps(1) Space_def
    using run_Seq_Star [of 0 ?s "[]" ?s py_isspace] by (simp add: char_defs)
  then show ?thesis
    using slice_mid [of "''prefix ''" name "[]"] by (simp add: re_group_def eval_nat_numeral)
qed

lemma expr_char_line: "wf_expr e \<Longrightarrow> c \<in> set (unparse e) \<Longrightarrow> c \<notin> set ''[]:#'' \<and> c \<noteq> CHR 0x0A"
  using unparse_chars expr_char_not by blast

lemma strip_path: "name \<noteq> [] \<Longrightarrow> \<forall>c \<in> set name. path_char c \<or> c = CHR ''*'' \<Longrightarrow> py_strip name = name"
  using path_char_not by (intro strip_id) (auto dest: hd_in_set last_in_set)

lemma read_item:
  assumes "wf_item it"
  shows "read_lines (print_item it # lines) prefix secs defs =
    (case apply_item it (prefix, secs, defs) of (p, s, d) \<Rightarrow> read_lines lines p s d)"
proof (cases it)
  case (Header e)
  then have e: "wf_expr e" using assms by simp
  have "CHR '']'' \<notin> set (unparse e)" using expr_char_line [OF e] by auto
  from header_match [OF unparse_ends(1) [OF e] this] obtain m where
    "re_match HEADER_PATTERN (''['' @ unparse e @ '']'') = Some m"
    "re_group (''['' @ unparse e @ '']'') m 1 = unparse e" by blast
  then show ?thesis using Header by (simp add: strip_unparse [OF e] parse_unparse [OF e])
next
  case (RuleLine name e)
  then have n: "name \<noteq> []" "\<forall>c \<in> set name. path_char c \<or> c = CHR ''*''" and e: "wf_expr e"
    using assms by simp_all
  have "hd (name @ '': '' @ unparse e) \<noteq> CHR ''[''"
    using n path_char_not [of "hd name"] by simp
  then have h: "re_match HEADER_PATTERN (name @ '': '' @ unparse e) = None"
    by (intro header_no_match) simp_all
  have "\<forall>c \<in> set (unparse e). c \<noteq> CHR 0x0A" using expr_char_line [OF e] by auto
  from rule_match [OF n this] obtain m where
    "re_match RULE_PATTERN (name @ '': '' @ unparse e) = Some m"
    "re_group (name @ '': '' @ unparse e) m 1 = name"
    "re_group (name @ '': '' @ unparse e) m 2 = CHR '' '' # unparse e" by blast
  then show ?thesis using RuleLine h
    by (simp add: strip_space strip_unparse [OF e] strip_path [OF n] parse_unparse [OF e])
next
  case (DefLine name e)
  then have n: "name \<noteq> []" "\<forall>c \<in> set name. is_word_char c" and e: "wf_expr e"
    using assms by simp_all
  let ?s = "''def '' @ name @ '' = '' @ unparse e"
  have "\<forall>c \<in> set name. c \<noteq> CHR '':''" using n(2) by (auto simp: char_defs)
  then have "CHR '':'' \<notin> set ?s" using expr_char_line [OF e] by auto
  then have r: "re_match RULE_PATTERN ?s = None" by (rule rule_no_match)
  have h: "re_match HEADER_PATTERN ?s = None" by (rule header_no_match) simp_all
  have "\<forall>c \<in> set (unparse e). c \<noteq> CHR 0x0A" using expr_char_line [OF e] by auto
  from def_match [OF n this] obtain m where
    "re_match DEF_PATTERN ?s = Some m" "re_group ?s m 1 = name" "re_group ?s m 2 = CHR '' '' # unparse e"
    by blast
  then show ?thesis using DefLine h r
    by (simp add: strip_space strip_unparse [OF e] parse_unparse [OF e])
next
  case (PrefixLine name)
  then have n: "name \<noteq> []" "\<forall>c \<in> set name. path_char c" using assms by simp_all
  let ?s = "''prefix '' @ name"
  have "\<forall>c \<in> set name. c \<noteq> CHR '':''" using n(2) path_char_not by auto
  then have r: "re_match RULE_PATTERN ?s = None" by (intro rule_no_match) auto
  have h: "re_match HEADER_PATTERN ?s = None" "re_match DEF_PATTERN ?s = None"
    by (rule header_no_match def_no_match; simp)+
  from prefix_match [OF n] obtain m where
    "re_match PREFIX_PATTERN ?s = Some m" "re_group ?s m 1 = name" by blast
  then show ?thesis using PrefixLine h r n by (simp add: strip_path)
qed

lemma read_items:
  "\<forall>it \<in> set items. wf_item it \<Longrightarrow>
     read_lines (map print_item items) prefix secs defs =
       (case fold apply_item items (prefix, secs, defs) of (p, s, d) \<Rightarrow> Inr (True, s, d))"
proof (induction items arbitrary: prefix secs defs)
  case (Cons it items)
  obtain p s d where "apply_item it (prefix, secs, defs) = (p, s, d)" by (cases it) auto
  then show ?case using Cons read_item [of it] by (simp del: read_lines.simps)
qed simp

text \<open>A line of the file: an item or nothing, with white space around it and a comment behind.\<close>

record src_line =
  before :: string
  content :: "item option"
  behind :: string
  remark :: "string option"

definition print_line :: "src_line \<Rightarrow> string" where
  "print_line l = before l @ (case content l of None \<Rightarrow> [] | Some it \<Rightarrow> print_item it) @ behind l @
     (case remark l of None \<Rightarrow> [] | Some c \<Rightarrow> CHR ''#'' # c)"

definition wf_line :: "src_line \<Rightarrow> bool" where
  "wf_line l \<longleftrightarrow> (\<forall>c \<in> set (before l) \<union> set (behind l). py_isspace c) \<and>
     (case content l of None \<Rightarrow> True | Some it \<Rightarrow> wf_item it)"

definition line_items :: "src_line list \<Rightarrow> item list" where
  "line_items = List.map_filter content"

lemma path_not_space: "path_char c \<Longrightarrow> \<not> py_isspace c" "c = CHR ''*'' \<Longrightarrow> \<not> py_isspace c"
  using path_char_not [of c] by blast+

lemma print_item_ends:
  assumes "wf_item it"
  shows "print_item it \<noteq> []" "\<not> py_isspace (hd (print_item it))" "\<not> py_isspace (last (print_item it))"
    "CHR ''#'' \<notin> set (print_item it)"
proof -
  have ns: "\<not> py_isspace (CHR ''['')" "\<not> py_isspace (CHR '']'')" "\<not> py_isspace (CHR ''d'')"
    "\<not> py_isspace (CHR ''p'')" by (simp_all add: char_defs)
  show "print_item it \<noteq> []" using assms by (cases it) auto
  show "\<not> py_isspace (hd (print_item it))"
  proof (cases it)
    case (RuleLine name e)
    then have "path_char (hd name) \<or> hd name = CHR ''*''" "name \<noteq> []" using assms by auto
    then show ?thesis using RuleLine path_not_space by auto
  qed (use ns in simp_all)
  show "\<not> py_isspace (last (print_item it))"
  proof (cases it)
    case (PrefixLine name)
    then have "path_char (last name)" "name \<noteq> []" using assms by auto
    then show ?thesis using PrefixLine path_not_space by simp
  qed (use assms ns in \<open>simp_all add: unparse_ends\<close>)
  have u: "CHR ''#'' \<notin> set (unparse e)" if "wf_expr e" for e
    using expr_char_line [OF that, of "CHR ''#''"] by auto
  have h: "\<not> path_char (CHR ''#'')" "\<not> is_word_char (CHR ''#'')"
    by (simp_all add: path_char_def char_defs)
  show "CHR ''#'' \<notin> set (print_item it)"
    using assms u h by (cases it) auto
qed

lemma strip_around:
  assumes "\<forall>c \<in> set a. py_isspace c" "\<forall>c \<in> set b. py_isspace c"
    and "x = [] \<or> \<not> py_isspace (hd x) \<and> \<not> py_isspace (last x)"
  shows "py_strip (a @ x @ b) = x"
proof (cases "x = []")
  case True
  then show ?thesis using assms(1,2) by (auto simp: py_str dropWhile_eq_Nil_conv dest: set_dropWhileD)
next
  case False
  have "dropWhile py_isspace (a @ x @ b) = x @ b"
    using assms False by (cases x) (auto simp: dropWhile_append2)
  moreover have "dropWhile py_isspace (rev b @ rev x) = rev x"
    using assms False by (subst dropWhile_append2; cases x rule: rev_cases) auto
  ultimately show ?thesis by (simp add: py_str)
qed

lemma ReadLinesFrom_print:
  "\<forall>l \<in> set ls. wf_line l \<Longrightarrow>
     ReadLinesFrom (map print_line ls) = map print_item (line_items ls)"
proof (induction ls)
  case (Cons l ls)
  let ?x = "case content l of None \<Rightarrow> [] | Some it \<Rightarrow> print_item it"
  let ?code = "before l @ ?x @ behind l"
  have ws: "\<forall>c \<in> set (before l). py_isspace c" "\<forall>c \<in> set (behind l). py_isspace c"
    and it: "\<And>it. content l = Some it \<Longrightarrow> wf_item it"
    using Cons.prems by (auto simp: wf_line_def split: option.splits)
  have "\<not> py_isspace (CHR ''#'')" by (simp add: char_defs)
  then have nh: "CHR ''#'' \<notin> set ?code"
    using ws it print_item_ends(4) by (auto split: option.splits)
  let ?cut = "if CHR ''#'' \<in> set (print_line l)
    then takeWhile (\<lambda>c. c \<noteq> CHR ''#'') (print_line l) else print_line l"
  have "takeWhile (\<lambda>c. c \<noteq> CHR ''#'') (?code @ CHR ''#'' # r) = ?code" for r
    using nh by (subst takeWhile_append2) auto
  then have "?cut = ?code" using nh by (auto simp: print_line_def split: option.splits)
  moreover have "py_strip ?code = ?x"
    using ws it print_item_ends by (intro strip_around) (auto split: option.splits)
  ultimately have "py_strip ?cut = ?x" by simp
  then have "ReadLinesFrom (map print_line (l # ls)) =
      (if ?x = [] then ReadLinesFrom (map print_line ls) else ?x # ReadLinesFrom (map print_line ls))"
    unfolding list.map ReadLinesFrom.simps Let_def by simp
  with Cons it print_item_ends(1) show ?case
    by (auto simp: line_items_def map_filter_simps split: option.splits)
qed (simp add: line_items_def map_filter_simps)

subsection \<open>Classification returns\<close>

definition classifiable :: "env \<Rightarrow> defs \<Rightarrow> section_rec list \<Rightarrow> string list list \<Rightarrow> bool" where
  "classifiable env defs sections cases \<longleftrightarrow>
     acyclic_defs defs \<and> defs_ok defs \<and>
     (\<forall>s \<in> set sections. \<exists>e. sec_condition s = Some e \<and> is_cond e) \<and>
     (\<forall>s \<in> set sections. \<forall>r \<in> set (sec_rules s). is_outcome (rl_value r) \<and>
        (\<forall>pat. Pattern pat \<in> set (rl_path r) \<longrightarrow> plain_pattern pat)) \<and>
     (\<forall>r \<in> set (active_rules env defs sections). \<forall>p \<in> set cases.
        rule_Contains r p = Inr True \<longrightarrow> (\<exists>x. outcome_of env defs (rl_value r) x))"

lemma match_all_total:
  "\<forall>pat. Pattern pat \<in> set ps \<longrightarrow> plain_pattern pat \<Longrightarrow> length ps \<le> length names \<Longrightarrow>
     \<exists>b. match_all ps names = Inr b"
proof (induction ps names rule: match_all.induct)
  case (3 p ps f fs)
  obtain pat where "p = Pattern pat" by (cases p)
  with 3 obtain b where "Pattern_match p f = Inr b" using Pattern_match_glob by auto
  with 3 show ?case by (cases b) auto
qed (auto intro: exI [of _ True])

lemma rule_Contains_total:
  "\<forall>pat. Pattern pat \<in> set (rl_path r) \<longrightarrow> plain_pattern pat \<Longrightarrow> \<exists>b. rule_Contains r p = Inr b"
  using match_all_total [of "rl_path r" p]
  by (cases "length (rl_path r) > length p") (auto simp: rule_Contains_def Path_Contains_def)

lemma matching_rules_total:
  "\<forall>r \<in> set rs. \<exists>b. rule_Contains (snd r) p = Inr b \<Longrightarrow> \<exists>ms. matching_rules rs p = Inr ms"
proof (induction rs)
  case (Cons r rs)
  then obtain b ms where "rule_Contains (snd r) p = Inr b" "matching_rules rs p = Inr ms" by auto
  then have "matching_rules (r # rs) p = Inr (if b then r # ms else ms)" by simp
  then show ?case by blast
qed simp

lemma collect_outcomes_total:
  "\<forall>r \<in> set rs. \<exists>elms. rule_GetOutcomes n env defs (snd r) = Inr elms \<Longrightarrow>
     \<exists>x. collect_outcomes n env defs rs outs un = Inr x"
  by (induction rs arbitrary: outs un) auto

lemma enabled_sections_total:
  "\<forall>s \<in> set ss. \<exists>b. eval_condition n env defs s = Inr b \<Longrightarrow>
     \<exists>secs. enabled_sections n env defs ss = Inr secs"
proof (induction ss)
  case (Cons s ss)
  then obtain b secs where "eval_condition n env defs s = Inr b"
    "enabled_sections n env defs ss = Inr secs" by auto
  then have "enabled_sections n env defs (s # ss) = Inr (if b then s # secs else secs)" by simp
  then show ?case by blast
qed simp

lemma classify_cases_total:
  assumes "\<forall>r \<in> set rules. \<forall>p \<in> set cases. \<exists>b. rule_Contains (snd r) p = Inr b"
    and "\<forall>r \<in> set rules. \<forall>p \<in> set cases. rule_Contains (snd r) p = Inr True \<longrightarrow>
      (\<exists>elms. rule_GetOutcomes n env defs (snd r) = Inr elms)"
  shows "\<exists>x. classify_cases n env defs rules cases result un outs = Inr x"
  using assms
proof (induction cases arbitrary: result un outs)
  case (Cons p cases)
  obtain ms where ms: "matching_rules rules p = Inr ms"
    using matching_rules_total Cons.prems(1) by fastforce
  then have "\<forall>r \<in> set ms. \<exists>elms. rule_GetOutcomes n env defs (snd r) = Inr elms"
    using matching_rules_filter [OF ms] Cons.prems(2) by auto
  then obtain x where "collect_outcomes n env defs ms {} un = Inr x"
    using collect_outcomes_total by blast
  with ms Cons show ?case by (auto simp: Let_def split: prod.splits)
qed simp

lemma ex_depth_all:
  assumes "\<And>x. x \<in> set xs \<Longrightarrow> \<exists>n :: nat. \<forall>m \<ge> n. P m x"
  shows "\<exists>n. \<forall>m \<ge> n. \<forall>x \<in> set xs. P m x"
  using assms
proof (induction xs)
  case (Cons x xs)
  then obtain n1 n2 where "\<forall>m \<ge> n1. P m x" "\<forall>m \<ge> n2. \<forall>x \<in> set xs. P m x" by fastforce
  then show ?case by (intro exI [of _ "max n1 n2"]) auto
qed simp

lemma rule_GetOutcomes_returns:
  assumes "acyclic_defs defs" "defs_ok defs" "is_outcome (rl_value r)" "outcome_of env defs (rl_value r) x"
  shows "\<exists>n. \<forall>m \<ge> n. \<exists>elms. rule_GetOutcomes m env defs r = Inr elms"
proof -
  obtain n s where s: "\<forall>m \<ge> n. GetOutcomes m env defs (rl_value r) = Inr s"
    using evaluation_returns [OF assms(1,2)] assms(3) by metis
  then have "GetOutcomes n env defs (rl_value r) = Inr s" by simp
  then have "s \<noteq> Everything" "s \<noteq> Nothing"
    using GetOutcomes_not_Everything evaluation_sound(2) [of n env defs "rl_value r" s x] assms(4) by auto
  then show ?thesis using s by (intro exI [of _ n]) (auto simp: rule_GetOutcomes_def split: pset.splits)
qed

lemma ClassifyTests_sound:
  assumes "ClassifyTests n sections defs cases env = Inr (result, unused, outs)"
  shows "result = map (\<lambda>p. \<lparr>cl_case = p,
        cl_outcomes = classified_as env defs (active_rules env defs sections) p\<rparr>) cases \<and>
    unused = {i. i < length (active_rules env defs sections) \<and>
      (\<forall>p \<in> set cases. rule_Contains (active_rules env defs sections ! i) p \<noteq> Inr True)} \<and>
    outs = (\<Union>p \<in> set cases. classified_as env defs (active_rules env defs sections) p)"
proof -
  obtain secs where secs: "enabled_sections n env defs sections = Inr secs"
    and c: "classify_cases n env defs (enumerate 0 (concat (map sec_rules secs))) cases []
      {0..<length (concat (map sec_rules secs))} {} = Inr (result, unused, outs)"
    using assms by (auto simp: ClassifyTests_def Let_def)
  have "concat (map sec_rules secs) = active_rules env defs sections"
    using enabled_sections_filter [OF secs] by (simp add: active_rules_def)
  with classify_cases_sound [OF c] show ?thesis by auto
qed

lemma ClassifyTests_returns:
  assumes "classifiable env defs sections cases"
  shows "\<exists>n. \<forall>m \<ge> n. \<exists>x. ClassifyTests m sections defs cases env = Inr x"
proof -
  let ?rules = "active_rules env defs sections"
  have ok: "acyclic_defs defs" "defs_ok defs"
    and sec: "\<And>s. s \<in> set sections \<Longrightarrow> \<exists>e. sec_condition s = Some e \<and> is_cond e"
    using assms by (auto simp: classifiable_def)
  have "\<exists>n. \<forall>m \<ge> n. \<exists>b. eval_condition m env defs s = Inr b" if s: "s \<in> set sections" for s
  proof -
    obtain e where "sec_condition s = Some e" "is_cond e" using sec [OF s] by blast
    then show ?thesis using evaluation_returns [OF ok, of e env] by (fastforce simp: eval_condition_def)
  qed
  then obtain n1 where n1: "\<forall>m \<ge> n1. \<forall>s \<in> set sections. \<exists>b. eval_condition m env defs s = Inr b"
    using ex_depth_all [of sections "\<lambda>m s. \<exists>b. eval_condition m env defs s = Inr b"] by blast
  have "\<exists>n. \<forall>m \<ge> n. (\<exists>x. outcome_of env defs (rl_value r) x) \<longrightarrow>
      (\<exists>elms. rule_GetOutcomes m env defs r = Inr elms)" if r: "r \<in> set ?rules" for r
  proof -
    have "is_outcome (rl_value r)" using r assms by (auto simp: classifiable_def active_rules_def)
    then show ?thesis using rule_GetOutcomes_returns [OF ok] by metis
  qed
  then obtain n2 where n2: "\<forall>m \<ge> n2. \<forall>r \<in> set ?rules. (\<exists>x. outcome_of env defs (rl_value r) x) \<longrightarrow>
      (\<exists>elms. rule_GetOutcomes m env defs r = Inr elms)"
    using ex_depth_all [of ?rules "\<lambda>m r. (\<exists>x. outcome_of env defs (rl_value r) x) \<longrightarrow>
      (\<exists>elms. rule_GetOutcomes m env defs r = Inr elms)"] by blast
  have total: "\<exists>b. rule_Contains r p = Inr b" if "r \<in> set ?rules" for r p
    using that assms by (intro rule_Contains_total) (auto simp: classifiable_def active_rules_def)
  have "\<exists>x. ClassifyTests m sections defs cases env = Inr x" if m: "m \<ge> max n1 n2" for m
  proof -
    obtain secs where secs: "enabled_sections m env defs sections = Inr secs"
      using enabled_sections_total n1 m by (metis max.bounded_iff)
    have rules: "concat (map sec_rules secs) = ?rules"
      using enabled_sections_filter [OF secs] by (simp add: active_rules_def)
    have mem: "snd ir \<in> set ?rules" if "ir \<in> set (enumerate 0 ?rules)" for ir
      using that set_zip_rightD [of "fst ir" "snd ir"] by (simp add: enumerate_eq_zip)
    have "\<exists>x. classify_cases m env defs (enumerate 0 ?rules) cases [] {0..<length ?rules} {} = Inr x"
    proof (rule classify_cases_total)
      show "\<forall>r \<in> set (enumerate 0 ?rules). \<forall>p \<in> set cases. \<exists>b. rule_Contains (snd r) p = Inr b"
        using mem total by blast
      show "\<forall>r \<in> set (enumerate 0 ?rules). \<forall>p \<in> set cases. rule_Contains (snd r) p = Inr True \<longrightarrow>
          (\<exists>elms. rule_GetOutcomes m env defs (snd r) = Inr elms)"
        using mem n2 m assms unfolding classifiable_def by (meson max.bounded_iff)
    qed
    then show ?thesis unfolding ClassifyTests_def secs by (simp add: rules Let_def)
  qed
  then show ?thesis by blast
qed

subsection \<open>Properties\<close>

text \<open>A status file that is written line by line, with white space and comments wherever the
  language has them, is read back: every section, rule, definition and prefix line has its effect in
  order, and the reader reports success.\<close>

theorem ReadConfigurationInto_print:
  assumes "\<forall>l \<in> set ls. wf_line l"
  shows "ReadConfigurationInto (map print_line ls) sections defs =
    (case fold apply_item (line_items ls)
       ([], sections @ [\<lparr>sec_condition = Some (Constant True), sec_rules = []\<rparr>], defs) of
       (prefix, sections, defs) \<Rightarrow> Inr (True, sections, defs))"
  unfolding ReadConfigurationInto_def ReadLinesFrom_print [OF assms]
proof (rule read_items)
  show "\<forall>it \<in> set (line_items ls). wf_item it"
    using assms unfolding line_items_def List.map_filter_def wf_line_def
    by (auto split: option.splits)
qed

theorem ReadConfigurationInto_print_witness:
  "ReadConfigurationInto
     [''prefix simple  # all of them'', [], ''[( $ mode == debug )]'', ''  test-*: ( pass , fail )'']
     [] Map.empty =
   Inr (True,
     [\<lparr>sec_condition = Some (Constant True), sec_rules = []\<rparr>,
      \<lparr>sec_condition = Some (Operation (Variable ''mode'') ''=='' (Outcome ''debug'')),
       sec_rules = [\<lparr>raw_path = ''test-*'', rl_path = [Pattern ''simple'', Pattern ''test-*''],
         rl_value = Operation (Outcome ''pass'') '','' (Outcome ''fail'')\<rparr>]\<rparr>], Map.empty)"
proof -
  let ?ls = "[\<lparr>before = [], content = Some (PrefixLine ''simple''), behind = ''  '',
      remark = Some '' all of them''\<rparr>,
    \<lparr>before = [], content = None, behind = [], remark = None\<rparr>,
    \<lparr>before = [], content = Some (Header (Operation (Variable ''mode'') ''=='' (Outcome ''debug''))),
      behind = [], remark = None\<rparr>,
    \<lparr>before = ''  '', content = Some (RuleLine ''test-*'' (Operation (Outcome ''pass'') '','' (Outcome ''fail''))),
      behind = [], remark = None\<rparr>]"
  have wf: "\<forall>l \<in> set ?ls. wf_line l"
    by (simp add: wf_line_def path_char_def expr_ops_def BINARIES_def LOGICALS_def IsAlpha_def py_lower_def py_lower_char_def char_defs)
  have pr: "map print_line ?ls =
      [''prefix simple  # all of them'', [], ''[( $ mode == debug )]'', ''  test-*: ( pass , fail )'']"
    by (simp add: print_line_def unparse_def)
  have sp: "SplitPath ''simple'' = [Pattern ''simple'']" "SplitPath ''test-*'' = [Pattern ''test-*'']"
    by (simp_all add: SplitPath_def py_str char_defs)
  show ?thesis
    using ReadConfigurationInto_print [OF wf, of "[]" Map.empty] unfolding pr
    by (simp add: line_items_def map_filter_simps sp add_to_last_def AddRule_def)
qed

text \<open>A pattern of a status file matches a path component exactly when it does as a glob, or
  when the component has one more newline at its end, which \<open>$\<close> lets through.\<close>

theorem patterns_are_globs:
  "plain_pattern pat \<Longrightarrow> Pattern_match (Pattern pat) str =
     Inr (glob pat str \<or> (str \<noteq> [] \<and> last str = CHR 0x0A \<and> glob pat (butlast str)))"
  by (rule Pattern_match_glob)

theorem patterns_are_globs_witness:
  "Pattern_match (Pattern ''test-*.js'') ''test-net.js'' = Inr True \<and>
   Pattern_match (Pattern ''test-*.js'') ''test-net.py'' = Inr False"
proof -
  have "plain_pattern ''test-*.js''" by (simp add: plain_pattern_def rx_meta_def)
  then show ?thesis by (simp add: patterns_are_globs)
qed

text \<open>C40: on well-formed status files the classification returns: each test gets the outcomes of
  all rules of the enabled sections that match its path, or \<open>pass\<close> when there are none; the unused
  rules are those that match no test; and the set of outcomes is the union over the tests.\<close>

theorem ClassifyTests_correct:
  assumes "classifiable env defs sections cases"
  shows "\<exists>n. \<forall>m \<ge> n. ClassifyTests m sections defs cases env =
    Inr (map (\<lambda>p. \<lparr>cl_case = p,
          cl_outcomes = classified_as env defs (active_rules env defs sections) p\<rparr>) cases,
      {i. i < length (active_rules env defs sections) \<and>
        (\<forall>p \<in> set cases. rule_Contains (active_rules env defs sections ! i) p \<noteq> Inr True)},
      \<Union>p \<in> set cases. classified_as env defs (active_rules env defs sections) p)"
proof -
  obtain n where n: "\<forall>m \<ge> n. \<exists>x. ClassifyTests m sections defs cases env = Inr x"
    using ClassifyTests_returns [OF assms] by blast
  show ?thesis
  proof (intro exI [of _ n] allI impI)
    fix m assume "n \<le> m"
    with n obtain result unused outs where
      "ClassifyTests m sections defs cases env = Inr (result, unused, outs)" by (metis prod_cases3)
    from this ClassifyTests_sound [OF this] show "ClassifyTests m sections defs cases env =
      Inr (map (\<lambda>p. \<lparr>cl_case = p,
          cl_outcomes = classified_as env defs (active_rules env defs sections) p\<rparr>) cases,
        {i. i < length (active_rules env defs sections) \<and>
          (\<forall>p \<in> set cases. rule_Contains (active_rules env defs sections ! i) p \<noteq> Inr True)},
        \<Union>p \<in> set cases. classified_as env defs (active_rules env defs sections) p)" by simp
  qed
qed

theorem ClassifyTests_correct_witness:
  "\<exists>n. \<forall>m \<ge> n. ClassifyTests m
     [\<lparr>sec_condition = Some (Constant True), sec_rules =
       [\<lparr>raw_path = ''a'', rl_path = [Pattern ''a''], rl_value = Outcome ''fail''\<rparr>,
        \<lparr>raw_path = ''c'', rl_path = [Pattern ''c''], rl_value = Outcome ''crash''\<rparr>]\<rparr>]
     Map.empty [[''a''], [''b'']] Map.empty =
   Inr ([\<lparr>cl_case = [''a''], cl_outcomes = {''fail''}\<rparr>, \<lparr>cl_case = [''b''], cl_outcomes = {''pass''}\<rparr>],
     {1}, {''pass'', ''fail''})"
proof -
  let ?r0 = "\<lparr>raw_path = ''a'', rl_path = [Pattern ''a''], rl_value = Outcome ''fail''\<rparr>"
  let ?r1 = "\<lparr>raw_path = ''c'', rl_path = [Pattern ''c''], rl_value = Outcome ''crash''\<rparr>"
  let ?secs = "[\<lparr>sec_condition = Some (Constant True), sec_rules = [?r0, ?r1]\<rparr>]"
  have pl: "plain_pattern ''a''" "plain_pattern ''c''" by (simp_all add: plain_pattern_def rx_meta_def)
  have act: "active_rules Map.empty Map.empty ?secs = [?r0, ?r1]"
    by (simp add: active_rules_def enabled_def)
  have con: "rule_Contains ?r0 [''a''] = Inr True" "rule_Contains ?r0 [''b''] = Inr False"
    "rule_Contains ?r1 [''a''] = Inr False" "rule_Contains ?r1 [''b''] = Inr False"
    by (simp_all add: rule_Contains_def Path_Contains_def Pattern_match_glob pl)
  have "classifiable Map.empty Map.empty ?secs [[''a''], [''b'']]"
    unfolding classifiable_def act using pl by (auto simp: acyclic_defs_def defs_ok_def)
  from ClassifyTests_correct [OF this] obtain n where n: "\<forall>m \<ge> n.
    ClassifyTests m ?secs Map.empty [[''a''], [''b'']] Map.empty =
    Inr (map (\<lambda>p. \<lparr>cl_case = p, cl_outcomes = classified_as Map.empty Map.empty [?r0, ?r1] p\<rparr>) [[''a''], [''b'']],
      {i. i < length [?r0, ?r1] \<and> (\<forall>p \<in> set [[''a''], [''b'']]. rule_Contains ([?r0, ?r1] ! i) p \<noteq> Inr True)},
      \<Union>p \<in> set [[''a''], [''b'']]. classified_as Map.empty Map.empty [?r0, ?r1] p)"
    unfolding act by blast
  have cl: "classified_as Map.empty Map.empty [?r0, ?r1] [''a''] = {''fail''}"
    "classified_as Map.empty Map.empty [?r0, ?r1] [''b''] = {''pass''}"
    by (simp_all add: classified_as_def con PASS_def Let_def)
  have un: "{i. i < length [?r0, ?r1] \<and> (\<forall>p \<in> set [[''a''], [''b'']]. rule_Contains ([?r0, ?r1] ! i) p \<noteq> Inr True)} = {1}"
    by (auto simp: less_Suc_eq con)
  show ?thesis using n unfolding un by (simp add: cl insert_commute) blast
qed

text \<open>A rule \<open>v if c\<close> that matches a test while its condition is false gives \<open>Nothing\<close>, which
  is not a \<open>ListSet\<close>: the assertion in \<open>Rule.GetOutcomes\<close> stops the whole classification.\<close>

theorem ClassifyTests_false_condition:
  assumes "Evaluate n env defs c = Inr False"
    and "rl_value r = Operation v ''if'' c" and "rule_Contains r p = Inr True"
  shows "ClassifyTests (Suc n) [\<lparr>sec_condition = Some (Constant True), sec_rules = [r]\<rparr>] defs (p # ps) env =
    Inl AssertionError"
  using assms by (simp add: ClassifyTests_def eval_condition_def rule_GetOutcomes_def)

theorem ClassifyTests_false_condition_witness:
  "ClassifyTests 3 [\<lparr>sec_condition = Some (Constant True), sec_rules =
       [\<lparr>raw_path = ''a'', rl_path = [Pattern ''a''], rl_value =
          Operation (Outcome ''fail'') ''if'' (Operation (Variable ''mode'') ''=='' (Outcome ''debug''))\<rparr>]\<rparr>]
     Map.empty [[''a'']] Map.empty = Inl AssertionError"
proof -
  have "plain_pattern ''a''" by (simp add: plain_pattern_def rx_meta_def)
  then show ?thesis
    using ClassifyTests_false_condition [of 2 Map.empty Map.empty
        "Operation (Variable ''mode'') ''=='' (Outcome ''debug'')"
        "\<lparr>raw_path = ''a'', rl_path = [Pattern ''a''], rl_value =
          Operation (Outcome ''fail'') ''if'' (Operation (Variable ''mode'') ''=='' (Outcome ''debug''))\<rparr>"
        "Outcome ''fail''" "[''a'']" "[]"]
    by (simp add: rule_Contains_def Path_Contains_def Pattern_match_glob numeral_eq_Suc)
qed

text \<open>A section header whose condition does not parse is accepted: the reader goes on and the
  section stays with the condition \<open>None\<close>, so that a later classification raises an
  \<open>AttributeError\<close>, whatever the tests are.\<close>

theorem unparsable_header:
  assumes "c \<noteq> []" "CHR '']'' \<notin> set c" "ParseCondition (py_strip c) = Inr None"
  shows "read_lines ((''['' @ c @ '']'') # lines) prefix sections defs =
      read_lines lines prefix (sections @ [\<lparr>sec_condition = None, sec_rules = []\<rparr>]) defs \<and>
    ClassifyTests (Suc n) (\<lparr>sec_condition = Some (Constant True), sec_rules = rs\<rparr> #
      \<lparr>sec_condition = None, sec_rules = rs'\<rparr> # secs) defs cases env = Inl AttributeError"
proof -
  obtain m where "re_match HEADER_PATTERN (''['' @ c @ '']'') = Some m"
    "re_group (''['' @ c @ '']'') m 1 = c" using header_match [OF assms(1,2)] by blast
  then show ?thesis using assms(3) by (simp add: ClassifyTests_def eval_condition_def)
qed

theorem unparsable_header_witness:
  "read_lines [''[%]''] [] [\<lparr>sec_condition = Some (Constant True), sec_rules = []\<rparr>] Map.empty =
   Inr (True, [\<lparr>sec_condition = Some (Constant True), sec_rules = []\<rparr>,
     \<lparr>sec_condition = None, sec_rules = []\<rparr>], Map.empty)"
proof -
  have "ParseCondition (py_strip ''%'') = Inr None" by code_simp
  then show ?thesis
    using unparsable_header [of "''%''" "[]" "[]" "[\<lparr>sec_condition = Some (Constant True), sec_rules = []\<rparr>]"
        Map.empty] by simp
qed

end
