(* ===== verification/TestRunner.thy ===== *)
theory TestRunner
  imports TestExpr "HOL-Library.Multiset"
begin

section \<open>Running tests: outputs, progress indicators and worker threads\<close>

text \<open>
  \<open>src/tools/test.py\<close>, lines 56 to 427: what the result of a test is, what the progress indicators
  print, and \<open>ProgressIndicator.Run\<close>, in which several threads take tests from one queue.

  Overridden methods are parameters: \<open>isf\<close> is \<open>IsFailureOutput\<close> of the test's class and
  \<open>tc_negative\<close> what its \<open>IsNegative\<close> returns; \<open>system\<close> is \<open>platform.system()\<close>. What an indicator
  prints is a list of events. The threads interleave at the steps of \<open>thread_step\<close>: reading the
  flag \<open>terminate\<close>, taking a test from the queue, acquiring the lock, the body of a critical
  section with the release, and running a test, whose result is an input of the step.
\<close>

subsection \<open>The platform\<close>

definition GuessOS :: "string \<Rightarrow> string option" where
  "GuessOS sysid =
     (if sysid = ''Linux'' then Some ''linux''
      else if sysid = ''Darwin'' then Some ''macos''
      else if find_sub ''CYGWIN'' sysid \<noteq> None then Some ''cygwin''
      else if sysid = ''Windows'' \<or> sysid = ''Microsoft'' then Some ''win32''
      else if sysid = ''FreeBSD'' then Some ''freebsd''
      else if sysid = ''OpenBSD'' then Some ''openbsd''
      else if sysid = ''SunOS'' then Some ''solaris''
      else None)"

definition IsWindows :: "string \<Rightarrow> bool" where
  "IsWindows system \<longleftrightarrow> GuessOS system = Some ''win32''"

subsection \<open>Test cases and their output\<close>

record command_output =
  exit_code :: int
  timed_out :: bool
  co_stdout :: string
  co_stderr :: string
  co_failed :: "bool option"

definition CommandOutput :: "int \<Rightarrow> bool \<Rightarrow> string \<Rightarrow> string \<Rightarrow> command_output" where
  "CommandOutput exit timeout out err =
     \<lparr>exit_code = exit, timed_out = timeout, co_stdout = out, co_stderr = err, co_failed = None\<rparr>"

record test_case =
  tc_path :: "string list"
  tc_mode :: string
  tc_label :: string
  tc_negative :: bool
  tc_outcomes :: "string set"

record test_output =
  to_test :: test_case
  to_command :: "string list"
  to_output :: command_output
  to_store_unexpected :: bool

type_synonym is_failure = "test_case \<Rightarrow> command_output \<Rightarrow> bool"

definition IsFailureOutput :: is_failure where
  "IsFailureOutput self output \<longleftrightarrow> exit_code output \<noteq> 0"

definition DidFail :: "is_failure \<Rightarrow> test_case \<Rightarrow> command_output \<Rightarrow> bool \<times> command_output" where
  "DidFail isf self output =
     (case co_failed output of
        None \<Rightarrow> let f = isf self output in (f, output\<lparr>co_failed := Some f\<rparr>)
      | Some f \<Rightarrow> (f, output))"

definition SIGABRT :: int where "SIGABRT = 6"

unbundle bit_operations_syntax

definition HasCrashed :: "string \<Rightarrow> test_output \<Rightarrow> bool" where
  "HasCrashed system out =
     (if IsWindows system then
        0x80000000 AND exit_code (to_output out) \<noteq> 0 \<and> \<not> (0x3FFFFF00 AND exit_code (to_output out)) \<noteq> 0
      else if timed_out (to_output out) then False
      else exit_code (to_output out) < 0 \<and> exit_code (to_output out) \<noteq> - SIGABRT)"

definition HasTimedOut :: "test_output \<Rightarrow> bool" where
  "HasTimedOut out = timed_out (to_output out)"

definition HasFailed :: "is_failure \<Rightarrow> test_output \<Rightarrow> bool \<times> test_output" where
  "HasFailed isf out =
     (let (execution_failed, o') = DidFail isf (to_test out) (to_output out);
          out' = out\<lparr>to_output := o'\<rparr>
      in if tc_negative (to_test out) then (\<not> execution_failed, out') else (execution_failed, out'))"

definition UnexpectedOutput :: "is_failure \<Rightarrow> string \<Rightarrow> test_output \<Rightarrow> bool \<times> test_output" where
  "UnexpectedOutput isf system out =
     (let (outcome, out') =
        (if HasCrashed system out then (CRASH, out)
         else if HasTimedOut out then (TIMEOUT, out)
         else let (f, out') = HasFailed isf out in if f then (FAIL, out') else (PASS, out'))
      in (outcome \<notin> tc_outcomes (to_test out), out'))"

definition HasPreciousOutput :: "is_failure \<Rightarrow> string \<Rightarrow> test_output \<Rightarrow> bool \<times> test_output" where
  "HasPreciousOutput isf system out =
     (let (u, out') = UnexpectedOutput isf system out in (u \<and> to_store_unexpected out', out'))"

text \<open>\<open>TestCase.Run\<close>: the \<open>finally\<close> clause reads \<open>result\<close>, which is not bound when \<open>RunCommand\<close>
  raises. The arguments are what the three calls do; \<open>after\<close> is \<open>AfterRun\<close>.\<close>

definition TestCase_Run :: "unit res \<Rightarrow> 'o res \<Rightarrow> ('o \<Rightarrow> unit res) \<Rightarrow> 'o res" where
  "TestCase_Run before command after =
     rbind before (\<lambda>_.
       case command of
         Inr result \<Rightarrow> rbind (after result) (\<lambda>_. Inr result)
       | Inl e \<Rightarrow> Inl UnboundLocalError)"

subsection \<open>What the indicators print\<close>

datatype event =
    Print string      \<comment> \<open>\<open>print x\<close>\<close>
  | PrintNoNl string  \<comment> \<open>\<open>print x,\<close>\<close>
  | Write string      \<comment> \<open>\<open>sys.stdout.write(x)\<close>\<close>

definition EscapeCommand :: "string list \<Rightarrow> string" where
  "EscapeCommand command =
     py_join '' '' (map (\<lambda>part. if CHR '' '' \<in> set part then [CHR 0x22] @ part @ [CHR 0x22] else part) command)"

definition PrintFailureHeader :: "test_case \<Rightarrow> event list" where
  "PrintFailureHeader t =
     [Print (''=== '' @ tc_label t @ '' '' @ (if tc_negative t then ''[negative] '' else []) @ ''===''),
      Print (''Path: '' @ py_join ''/'' (tc_path t))]"

definition Truncate :: "string \<Rightarrow> nat \<Rightarrow> string" where
  "Truncate str len =
     (if len \<noteq> 0 \<and> int (length str) > int len - 3
      then (if len \<ge> 3 then take (len - 3) str else take (length str - (3 - len)) str) @ ''...''
      else str)"

text \<open>\<open>%02i\<close> and \<open>% 4d\<close> on a number that is not negative.\<close>

definition fmt_02i :: "nat \<Rightarrow> string" where
  "fmt_02i n = (let s = py_str_nat n in replicate (2 - length s) (CHR ''0'') @ s)"

definition fmt_sp4d :: "nat \<Rightarrow> string" where
  "fmt_sp4d n = (let s = CHR '' '' # py_str_nat n in replicate (4 - length s) (CHR '' '') @ s)"

datatype progress_kind = Verbose | Dots | Color | Mono

definition esc :: string where "esc = [CHR 0x1B]"

definition ClearLine :: "progress_kind \<Rightarrow> nat \<Rightarrow> event list" where
  "ClearLine kind last_line_length =
     (if kind = Color then [PrintNoNl (esc @ ''[1K'' @ [CHR 0x0D])]
      else [PrintNoNl ([CHR 0x0D] @ replicate last_line_length (CHR '' '') @ [CHR 0x0D])])"

definition status_line :: "progress_kind \<Rightarrow> nat \<Rightarrow> nat \<Rightarrow> nat \<Rightarrow> nat \<Rightarrow> nat \<Rightarrow> string \<Rightarrow> string" where
  "status_line kind mins secs rem passed fails test =
     (let col = (\<lambda>code s. if kind = Color then esc @ ''['' @ code @ ''m'' @ s @ esc @ ''[0m'' else s)
      in ''['' @ fmt_02i mins @ '':'' @ fmt_02i secs @ ''|'' @ col ''34'' (''%'' @ fmt_sp4d rem) @ ''|'' @
         col ''32'' (''+'' @ fmt_sp4d passed) @ ''|'' @ col ''31'' (''-'' @ fmt_sp4d fails) @ '']: '' @ test)"

definition template_out :: "progress_kind \<Rightarrow> string \<Rightarrow> string" where
  "template_out kind s = (if kind = Color then esc @ ''[1m'' @ s @ esc @ ''[0m'' else s)"

definition template_err :: "progress_kind \<Rightarrow> string \<Rightarrow> string" where
  "template_err kind s = (if kind = Color then esc @ ''[31m'' @ s @ esc @ ''[0m'' else s)"

subsection \<open>The state of an indicator\<close>

text \<open>Where a thread is in \<open>RunSingle\<close>. \<open>Joining\<close> and \<open>MainDone\<close> are the rest of \<open>Run\<close>, which only
  the main thread executes.\<close>

datatype pc =
    Top                            \<comment> \<open>before \<open>while not self.terminate\<close>\<close>
  | Get                            \<comment> \<open>before \<open>get_nowait\<close>\<close>
  | WantStart test_case            \<comment> \<open>before the first \<open>acquire\<close>\<close>
  | Starting test_case             \<comment> \<open>in the first critical section\<close>
  | Running test_case
  | Ran test_output                \<comment> \<open>before \<open>if self.terminate\<close>\<close>
  | WantFinish test_output         \<comment> \<open>before the second \<open>acquire\<close>\<close>
  | Finishing test_output          \<comment> \<open>in the second critical section\<close>
  | Finished                       \<comment> \<open>\<open>RunSingle\<close> returned\<close>
  | Raised py_error
  | Joining nat
  | MainDone bool

record progress =
  queue :: "test_case list"
  succeeded :: nat
  remaining :: int
  total :: nat
  failed :: "test_output list"
  crashed :: nat
  terminate :: bool
  lock :: "nat option"
  pcs :: "pc list"

record indicator = progress +
  cases :: "test_case list"
  last_status_length :: nat
  printed :: "event list"

definition ProgressIndicator :: "test_case list \<Rightarrow> nat \<Rightarrow> indicator" where
  "ProgressIndicator cs tasks =
     \<lparr>queue = cs, succeeded = 0, remaining = int (length cs), total = length cs, failed = [],
      crashed = 0, terminate = False, lock = None, pcs = replicate (max 1 tasks) Top,
      cases = cs, last_status_length = 0, printed = []\<rparr>"

definition emit :: "event list \<Rightarrow> indicator \<Rightarrow> indicator" where
  "emit es s = s\<lparr>printed := printed s @ es\<rparr>"

text \<open>\<open>elapsed\<close> is \<open>int(time.time() - self.start_time)\<close>. The division by \<open>self.total\<close> raises when there
  are no cases; \<open>AboutToRun\<close> is only called with a case, and \<open>DoneRun\<close> has the raise.\<close>

definition PrintProgress :: "progress_kind \<Rightarrow> nat \<Rightarrow> string \<Rightarrow> indicator \<Rightarrow> indicator" where
  "PrintProgress kind elapsed name s =
     (let status = status_line kind (elapsed div 60) (elapsed mod 60)
            (nat ((int (total s) - remaining s) * 100 div int (total s)))
            (succeeded s) (length (failed s)) name;
          status = Truncate status 78
      in (emit (ClearLine kind (last_status_length s) @ [PrintNoNl status]) s)
           \<lparr>last_status_length := length status\<rparr>)"

definition failure_notes :: "string \<Rightarrow> test_output \<Rightarrow> event list" where
  "failure_notes system out =
     [Print (''Command: '' @ EscapeCommand (to_command out))] @
     (if HasCrashed system out then [Print ''--- CRASHED ---''] else []) @
     (if HasTimedOut out then [Print ''--- TIMEOUT ---''] else [])"

definition StartingRun :: "progress_kind \<Rightarrow> indicator \<Rightarrow> indicator" where
  "StartingRun kind s =
     (if kind = Verbose \<or> kind = Dots
      then emit [Print (''Running '' @ py_str_nat (length (cases s)) @ '' tests'')] s
      else s)"

definition AboutToRun :: "progress_kind \<Rightarrow> nat \<Rightarrow> test_case \<Rightarrow> indicator \<Rightarrow> indicator" where
  "AboutToRun kind elapsed t s =
     (case kind of
        Verbose \<Rightarrow> emit [Print (''Starting '' @ tc_label t @ ''...'')] s
      | Dots \<Rightarrow> s
      | _ \<Rightarrow> PrintProgress kind elapsed (tc_label t) s)"

definition HasRun :: "is_failure \<Rightarrow> string \<Rightarrow> progress_kind \<Rightarrow> test_output \<Rightarrow> indicator \<Rightarrow> indicator" where
  "HasRun isf system kind out s =
     (let unexpected = fst (UnexpectedOutput isf system out) in
      case kind of
        Verbose \<Rightarrow>
          emit [Print (''Done running '' @ tc_label (to_test out) @ '': '' @
            (if unexpected then if HasCrashed system out then ''CRASH'' else ''FAIL'' else ''pass''))] s
      | Dots \<Rightarrow>
          let tot = succeeded s + length (failed s) in
          emit ((if tot > 1 \<and> tot mod 50 = 1 then [Write [CHR 0x0A]] else []) @
            [Write (if unexpected then
                      if HasCrashed system out then ''C'' else if HasTimedOut out then ''T'' else ''F''
                    else ''.'')]) s
      | _ \<Rightarrow>
          if unexpected then
            let out_s = py_strip (co_stdout (to_output out)); err_s = py_strip (co_stderr (to_output out))
            in emit (ClearLine kind (last_status_length s) @ PrintFailureHeader (to_test out) @
                 (if out_s \<noteq> [] then [Print (template_out kind out_s)] else []) @
                 (if err_s \<noteq> [] then [Print (template_err kind err_s)] else []) @
                 failure_notes system out) s
          else s)"

definition simple_summary :: "indicator \<Rightarrow> event list" where
  "simple_summary s =
     (if length (failed s) = 0 then [Print ''==='', Print ''=== All tests succeeded'', Print ''==='']
      else [Print [], Print ''==='', Print (''=== '' @ py_str_nat (length (failed s)) @ '' tests failed'')] @
        (if crashed s > 0 then [Print (''=== '' @ py_str_nat (crashed s) @ '' tests CRASHED'')] else []) @
        [Print ''===''])"

definition simple_failure :: "string \<Rightarrow> test_output \<Rightarrow> event list" where
  "simple_failure system out =
     PrintFailureHeader (to_test out) @
     (if co_stderr (to_output out) \<noteq> []
      then [Print ''--- stderr ---'', Print (py_strip (co_stderr (to_output out)))] else []) @
     (if co_stdout (to_output out) \<noteq> []
      then [Print ''--- stdout ---'', Print (py_strip (co_stdout (to_output out)))] else []) @
     failure_notes system out"

definition DoneRun :: "string \<Rightarrow> progress_kind \<Rightarrow> nat \<Rightarrow> indicator \<Rightarrow> indicator res" where
  "DoneRun system kind elapsed s =
     (if kind = Verbose \<or> kind = Dots
      then Inr (emit ([Print []] @ concat (map (simple_failure system) (failed s)) @ simple_summary s) s)
      else if total s = 0 then Inl ZeroDivisionError
      else Inr (PrintProgress kind elapsed ''Done'' s))"

subsection \<open>The steps of the threads\<close>

definition goto :: "nat \<Rightarrow> pc \<Rightarrow> 'a progress_scheme \<Rightarrow> 'a progress_scheme" where
  "goto i p s = s\<lparr>pcs := (pcs s)[i := p]\<rparr>"

text \<open>The end of \<open>RunSingle\<close>: a worker thread ends, the main thread goes on to join the others. An
  exception ends a worker thread, with a message on stderr; in the main thread it sets
  \<open>terminate\<close> and leaves \<open>Run\<close>.\<close>

definition leave :: "nat \<Rightarrow> 'a progress_scheme \<Rightarrow> 'a progress_scheme" where
  "leave i s = goto i (if i = 0 then Joining 1 else Finished) s"

definition raise_in :: "nat \<Rightarrow> py_error \<Rightarrow> 'a progress_scheme \<Rightarrow> 'a progress_scheme" where
  "raise_in i e s = (if i = 0 then (goto i (Raised e) s)\<lparr>terminate := True\<rparr> else goto i (Raised e) s)"

fun ended :: "pc \<Rightarrow> bool" where
  "ended Finished = True"
| "ended (Raised e) = True"
| "ended (MainDone b) = True"
| "ended _ = False"

definition account ::
  "is_failure \<Rightarrow> string \<Rightarrow> test_output \<Rightarrow> 'a progress_scheme \<Rightarrow> test_output \<times> 'a progress_scheme" where
  "account isf system out s =
     (let (unexpected, out) = UnexpectedOutput isf system out;
          s = (if unexpected then
                 s\<lparr>failed := failed s @ [out],
                   crashed := crashed s + (if HasCrashed system out then 1 else 0)\<rparr>
               else s\<lparr>succeeded := succeeded s + 1\<rparr>)
      in (out, s\<lparr>remaining := remaining s - 1\<rparr>))"

definition thread_step ::
  "(nat \<Rightarrow> test_case \<Rightarrow> indicator \<Rightarrow> indicator) \<Rightarrow> (test_output \<Rightarrow> indicator \<Rightarrow> indicator) \<Rightarrow>
   (nat \<Rightarrow> indicator \<Rightarrow> indicator res) \<Rightarrow> is_failure \<Rightarrow> string \<Rightarrow>
   nat \<Rightarrow> test_output res \<Rightarrow> nat \<Rightarrow> indicator \<Rightarrow> indicator option" where
  "thread_step about has_run done_run isf system elapsed result i s =
     (case pcs s ! i of
        Top \<Rightarrow> Some (if terminate s then leave i s else goto i Get s)
      | Get \<Rightarrow>
          (case queue s of
             [] \<Rightarrow> Some (leave i s)
           | t # ts \<Rightarrow> Some (goto i (WantStart t) (s\<lparr>queue := ts\<rparr>)))
      | WantStart t \<Rightarrow>
          (if lock s = None then Some (goto i (Starting t) (s\<lparr>lock := Some i\<rparr>)) else None)
      | Starting t \<Rightarrow> Some (goto i (Running t) ((about elapsed t s)\<lparr>lock := None\<rparr>))
      | Running t \<Rightarrow>
          (case result of
             Inr out \<Rightarrow> if to_test out = t then Some (goto i (Ran out) s) else None
           | Inl IOError \<Rightarrow> Some (if terminate s then leave i s else raise_in i AssertionError s)
           | Inl e \<Rightarrow> Some (raise_in i e s))
      | Ran out \<Rightarrow> Some (if terminate s then leave i s else goto i (WantFinish out) s)
      | WantFinish out \<Rightarrow>
          (if lock s = None then Some (goto i (Finishing out) (s\<lparr>lock := Some i\<rparr>)) else None)
      | Finishing out \<Rightarrow>
          (let (out, s) = account isf system out s
           in Some (goto i Top ((has_run out s)\<lparr>lock := None\<rparr>)))
      | Joining k \<Rightarrow>
          (if k \<ge> length (pcs s) then
             (case done_run elapsed s of
                Inr s \<Rightarrow> Some (goto i (MainDone (failed s = [])) s)
              | Inl e \<Rightarrow> Some (goto i (Raised e) s))
           else if ended (pcs s ! k) then Some (goto i (Joining (Suc k)) s)
           else None)
      | Finished \<Rightarrow> None
      | Raised e \<Rightarrow> None
      | MainDone b \<Rightarrow> None)"

text \<open>An execution of \<open>Run\<close>: steps of any thread in any order, with any results of the tests. The log
  lists the outputs that were accounted for, in order.\<close>

inductive execution ::
  "(nat \<Rightarrow> test_case \<Rightarrow> indicator \<Rightarrow> indicator) \<Rightarrow> (test_output \<Rightarrow> indicator \<Rightarrow> indicator) \<Rightarrow>
   (nat \<Rightarrow> indicator \<Rightarrow> indicator res) \<Rightarrow> is_failure \<Rightarrow> string \<Rightarrow>
   indicator \<Rightarrow> nat \<Rightarrow> test_output list \<Rightarrow> indicator \<Rightarrow> bool"
  for about has_run done_run isf system s0 where
  start: "execution about has_run done_run isf system s0 0 [] s0"
| more: "execution about has_run done_run isf system s0 n log s \<Longrightarrow> i < length (pcs s) \<Longrightarrow>
    thread_step about has_run done_run isf system elapsed result i s = Some s' \<Longrightarrow>
    execution about has_run done_run isf system s0 (Suc n)
      (log @ (case pcs s ! i of Finishing out \<Rightarrow> [out] | _ \<Rightarrow> [])) s'"

definition indicator_execution ::
  "progress_kind \<Rightarrow> is_failure \<Rightarrow> string \<Rightarrow> test_case list \<Rightarrow> nat \<Rightarrow> nat \<Rightarrow> test_output list \<Rightarrow> indicator \<Rightarrow> bool"
where
  "indicator_execution kind isf system cs tasks =
     execution (AboutToRun kind) (HasRun isf system kind) (DoneRun system kind) isf system
       (StartingRun kind (ProgressIndicator cs tasks))"

subsection \<open>The steps on the shared state\<close>

text \<open>What a step does to the fields of \<open>ProgressIndicator\<close>, one rule per line of \<open>RunSingle\<close> and
  \<open>Run\<close> that may be interleaved.\<close>

inductive cstep :: "is_failure \<Rightarrow> string \<Rightarrow> nat \<Rightarrow> progress \<Rightarrow> progress \<Rightarrow> bool"
  for isf system i s where
  top_stop: "pcs s ! i = Top \<Longrightarrow> terminate s \<Longrightarrow> cstep isf system i s (leave i s)"
| top_go: "pcs s ! i = Top \<Longrightarrow> \<not> terminate s \<Longrightarrow> cstep isf system i s (goto i Get s)"
| get_empty: "pcs s ! i = Get \<Longrightarrow> queue s = [] \<Longrightarrow> cstep isf system i s (leave i s)"
| get_test: "pcs s ! i = Get \<Longrightarrow> queue s = t # ts \<Longrightarrow>
    cstep isf system i s (goto i (WantStart t) (s\<lparr>queue := ts\<rparr>))"
| acquire1: "pcs s ! i = WantStart t \<Longrightarrow> lock s = None \<Longrightarrow>
    cstep isf system i s (goto i (Starting t) (s\<lparr>lock := Some i\<rparr>))"
| release1: "pcs s ! i = Starting t \<Longrightarrow> cstep isf system i s (goto i (Running t) (s\<lparr>lock := None\<rparr>))"
| run_ok: "pcs s ! i = Running t \<Longrightarrow> to_test out = t \<Longrightarrow> cstep isf system i s (goto i (Ran out) s)"
| run_io: "pcs s ! i = Running t \<Longrightarrow> terminate s \<Longrightarrow> cstep isf system i s (leave i s)"
| run_raise: "pcs s ! i = Running t \<Longrightarrow> cstep isf system i s (raise_in i e s)"
| ran_stop: "pcs s ! i = Ran out \<Longrightarrow> terminate s \<Longrightarrow> cstep isf system i s (leave i s)"
| ran_go: "pcs s ! i = Ran out \<Longrightarrow> \<not> terminate s \<Longrightarrow> cstep isf system i s (goto i (WantFinish out) s)"
| acquire2: "pcs s ! i = WantFinish out \<Longrightarrow> lock s = None \<Longrightarrow>
    cstep isf system i s (goto i (Finishing out) (s\<lparr>lock := Some i\<rparr>))"
| release2: "pcs s ! i = Finishing out \<Longrightarrow>
    cstep isf system i s (goto i Top ((snd (account isf system out s))\<lparr>lock := None\<rparr>))"
| join_one: "pcs s ! i = Joining k \<Longrightarrow> k < length (pcs s) \<Longrightarrow> ended (pcs s ! k) \<Longrightarrow>
    cstep isf system i s (goto i (Joining (Suc k)) s)"
| join_all: "pcs s ! i = Joining k \<Longrightarrow> length (pcs s) \<le> k \<Longrightarrow>
    cstep isf system i s (goto i (MainDone (failed s = [])) s)"
| done_raise: "pcs s ! i = Joining k \<Longrightarrow> length (pcs s) \<le> k \<Longrightarrow>
    cstep isf system i s (goto i (Raised e) s)"

lemma truncate_fields [simp]:
  "queue (progress.truncate s) = queue s" "succeeded (progress.truncate s) = succeeded s"
  "remaining (progress.truncate s) = remaining s" "total (progress.truncate s) = total s"
  "failed (progress.truncate s) = failed s" "crashed (progress.truncate s) = crashed s"
  "terminate (progress.truncate s) = terminate s" "lock (progress.truncate s) = lock s"
  "pcs (progress.truncate s) = pcs s"
  by (simp_all add: progress.truncate_def)

lemma truncate_update [simp]:
  "progress.truncate (s\<lparr>queue := a\<rparr>) = (progress.truncate s)\<lparr>queue := a\<rparr>"
  "progress.truncate (s\<lparr>lock := b\<rparr>) = (progress.truncate s)\<lparr>lock := b\<rparr>"
  "progress.truncate (goto i p s) = goto i p (progress.truncate s)"
  "progress.truncate (leave i s) = leave i (progress.truncate s)"
  "progress.truncate (raise_in i e s) = raise_in i e (progress.truncate s)"
  "progress.truncate (snd (account isf system out s)) = snd (account isf system out (progress.truncate s))"
  "fst (account isf system out (progress.truncate s)) = fst (account isf system out s)"
  by (simp_all add: progress.truncate_def goto_def leave_def raise_in_def account_def split_def Let_def)

subsection \<open>Invariants of the shared state\<close>

fun critical :: "pc \<Rightarrow> bool" where
  "critical (Starting t) = True"
| "critical (Finishing out) = True"
| "critical _ = False"

fun is_raised :: "pc \<Rightarrow> bool" where
  "is_raised (Raised e) = True"
| "is_raised _ = False"

fun held :: "pc \<Rightarrow> test_case multiset" where
  "held (WantStart t) = {#t#}"
| "held (Starting t) = {#t#}"
| "held (Running t) = {#t#}"
| "held (Ran out) = {#to_test out#}"
| "held (WantFinish out) = {#to_test out#}"
| "held (Finishing out) = {#to_test out#}"
| "held _ = {#}"

definition log_of :: "pc \<Rightarrow> test_output list" where
  "log_of p = (case p of Finishing out \<Rightarrow> [out] | _ \<Rightarrow> [])"

definition mutex :: "progress \<Rightarrow> bool" where
  "mutex s \<longleftrightarrow> (\<forall>i < length (pcs s). critical (pcs s ! i) \<longleftrightarrow> lock s = Some i) \<and>
     (\<forall>i. lock s = Some i \<longrightarrow> i < length (pcs s))"

fun pc_ok :: "progress \<Rightarrow> nat \<Rightarrow> pc \<Rightarrow> bool" where
  "pc_ok s i Finished \<longleftrightarrow> i \<noteq> 0 \<and> (terminate s \<or> queue s = [])"
| "pc_ok s i (Joining k) \<longleftrightarrow> i = 0 \<and> 1 \<le> k \<and> k \<le> length (pcs s) \<and> queue s = [] \<and>
     (\<forall>j. 1 \<le> j \<and> j < k \<longrightarrow> ended (pcs s ! j))"
| "pc_ok s i (MainDone b) \<longleftrightarrow> i = 0 \<and> queue s = [] \<and> b = (failed s = []) \<and>
     (\<forall>j. 1 \<le> j \<and> j < length (pcs s) \<longrightarrow> ended (pcs s ! j))"
| "pc_ok s i _ \<longleftrightarrow> True"

definition control :: "progress \<Rightarrow> bool" where
  "control s \<longleftrightarrow> pcs s \<noteq> [] \<and> (terminate s \<longrightarrow> is_raised (pcs s ! 0)) \<and>
     (\<forall>i < length (pcs s). pc_ok s i (pcs s ! i))"

definition counts :: "is_failure \<Rightarrow> string \<Rightarrow> test_case list \<Rightarrow> test_output list \<Rightarrow> progress \<Rightarrow> bool" where
  "counts isf system cs log s \<longleftrightarrow>
     total s = length cs \<and> remaining s = int (length cs) - int (length log) \<and>
     succeeded s = length (filter (\<lambda>out. \<not> fst (UnexpectedOutput isf system out)) log) \<and>
     failed s = map (\<lambda>out. snd (UnexpectedOutput isf system out))
       (filter (\<lambda>out. fst (UnexpectedOutput isf system out)) log) \<and>
     crashed s = length (filter (HasCrashed system) (failed s))"

definition accounted :: "test_case list \<Rightarrow> test_output list \<Rightarrow> progress \<Rightarrow> bool" where
  "accounted cs log s \<longleftrightarrow>
     (\<exists>lost. mset cs = mset (queue s) + sum_list (map held (pcs s)) + mset (map to_test log) + lost \<and>
        (terminate s \<or> (\<exists>p \<in> set (pcs s). is_raised p) \<or> lost = {#}))"

lemma sum_update:
  fixes f :: "'a \<Rightarrow> 'b::comm_monoid_add"
  assumes "i < length xs"
  shows "sum_list (map f (xs[i := p])) + f (xs ! i) = sum_list (map f xs) + f p"
  using assms
proof (induction xs arbitrary: i)
  case (Cons x xs)
  then show ?case by (cases i) (auto simp: add.assoc add.commute add.left_commute)
qed simp

lemma goto_fields [simp]:
  "queue (goto i p s) = queue s" "succeeded (goto i p s) = succeeded s"
  "remaining (goto i p s) = remaining s" "total (goto i p s) = total s"
  "failed (goto i p s) = failed s" "crashed (goto i p s) = crashed s"
  "terminate (goto i p s) = terminate s" "lock (goto i p s) = lock s"
  "pcs (goto i p s) = (pcs s)[i := p]"
  by (simp_all add: goto_def)

lemma account_fields [simp]:
  "queue (snd (account isf system out s)) = queue s" "total (snd (account isf system out s)) = total s"
  "terminate (snd (account isf system out s)) = terminate s" "lock (snd (account isf system out s)) = lock s"
  "pcs (snd (account isf system out s)) = pcs s"
  "remaining (snd (account isf system out s)) = remaining s - 1"
  by (simp_all add: account_def split_def Let_def)

lemma mutex_step:
  assumes "cstep isf system i s s'" "i < length (pcs s)" "mutex s"
  shows "mutex s'"
proof -
  have "critical (pcs s ! j) \<longleftrightarrow> lock s = Some j" if "j < length (pcs s)" for j
    using assms(3) that by (simp add: mutex_def)
  note crit = this this [OF assms(2)]
  have range: "\<And>j. lock s = Some j \<Longrightarrow> j < length (pcs s)" using assms(3) by (simp add: mutex_def)
  from assms(1) show ?thesis
    using crit range assms(2)
    by cases (auto simp: mutex_def nth_list_update leave_def raise_in_def split: if_splits)
qed

lemma cstep_not_ended: "cstep isf system i s s' \<Longrightarrow> \<not> ended (pcs s ! i)"
  by (auto elim: cstep.cases)

lemma raised_ended: "is_raised p \<Longrightarrow> ended p"
  by (cases p) auto

lemma cstep_frame:
  assumes "cstep isf system i s s'"
  shows "length (pcs s') = length (pcs s)" "\<And>j. j \<noteq> i \<Longrightarrow> pcs s' ! j = pcs s ! j"
    "terminate s \<Longrightarrow> terminate s'" "queue s = [] \<Longrightarrow> queue s' = []"
  using assms by (cases; auto simp: leave_def raise_in_def)+

lemma pc_ok_other:
  assumes "cstep isf system i s s'" "i < length (pcs s)" "j \<noteq> i" "pc_ok s j (pcs s ! j)"
  shows "pc_ok s' j (pcs s' ! j)"
proof -
  note frame = cstep_frame [OF assms(1)]
  have ended: "ended (pcs s' ! k)" if "ended (pcs s ! k)" for k
    using that cstep_not_ended [OF assms(1)] frame(2) [of k] by (cases "k = i") auto
  show ?thesis
  proof (cases "pcs s ! j")
    case (MainDone b)
    then have "ended (pcs s ! i)" using assms by auto
    then show ?thesis using cstep_not_ended [OF assms(1)] by simp
  qed (use assms frame ended in auto)
qed

lemma pc_ok_self:
  assumes "cstep isf system i s s'" "i < length (pcs s)" "pc_ok s i (pcs s ! i)"
    and "terminate s \<Longrightarrow> i \<noteq> 0"
  shows "pc_ok s' i (pcs s' ! i)"
  using assms(1)
proof cases
  case (join_one k)
  have "ended (pcs s ! j)" if "1 \<le> j" "j < Suc k" for j
    using that assms(3) join_one by (cases "j = k") auto
  moreover have "i = 0" using assms(3) join_one by simp
  ultimately show ?thesis using assms(2,3) join_one by (auto simp: nth_list_update)
next
  case (join_all k)
  then show ?thesis using assms(2,3) by (auto simp: nth_list_update)
qed (use assms in \<open>auto simp: leave_def raise_in_def\<close>)

lemma control_step:
  assumes "cstep isf system i s s'" "i < length (pcs s)" "control s"
  shows "control s'"
proof -
  have ok: "pcs s \<noteq> []" "terminate s \<Longrightarrow> is_raised (pcs s ! 0)" "\<And>j. j < length (pcs s) \<Longrightarrow> pc_ok s j (pcs s ! j)"
    using assms(3) by (auto simp: control_def)
  note frame = cstep_frame [OF assms(1)]
  have i: "i \<noteq> 0" if "terminate s"
    using ok(2) [OF that] cstep_not_ended [OF assms(1)] raised_ended by metis
  have "is_raised (pcs s' ! 0)" if "terminate s'"
  proof (cases "terminate s")
    case True
    then show ?thesis using i ok(2) frame(2) [of 0] by simp
  next
    case False
    with assms(1,2) that show ?thesis by cases (auto simp: leave_def raise_in_def split: if_splits)
  qed
  moreover have "pc_ok s' j (pcs s' ! j)" if "j < length (pcs s')" for j
    using that frame(1) pc_ok_other [OF assms(1,2)] pc_ok_self [OF assms(1,2)] ok(3) i
    by (cases "j = i") auto
  ultimately show ?thesis using frame(1) ok(1) by (auto simp: control_def)
qed

lemma counts_step:
  assumes "cstep isf system i s s'" "i < length (pcs s)" "counts isf system cs log s"
  shows "counts isf system cs (log @ log_of (pcs s ! i)) s'"
  using assms(1)
proof cases
  case (release2 out)
  have "snd (UnexpectedOutput isf system out) = out\<lparr>to_output := to_output (snd (UnexpectedOutput isf system out))\<rparr>"
    by (auto simp: UnexpectedOutput_def HasFailed_def split_def Let_def)
  then show ?thesis using assms(3) release2
    by (auto simp: counts_def account_def split_def Let_def log_of_def)
qed (use assms(3) in \<open>auto simp: counts_def log_of_def leave_def raise_in_def\<close>)

lemma cstep_balance:
  assumes "cstep isf system i s s'" "i < length (pcs s)"
  shows "\<exists>kept. mset (queue s) + held (pcs s ! i) =
      mset (queue s') + held (pcs s' ! i) + mset (map to_test (log_of (pcs s ! i))) + kept \<and>
    (kept = {#} \<or> terminate s' \<or> is_raised (pcs s' ! i))"
  using assms by cases (auto simp: leave_def raise_in_def log_of_def)

lemma cstep_pcs:
  assumes "cstep isf system i s s'"
  shows "pcs s' = (pcs s)[i := pcs s' ! i]"
proof (rule nth_equalityI)
  fix j assume "j < length (pcs s')"
  then show "pcs s' ! j = (pcs s)[i := pcs s' ! i] ! j"
    using cstep_frame(1,2) [OF assms] by (cases "j = i") auto
qed (simp add: cstep_frame(1) [OF assms])

lemma balance:
  fixes Q :: "'a multiset"
  assumes "Q + h = Q' + h' + l + kept" "H' + h = H + h'"
  shows "Q + H + L + lost = Q' + H' + (L + l) + (lost + kept)"
proof -
  have "Q + H + L + lost + h = (Q + h) + (H + L + lost)" by (simp add: ac_simps)
  also have "\<dots> = Q' + l + kept + L + lost + (H + h')" unfolding assms(1) by (simp add: ac_simps)
  also have "\<dots> = Q' + H' + (L + l) + (lost + kept) + h"
    unfolding assms(2) [symmetric] by (simp add: ac_simps)
  finally show ?thesis by simp
qed

lemma accounted_step:
  assumes "cstep isf system i s s'" "i < length (pcs s)" "accounted cs log s"
  shows "accounted cs (log @ log_of (pcs s ! i)) s'"
proof -
  obtain lost where lost: "mset cs = mset (queue s) + sum_list (map held (pcs s)) + mset (map to_test log) + lost"
    "terminate s \<or> (\<exists>p \<in> set (pcs s). is_raised p) \<or> lost = {#}"
    using assms(3) by (auto simp: accounted_def)
  obtain kept where kept: "mset (queue s) + held (pcs s ! i) =
      mset (queue s') + held (pcs s' ! i) + mset (map to_test (log_of (pcs s ! i))) + kept"
    "kept = {#} \<or> terminate s' \<or> is_raised (pcs s' ! i)"
    using cstep_balance [OF assms(1,2)] by blast
  have upd: "sum_list (map held (pcs s')) + held (pcs s ! i) = sum_list (map held (pcs s)) + held (pcs s' ! i)"
    using sum_update [OF assms(2), of held "pcs s' ! i"] cstep_pcs [OF assms(1)] by simp
  have sum: "mset cs = mset (queue s') + sum_list (map held (pcs s')) +
      mset (map to_test (log @ log_of (pcs s ! i))) + (lost + kept)"
    using balance [OF kept(1) upd, of "mset (map to_test log)" lost] lost(1) by simp
  have "terminate s' \<or> (\<exists>p \<in> set (pcs s'). is_raised p) \<or> lost + kept = {#}"
  proof -
    have "(\<exists>p \<in> set (pcs s'). is_raised p)" if p: "p \<in> set (pcs s)" "is_raised p" for p
    proof -
      obtain k where "k < length (pcs s)" "p = pcs s ! k" using p(1) by (metis in_set_conv_nth)
      moreover have "k \<noteq> i" using calculation p(2) cstep_not_ended [OF assms(1)] raised_ended by metis
      ultimately show ?thesis using p(2) cstep_frame(1,2) [OF assms(1)] by (metis nth_mem)
    qed
    moreover have "is_raised (pcs s' ! i) \<Longrightarrow> \<exists>p \<in> set (pcs s'). is_raised p"
      using assms(2) cstep_frame(1) [OF assms(1)] by (metis nth_mem)
    ultimately show ?thesis using lost(2) kept(2) cstep_frame(3) [OF assms(1)] by auto
  qed
  with sum show ?thesis unfolding accounted_def by blast
qed

text \<open>A bound on the steps that are left.\<close>

fun weight :: "nat \<Rightarrow> pc \<Rightarrow> nat" where
  "weight n Top = n + 3"
| "weight n Get = n + 2"
| "weight n (WantStart t) = n + 9"
| "weight n (Starting t) = n + 8"
| "weight n (Running t) = n + 7"
| "weight n (Ran out) = n + 6"
| "weight n (WantFinish out) = n + 5"
| "weight n (Finishing out) = n + 4"
| "weight n (Joining k) = Suc n - k"
| "weight n _ = 0"

definition steps_left :: "progress \<Rightarrow> nat" where
  "steps_left s = 10 * length (queue s) + sum_list (map (weight (length (pcs s))) (pcs s))"

lemma steps_left_step:
  assumes "cstep isf system i s s'" "i < length (pcs s)" "control s"
  shows "steps_left s' < steps_left s"
proof -
  let ?w = "weight (length (pcs s))"
  have ok: "pc_ok s i (pcs s ! i)" using assms(2,3) by (simp add: control_def)
  have "10 * length (queue s') + ?w (pcs s' ! i) < 10 * length (queue s) + ?w (pcs s ! i)"
    using assms(1,2) ok by cases (auto simp: leave_def raise_in_def)
  moreover have "sum_list (map ?w (pcs s')) + ?w (pcs s ! i) = sum_list (map ?w (pcs s)) + ?w (pcs s' ! i)"
    using sum_update [OF assms(2), of ?w "pcs s' ! i"] cstep_pcs [OF assms(1)] by simp
  ultimately show ?thesis by (simp add: steps_left_def cstep_frame(1) [OF assms(1)])
qed

lemma thread_can_step:
  assumes "\<not> ended (pcs s ! i)" "\<forall>k. pcs s ! i = Joining k \<longrightarrow> length (pcs s) \<le> k \<or> ended (pcs s ! k)"
    and "critical (pcs s ! i) \<or> lock s = None"
  shows "\<exists>elapsed result s'. thread_step about has_run done_run isf system elapsed result i s = Some s'"
proof (cases "pcs s ! i")
  case (Running t)
  then have "\<exists>s'. thread_step about has_run done_run isf system 0 (Inl IOError) i s = Some s'"
    by (simp add: thread_step_def)
  then show ?thesis by blast
next
  case (Get)
  then show ?thesis by (cases "queue s") (simp_all add: thread_step_def)
next
  case (Joining k)
  with assms show ?thesis
    by (cases "done_run 0 s") (auto simp: thread_step_def split: sum.splits)
qed (use assms in \<open>auto simp: thread_step_def split_def Let_def\<close>)

lemma some_thread_can_step:
  assumes "mutex (progress.truncate s)" "control (progress.truncate s)"
    and "i < length (pcs s)" "\<not> ended (pcs s ! i)"
  shows "\<exists>j elapsed result s'. j < length (pcs s) \<and>
    thread_step about has_run done_run isf system elapsed result j s = Some s'"
proof (cases "lock s")
  case (Some j)
  then have "j < length (pcs s)" "critical (pcs s ! j)" using assms(1) by (auto simp: mutex_def)
  then show ?thesis using thread_can_step [of s j about has_run done_run isf system]
    by (cases "pcs s ! j") auto
next
  case None
  show ?thesis
  proof (cases "\<exists>k. pcs s ! i = Joining k \<and> k < length (pcs s) \<and> \<not> ended (pcs s ! k)")
    case False
    then show ?thesis using thread_can_step [of s i about has_run done_run isf system] assms(3,4) None
      by (meson not_le)
  next
    case True
    then obtain k where k: "pcs s ! i = Joining k" "k < length (pcs s)" "\<not> ended (pcs s ! k)" by blast
    have "pc_ok (progress.truncate s) j (pcs s ! j)" if "j < length (pcs s)" for j
      using assms(2) that by (simp add: control_def)
    from this [OF assms(3)] this [OF k(2)] have "\<forall>m. pcs s ! k \<noteq> Joining m" using k(1) by auto
    then show ?thesis using thread_can_step [of s k about has_run done_run isf system] k None by blast
  qed
qed

text \<open>What the base class relies on when it calls its subclasses: they do not touch its counters,
  its queue, its lock or its flag.\<close>

locale progress_callbacks =
  fixes about :: "nat \<Rightarrow> test_case \<Rightarrow> indicator \<Rightarrow> indicator"
    and has_run :: "test_output \<Rightarrow> indicator \<Rightarrow> indicator"
    and done_run :: "nat \<Rightarrow> indicator \<Rightarrow> indicator res"
    and isf :: is_failure
    and system :: string
  assumes about_core: "progress.truncate (about elapsed t s) = progress.truncate s"
    and has_run_core: "progress.truncate (has_run out s) = progress.truncate s"
    and done_run_core: "done_run elapsed s = Inr s' \<Longrightarrow> progress.truncate s' = progress.truncate s"
begin

lemma step_cstep:
  assumes "thread_step about has_run done_run isf system elapsed result i s = Some s'"
  shows "cstep isf system i (progress.truncate s) (progress.truncate s')"
proof -
  note intros = cstep.intros [where s = "progress.truncate s", unfolded truncate_fields]
  show ?thesis
  proof (cases "pcs s ! i")
    case Top
    with assms show ?thesis
      by (auto simp: thread_step_def intro: intros split: if_splits)
  next
    case Get
    with assms show ?thesis
      by (auto simp: thread_step_def intro: intros split: list.splits)
  next
    case (Running t)
    with assms show ?thesis
      by (auto simp: thread_step_def intro: intros split: sum.splits py_error.splits if_splits)
  next
    case (Finishing out)
    with assms show ?thesis
      by (auto simp: thread_step_def split_def Let_def has_run_core intro: intros)
  next
    case (Joining k)
    show ?thesis
    proof (cases "k \<ge> length (pcs s)")
      case True
      show ?thesis
      proof (cases "done_run elapsed s")
        case (Inl e)
        with True Joining assms show ?thesis by (auto simp: thread_step_def intro: intros)
      next
        case (Inr s1)
        have "failed s1 = failed s" using done_run_core [OF Inr] by (metis truncate_fields(5))
        with Inr True Joining assms show ?thesis
          using done_run_core [OF Inr] by (auto simp: thread_step_def intro: intros)
      qed
    next
      case False
      with Joining assms show ?thesis
          by (auto simp: thread_step_def not_le intro: intros split: if_splits)
    qed
  qed (use assms about_core in \<open>auto simp: thread_step_def intro: intros split: if_splits\<close>)
qed

lemma execution_invariant:
  assumes "execution about has_run done_run isf system s0 n log s"
    and "progress.truncate s0 = progress.truncate (ProgressIndicator cs tasks)"
  shows "mutex (progress.truncate s) \<and> control (progress.truncate s) \<and>
    counts isf system cs log (progress.truncate s) \<and> accounted cs log (progress.truncate s) \<and>
    n + steps_left (progress.truncate s) \<le> steps_left (progress.truncate s0)"
  using assms(1)
proof induction
  case start
  have "sum_list (replicate m {#}) = {#}" for m by (induction m) auto
  then show ?case unfolding assms(2)
    by (auto simp: mutex_def control_def counts_def accounted_def ProgressIndicator_def)
next
  case (more n log s i elapsed result s')
  have c: "cstep isf system i (progress.truncate s) (progress.truncate s')"
    using step_cstep [OF more.hyps(3)] .
  have i: "i < length (pcs (progress.truncate s))" using more.hyps(2) by simp
  show ?case
    using more.IH mutex_step [OF c i] control_step [OF c i] counts_step [OF c i] accounted_step [OF c i]
      steps_left_step [OF c i] by (auto simp: log_of_def)
qed

lemma execution_correct:
  assumes "execution about has_run done_run isf system s0 n log s"
    and "progress.truncate s0 = progress.truncate (ProgressIndicator cs tasks)"
    and "pcs s ! 0 = MainDone b" "\<forall>p \<in> set (pcs s). \<not> is_raised p"
  shows "mset (map to_test log) = mset cs \<and> remaining s = 0 \<and>
    succeeded s + length (failed s) = length cs \<and>
    (b \<longleftrightarrow> (\<forall>out \<in> set log. \<not> fst (UnexpectedOutput isf system out)))"
proof -
  note inv = execution_invariant [OF assms(1,2)]
  have ne: "pcs s \<noteq> []" and t: "\<not> terminate s"
    using inv assms(3) by (auto simp: control_def)
  then have "pc_ok (progress.truncate s) 0 (pcs s ! 0)" using inv by (simp add: control_def)
  then have main: "queue s = []" "b \<longleftrightarrow> failed s = []" "\<And>j. 1 \<le> j \<Longrightarrow> j < length (pcs s) \<Longrightarrow> ended (pcs s ! j)"
    using assms(3) by simp_all
  have "held p = {#}" if p: "p \<in> set (pcs s)" for p
  proof -
    obtain j where j: "j < length (pcs s)" "p = pcs s ! j" using p by (metis in_set_conv_nth)
    then have "ended p" using main(3) [of j] assms(3) by (cases "j = 0") auto
    then show ?thesis by (cases p) auto
  qed
  then have "map held (pcs s) = map (\<lambda>_. {#}) (pcs s)" by simp
  then have "sum_list (map held (pcs s)) = {#}" by (simp only: sum_list_0)
  then have log: "mset (map to_test log) = mset cs"
    using inv main(1) t assms(4) by (auto simp: accounted_def)
  then have len: "length log = length cs" by (metis size_mset length_map)
  have c: "counts isf system cs log (progress.truncate s)" using inv by simp
  have "succeeded s + length (failed s) = length log"
    using c sum_length_filter_compl [of "\<lambda>out. fst (UnexpectedOutput isf system out)" log]
    by (simp add: counts_def)
  moreover have "failed s = [] \<longleftrightarrow> (\<forall>out \<in> set log. \<not> fst (UnexpectedOutput isf system out))"
    using c by (simp add: counts_def filter_empty_conv)
  ultimately show ?thesis using log len c main(2) by (simp add: counts_def)
qed

end

lemma emit_core [simp]: "progress.truncate (emit es s) = progress.truncate s"
  by (simp add: emit_def progress.truncate_def)

lemma PrintProgress_core [simp]: "progress.truncate (PrintProgress kind elapsed name s) = progress.truncate s"
  by (simp add: PrintProgress_def emit_def progress.truncate_def Let_def)

lemma StartingRun_core [simp]: "progress.truncate (StartingRun kind s) = progress.truncate s"
  by (simp add: StartingRun_def)

interpretation indicators: progress_callbacks "AboutToRun kind" "HasRun isf system kind" "DoneRun system kind"
  isf system for kind isf system
proof
  show "progress.truncate (AboutToRun kind elapsed t s) = progress.truncate s" for elapsed t s
    by (simp add: AboutToRun_def split: progress_kind.splits)
  show "progress.truncate (HasRun isf system kind out s) = progress.truncate s" for out s
    by (simp add: HasRun_def Let_def split: progress_kind.splits)
  show "progress.truncate s' = progress.truncate s" if "DoneRun system kind elapsed s = Inr s'" for elapsed s s'
    using that by (auto simp: DoneRun_def split: if_splits)
qed

text \<open>One schedule of the threads: which one steps, when, and with what result of a test.\<close>

fun run_schedule ::
  "progress_kind \<Rightarrow> is_failure \<Rightarrow> string \<Rightarrow> (nat \<times> nat \<times> test_output res) list \<Rightarrow>
   test_output list \<Rightarrow> indicator \<Rightarrow> (test_output list \<times> indicator) option" where
  "run_schedule kind isf system [] log s = Some (log, s)"
| "run_schedule kind isf system ((i, elapsed, result) # rest) log s =
     (if i < length (pcs s) then
        (case thread_step (AboutToRun kind) (HasRun isf system kind) (DoneRun system kind) isf system
                elapsed result i s of
           None \<Rightarrow> None
         | Some s' \<Rightarrow> run_schedule kind isf system rest (log @ log_of (pcs s ! i)) s')
      else None)"

lemma schedule_execution:
  "indicator_execution kind isf system cs tasks n log s \<Longrightarrow>
   run_schedule kind isf system sched log s = Some (log', s') \<Longrightarrow>
   indicator_execution kind isf system cs tasks (n + length sched) log' s'"
proof (induction sched arbitrary: n log s)
  case (Cons x sched)
  obtain i elapsed result where x: "x = (i, elapsed, result)" by (cases x)
  with Cons.prems(2) obtain s1 where s1: "i < length (pcs s)"
    "thread_step (AboutToRun kind) (HasRun isf system kind) (DoneRun system kind) isf system
      elapsed result i s = Some s1"
    "run_schedule kind isf system sched (log @ log_of (pcs s ! i)) s1 = Some (log', s')"
    by (auto split: if_splits option.splits)
  have "indicator_execution kind isf system cs tasks (Suc n) (log @ log_of (pcs s ! i)) s1"
    using execution.more [OF Cons.prems(1) [unfolded indicator_execution_def] s1(1,2)]
    by (simp add: indicator_execution_def log_of_def)
  from Cons.IH [OF this s1(3)] show ?case by simp
qed simp

lemma schedule_from_start:
  "run_schedule kind isf system sched [] (StartingRun kind (ProgressIndicator cs tasks)) = Some (log, s) \<Longrightarrow>
   indicator_execution kind isf system cs tasks (length sched) log s"
  using schedule_execution [of kind isf system cs tasks 0 "[]"] execution.start
  by (fastforce simp: indicator_execution_def)

lemmas schedule_defs = thread_step_def leave_def raise_in_def goto_def account_def split_def Let_def
  ProgressIndicator_def StartingRun_def AboutToRun_def HasRun_def DoneRun_def emit_def log_of_def

subsection \<open>Properties\<close>

text \<open>C39: when \<open>Run\<close> returns and no worker thread died of an exception, every test of the queue was
  run and accounted for exactly once, whatever the number of threads and their interleaving, the
  counters agree with that, and \<open>Run\<close> returned whether no test had an unexpected result.\<close>

theorem Run_correct:
  assumes "indicator_execution kind isf system cs tasks n log s"
    and "pcs s ! 0 = MainDone b" and "\<forall>p \<in> set (pcs s). \<not> is_raised p"
  shows "mset (map to_test log) = mset cs \<and> remaining s = 0 \<and>
    succeeded s + length (failed s) = length cs \<and>
    (b \<longleftrightarrow> (\<forall>out \<in> set log. \<not> fst (UnexpectedOutput isf system out)))"
  using indicators.execution_correct assms StartingRun_core unfolding indicator_execution_def by blast

definition sample_test :: test_case where
  "sample_test = \<lparr>tc_path = [''simple'', ''test-net''], tc_mode = ''release'',
     tc_label = ''release test-net'', tc_negative = False, tc_outcomes = {''pass''}\<rparr>"

definition sample_output :: test_output where
  "sample_output = \<lparr>to_test = sample_test, to_command = [''node'', ''test-net.js''],
     to_output = CommandOutput 1 False [] ''boom'', to_store_unexpected = True\<rparr>"

definition sample_schedule :: "(nat \<times> nat \<times> test_output res) list" where
  "sample_schedule = map (\<lambda>i. (i, 0, Inr sample_output)) [1, 0, 1, 0, 1, 1, 1, 1, 1]"

lemmas sample_defs = sample_test_def sample_output_def sample_schedule_def CommandOutput_def
  UnexpectedOutput_def HasCrashed_def HasTimedOut_def HasFailed_def DidFail_def IsFailureOutput_def
  IsWindows_def GuessOS_def CRASH_def TIMEOUT_def FAIL_def PASS_def SIGABRT_def

lemma sample_run:
  "\<exists>s. run_schedule Dots IsFailureOutput ''Linux'' (sample_schedule @
       map (\<lambda>i. (i, 0, Inr sample_output)) [1, 1, 1, 0, 0]) []
       (StartingRun Dots (ProgressIndicator [sample_test] 2)) = Some ([sample_output], s) \<and>
     pcs s = [MainDone False, Finished]"
  "\<exists>s. run_schedule Dots IsFailureOutput ''Linux'' sample_schedule []
       (StartingRun Dots (ProgressIndicator [sample_test] 2)) = Some ([], s) \<and>
     pcs s = [Joining 1, Finishing sample_output]"
  by (simp_all add: sample_defs schedule_defs numeral_2_eq_2)

theorem Run_correct_witness:
  "\<exists>n s. indicator_execution Dots IsFailureOutput ''Linux'' [sample_test] 2 n [sample_output] s \<and>
     pcs s ! 0 = MainDone False \<and> remaining s = 0 \<and> succeeded s + length (failed s) = 1"
proof -
  obtain s where "run_schedule Dots IsFailureOutput ''Linux'' (sample_schedule @
       map (\<lambda>i. (i, 0, Inr sample_output)) [1, 1, 1, 0, 0]) []
       (StartingRun Dots (ProgressIndicator [sample_test] 2)) = Some ([sample_output], s)"
    and s: "pcs s = [MainDone False, Finished]" using sample_run(1) by blast
  from schedule_from_start [OF this(1)] obtain n where
    ex: "indicator_execution Dots IsFailureOutput ''Linux'' [sample_test] 2 n [sample_output] s" by blast
  from Run_correct [OF ex, of False] s have "remaining s = 0 \<and> succeeded s + length (failed s) = 1" by simp
  with ex s show ?thesis by fastforce
qed

text \<open>At every moment of a run at most one thread is in a critical section, and it holds the
  lock; the counters say what has been accounted for so far.\<close>

theorem Run_mutual_exclusion:
  assumes "indicator_execution kind isf system cs tasks n log s"
    and "i < length (pcs s)" "j < length (pcs s)" "critical (pcs s ! i)" "critical (pcs s ! j)"
  shows "i = j \<and> lock s = Some i \<and> remaining s = int (length cs) - int (length log) \<and>
    succeeded s + length (failed s) = length log \<and> crashed s \<le> length (failed s)"
proof -
  note inv = indicators.execution_invariant [OF assms(1) [unfolded indicator_execution_def] StartingRun_core]
  have c: "counts isf system cs log (progress.truncate s)" using inv by simp
  have "succeeded s + length (failed s) = length log"
    using c sum_length_filter_compl [of "\<lambda>out. fst (UnexpectedOutput isf system out)" log]
    by (simp add: counts_def)
  moreover have "crashed s = length (filter (HasCrashed system) (failed s))" using c by (simp add: counts_def)
  moreover have "lock s = Some i" "lock s = Some j" using inv assms(2-5) by (auto simp: mutex_def)
  ultimately show ?thesis using c length_filter_le [of "HasCrashed system" "failed s"]
    by (simp add: counts_def del: length_filter_le)
qed

theorem Run_mutual_exclusion_witness:
  "\<exists>n s. indicator_execution Dots IsFailureOutput ''Linux'' [sample_test] 2 n [] s \<and>
     critical (pcs s ! 1) \<and> lock s = Some 1"
proof -
  obtain s where "run_schedule Dots IsFailureOutput ''Linux'' sample_schedule []
       (StartingRun Dots (ProgressIndicator [sample_test] 2)) = Some ([], s)"
    and s: "pcs s = [Joining 1, Finishing sample_output]" using sample_run(2) by blast
  from schedule_from_start [OF this(1)] obtain n where
    ex: "indicator_execution Dots IsFailureOutput ''Linux'' [sample_test] 2 n [] s" by blast
  from Run_mutual_exclusion [OF ex, of 1 1] s have "lock s = Some 1" by simp
  with ex s show ?thesis by fastforce
qed

text \<open>A run ends: no execution has more than \<open>10 * len(cases) + k * (k + 3)\<close> steps, where \<open>k\<close> is
  the number of threads, and as long as some thread has not ended, some thread can make a step, so
  the threads never deadlock.\<close>

theorem Run_terminates:
  "indicator_execution kind isf system cs tasks n log s \<longrightarrow>
     n \<le> 10 * length cs + max 1 tasks * (max 1 tasks + 3) \<and>
     ((\<exists>i < length (pcs s). \<not> ended (pcs s ! i)) \<longrightarrow>
        (\<exists>j elapsed result s'. j < length (pcs s) \<and>
           thread_step (AboutToRun kind) (HasRun isf system kind) (DoneRun system kind) isf system
             elapsed result j s = Some s'))"
proof (intro impI conjI)
  assume ex: "indicator_execution kind isf system cs tasks n log s"
  note ex' = ex [unfolded indicator_execution_def]
  note inv = indicators.execution_invariant [OF ex' StartingRun_core]
  have "steps_left (progress.truncate (ProgressIndicator cs tasks)) =
      10 * length cs + max 1 tasks * (max 1 tasks + 3)"
    by (simp add: steps_left_def ProgressIndicator_def sum_list_replicate)
  with inv show "n \<le> 10 * length cs + max 1 tasks * (max 1 tasks + 3)" by simp
  assume "\<exists>i < length (pcs s). \<not> ended (pcs s ! i)"
  then obtain i where "i < length (pcs s)" "\<not> ended (pcs s ! i)" by blast
  with inv show "\<exists>j elapsed result s'. j < length (pcs s) \<and>
      thread_step (AboutToRun kind) (HasRun isf system kind) (DoneRun system kind) isf system
        elapsed result j s = Some s'"
    using some_thread_can_step by blast
qed

theorem Run_terminates_witness:
  "\<exists>s n. indicator_execution Dots IsFailureOutput ''Linux'' [sample_test] 2 n [] s \<and> n \<le> 20 \<and>
     (\<exists>j elapsed result s'. thread_step (AboutToRun Dots) (HasRun IsFailureOutput ''Linux'' Dots)
        (DoneRun ''Linux'' Dots) IsFailureOutput ''Linux'' elapsed result j s = Some s')"
proof -
  obtain s where "run_schedule Dots IsFailureOutput ''Linux'' sample_schedule []
       (StartingRun Dots (ProgressIndicator [sample_test] 2)) = Some ([], s)"
    and s: "pcs s = [Joining 1, Finishing sample_output]" using sample_run(2) by blast
  from schedule_from_start [OF this(1)] obtain n where
    ex: "indicator_execution Dots IsFailureOutput ''Linux'' [sample_test] 2 n [] s" by blast
  have "\<exists>i < length (pcs s). \<not> ended (pcs s ! i)" using s by (intro exI [of _ 1]) simp
  with Run_terminates [of Dots IsFailureOutput "''Linux''" "[sample_test]" 2 n "[]" s] ex
  have "n \<le> 20 \<and> (\<exists>j elapsed result s'. thread_step (AboutToRun Dots) (HasRun IsFailureOutput ''Linux'' Dots)
        (DoneRun ''Linux'' Dots) IsFailureOutput ''Linux'' elapsed result j s = Some s')" by auto
  with ex show ?thesis by blast
qed

text \<open>An exception in a worker thread loses the thread's test without a trace in the result: with
  two threads there is a run in which the only test raises and \<open>Run\<close> returns \<open>True\<close>, success, with
  no test accounted for.\<close>

theorem Run_loses_raising_test:
  "\<exists>n s. indicator_execution Verbose isf system [t] 2 n [] s \<and> pcs s ! 0 = MainDone True \<and>
     succeeded s = 0 \<and> failed s = [] \<and> remaining s = 1"
proof -
  let ?r = "Inl UnboundLocalError"
  let ?sched = "map (\<lambda>i. (i, 0, ?r)) [1, 1, 1, 1, 1, 0, 0, 0, 0 :: nat]"
  have "\<exists>s. run_schedule Verbose isf system ?sched [] (StartingRun Verbose (ProgressIndicator [t] 2)) =
      Some ([], s) \<and> pcs s ! 0 = MainDone True \<and> succeeded s = 0 \<and> failed s = [] \<and> remaining s = 1"
    by (simp add: schedule_defs numeral_2_eq_2)
  then show ?thesis using schedule_from_start by blast
qed

text \<open>\<open>UnexpectedOutput\<close> says whether what happened is among the expected outcomes: a crash comes
  before a time-out, and a negative test passes when it fails. The cached verdict makes repeated
  calls agree, even if \<open>IsFailureOutput\<close> would answer differently the next time.\<close>

theorem UnexpectedOutput_correct:
  "let (unexpected, out') = UnexpectedOutput isf system out;
       failure = (case co_failed (to_output out) of Some f \<Rightarrow> f | None \<Rightarrow> isf (to_test out) (to_output out))
   in unexpected = ((if HasCrashed system out then CRASH else if timed_out (to_output out) then TIMEOUT
        else if failure \<noteq> tc_negative (to_test out) then FAIL else PASS) \<notin> tc_outcomes (to_test out)) \<and>
      UnexpectedOutput isf system out' = (unexpected, out') \<and>
      (\<not> HasCrashed system out \<and> \<not> timed_out (to_output out) \<longrightarrow>
         UnexpectedOutput isf' system out' = (unexpected, out'))"
  by (auto simp: UnexpectedOutput_def HasFailed_def DidFail_def HasCrashed_def HasTimedOut_def Let_def
      split: option.splits)

theorem UnexpectedOutput_correct_witness:
  "fst (UnexpectedOutput IsFailureOutput ''Linux'' sample_output) \<and>
   fst (UnexpectedOutput (\<lambda>t c. False) ''Linux'' (snd (UnexpectedOutput IsFailureOutput ''Linux'' sample_output)))"
proof -
  have "\<not> HasCrashed ''Linux'' sample_output" "\<not> timed_out (to_output sample_output)"
    by (simp_all add: sample_defs)
  then show ?thesis
    using UnexpectedOutput_correct [of IsFailureOutput "''Linux''" sample_output "\<lambda>t c. False"]
    by (simp add: split_def Let_def) (simp add: sample_defs)
qed

text \<open>An \<open>IOError\<close> of \<open>RunCommand\<close> never reaches the handler in \<open>RunSingle\<close> that is written for it:
  the \<open>finally\<close> clause of \<open>TestCase.Run\<close> reads the unbound \<open>result\<close>, so the thread dies of an
  \<open>UnboundLocalError\<close> even when the run is being terminated.\<close>

theorem IOError_is_masked:
  "pcs s ! i = Running t \<Longrightarrow>
   thread_step about has_run done_run isf system elapsed (TestCase_Run (Inr ()) (Inl IOError) after) i s =
     Some (raise_in i UnboundLocalError s)"
  by (simp add: thread_step_def TestCase_Run_def)

theorem IOError_is_masked_witness:
  "pcs (goto 1 (Running sample_test) (ProgressIndicator [] 2)) ! 1 = Running sample_test \<and>
   thread_step (AboutToRun Dots) (HasRun IsFailureOutput ''Linux'' Dots) (DoneRun ''Linux'' Dots)
     IsFailureOutput ''Linux'' 0 (TestCase_Run (Inr ()) (Inl IOError) (\<lambda>_. Inr ())) 1
     (goto 1 (Running sample_test) (ProgressIndicator [] 2)) =
   Some (raise_in 1 UnboundLocalError (goto 1 (Running sample_test) (ProgressIndicator [] 2)))"
proof -
  have "pcs (goto 1 (Running sample_test) (ProgressIndicator [] 2)) ! 1 = Running sample_test"
    by (simp add: ProgressIndicator_def)
  then show ?thesis using IOError_is_masked by blast
qed

end
