(* ===== verification/TestMain.thy ===== *)
theory TestMain
  imports TestConfig TestRunner Complex_Main
begin

section \<open>Running processes, test suites, options and the main program\<close>

text \<open>
  The rest of \<open>src/tools/test.py\<close>: the polling loop that runs a command with a time limit, the
  suites and repositories that list the tests, the options, the report and \<open>Main\<close>. What lies outside
  is an argument: the clock, the state of the child process, the \<open>testcfg\<close> module of each suite, the
  file system, the build, and \<open>RunTestCases\<close>, whose behaviour is the subject of \<open>TestRunner\<close>.
  Times are rational numbers where the program has floats. \<open>FormatTime\<close> and the table of the slowest
  tests, which only print times, are left out.
\<close>

subsection \<open>Running a process\<close>

definition MAX_SLEEP_TIME :: rat where "MAX_SLEEP_TIME = 1 / 10"
definition INITIAL_SLEEP_TIME :: rat where "INITIAL_SLEEP_TIME = 1 / 10000"
definition SLEEP_TIME_FACTOR :: rat where "SLEEP_TIME_FACTOR = 5 / 4"

lemmas sleep_defs = MAX_SLEEP_TIME_def INITIAL_SLEEP_TIME_def SLEEP_TIME_FACTOR_def

definition next_sleep :: "rat \<Rightarrow> rat" where
  "next_sleep sleep_time =
     (let sleep_time = sleep_time * SLEEP_TIME_FACTOR
      in if sleep_time > MAX_SLEEP_TIME then MAX_SLEEP_TIME else sleep_time)"

text \<open>The loop of \<open>RunProcess\<close>. \<open>clock k\<close> and \<open>poll k\<close> are what \<open>time.time()\<close> and \<open>process.poll()\<close> return
  in round \<open>k\<close>, \<open>wait\<close> what \<open>process.wait()\<close> returns for the killed process; the last component lists
  the times slept. \<open>None\<close> when the rounds are used up.\<close>

fun poll_loop ::
  "nat \<Rightarrow> rat option \<Rightarrow> (nat \<Rightarrow> rat) \<Rightarrow> (nat \<Rightarrow> int option) \<Rightarrow> int \<Rightarrow> nat \<Rightarrow> rat \<Rightarrow>
   (int \<times> bool \<times> rat list) option" where
  "poll_loop 0 end_time clock poll wait k sleep_time = None"
| "poll_loop (Suc n) end_time clock poll wait k sleep_time =
     (if (case end_time of None \<Rightarrow> False | Some e \<Rightarrow> clock k \<ge> e) then Some (wait, True, [])
      else (case poll k of
              Some code \<Rightarrow> Some (code, False, [sleep_time])
            | None \<Rightarrow>
                map_option (\<lambda>(code, t, sl). (code, t, sleep_time # sl))
                  (poll_loop n end_time clock poll wait (Suc k) (next_sleep sleep_time))))"

text \<open>The error mode of the Windows process: \<open>None\<close> without \<open>ctypes\<close>.\<close>

definition SEM_INVALID_VALUE :: int where "SEM_INVALID_VALUE = -1"
definition SEM_NOGPFAULTERRORBOX :: int where "SEM_NOGPFAULTERRORBOX = 2"

unbundle bit_operations_syntax

definition Win32SetErrorMode :: "int \<Rightarrow> int option \<Rightarrow> int \<times> int option" where
  "Win32SetErrorMode mode state =
     (case state of None \<Rightarrow> (SEM_INVALID_VALUE, None) | Some prev \<Rightarrow> (prev, Some mode))"

definition RunProcess ::
  "nat \<Rightarrow> bool \<Rightarrow> bool \<Rightarrow> rat option \<Rightarrow> rat \<Rightarrow> (nat \<Rightarrow> rat) \<Rightarrow> (nat \<Rightarrow> int option) \<Rightarrow> int \<Rightarrow> int option \<Rightarrow>
   ((int \<times> bool \<times> rat list) \<times> int option) option" where
  "RunProcess n windows suppress_dialogs timeout now clock poll wait mode =
     (let (prev, mode) =
        (if windows \<and> suppress_dialogs then
           let (prev, mode) = Win32SetErrorMode SEM_NOGPFAULTERRORBOX mode
           in (prev, snd (Win32SetErrorMode (SEM_NOGPFAULTERRORBOX OR prev) mode))
         else (SEM_INVALID_VALUE, mode));
          mode = (if windows \<and> suppress_dialogs \<and> prev \<noteq> SEM_INVALID_VALUE
                  then snd (Win32SetErrorMode prev mode) else mode);
          end_time = map_option (\<lambda>t. now + t) timeout
      in map_option (\<lambda>r. (r, mode)) (poll_loop n end_time clock poll wait 0 INITIAL_SLEEP_TIME))"

text \<open>\<open>Execute\<close> and \<open>ExecuteNoCapture\<close> make a \<open>CommandOutput\<close> of the result.\<close>

definition Execute :: "(int \<times> bool \<times> rat list) \<Rightarrow> string \<Rightarrow> string \<Rightarrow> command_output" where
  "Execute result out err = (case result of (code, t, _) \<Rightarrow> CommandOutput code t out err)"

definition ExecuteNoCapture :: "(int \<times> bool \<times> rat list) \<Rightarrow> command_output" where
  "ExecuteNoCapture result = (case result of (code, _, _) \<Rightarrow> CommandOutput code False [] [])"

subsection \<open>Context\<close>

record context_rec =
  workspace :: string
  buildspace :: string
  ctx_verbose :: bool
  vm_root :: string
  ctx_timeout :: rat
  processor :: "string list \<Rightarrow> string list"
  suppress_dialogs :: bool
  store_unexpected_output :: bool

definition FLAGS :: "string \<Rightarrow> string list res" where
  "FLAGS mode =
     (if mode = ''debug'' then Inr [''--enable-slow-asserts'', ''--debug-code'', ''--verify-heap'']
      else if mode = ''release'' then Inr [] else Inl KeyError)"

definition TIMEOUT_SCALEFACTOR :: "string \<Rightarrow> rat res" where
  "TIMEOUT_SCALEFACTOR mode =
     (if mode = ''debug'' then Inr 4 else if mode = ''release'' then Inr 1 else Inl KeyError)"

definition GetVm :: "(string \<Rightarrow> string) \<Rightarrow> string \<Rightarrow> string \<Rightarrow> string" where
  "GetVm abspath system mode =
     (let name = (if mode = ''debug'' then ''build/debug/node_g'' else ''build/default/node'')
      in if IsWindows system \<and> \<not> py_endswith name ''.exe'' then abspath (name @ ''.exe'') else name)"

definition GetVmFlags :: "string list \<Rightarrow> string \<Rightarrow> string list res" where
  "GetVmFlags variant_flags mode = rbind (FLAGS mode) (\<lambda>fl. Inr (variant_flags @ fl))"

definition GetVmCommand :: "(string \<Rightarrow> string) \<Rightarrow> string \<Rightarrow> string list \<Rightarrow> string \<Rightarrow> string list res" where
  "GetVmCommand abspath system variant_flags mode =
     rbind (GetVmFlags variant_flags mode) (\<lambda>fl. Inr (GetVm abspath system mode # fl))"

definition GetTimeout :: "context_rec \<Rightarrow> string \<Rightarrow> rat res" where
  "GetTimeout ctx mode = rbind (TIMEOUT_SCALEFACTOR mode) (\<lambda>f. Inr (ctx_timeout ctx * f))"

definition RunCommand ::
  "context_rec \<Rightarrow> (string list \<Rightarrow> rat \<Rightarrow> command_output res) \<Rightarrow> test_case \<Rightarrow> string list \<Rightarrow> test_output res" where
  "RunCommand ctx exec t command =
     (let full_command = processor ctx command in
      rbind (GetTimeout ctx (tc_mode t)) (\<lambda>timeout.
      rbind (exec full_command timeout) (\<lambda>output.
        Inr \<lparr>to_test = t, to_command = full_command, to_output = output,
             to_store_unexpected = store_unexpected_output ctx\<rparr>)))"

subsection \<open>Suites\<close>

definition CarCdr :: "'a list \<Rightarrow> 'a option \<times> 'a list" where
  "CarCdr path = (case path of [] \<Rightarrow> (None, []) | x # xs \<Rightarrow> (Some x, xs))"

text \<open>What the \<open>testcfg\<close> module of a suite provides.\<close>

record test_config =
  cfg_ListTests :: "string list \<Rightarrow> pattern list \<Rightarrow> string \<Rightarrow> test_case list res"
  cfg_GetBuildRequirements :: "string list"
  cfg_GetTestStatus :: "section_rec list \<Rightarrow> defs \<Rightarrow> (section_rec list \<times> defs) res"

record listed =
  lt_case :: test_case
  lt_variant_flags :: "string list"

definition VARIANT_FLAGS :: "string list list" where "VARIANT_FLAGS = [[]]"

record repository =
  repo_name :: string
  is_loaded :: bool
  repo_config :: "test_config option"

definition TestRepository :: "string \<Rightarrow> repository" where
  "TestRepository name = \<lparr>repo_name = name, is_loaded = False, repo_config = None\<rparr>"

text \<open>\<open>load\<close> is \<open>imp.load_module\<close> and the call of the module's \<open>GetConfiguration\<close>. When it raises, the
  repository stays marked as loaded, without a configuration.\<close>

definition GetConfiguration ::
  "(string \<Rightarrow> test_config res) \<Rightarrow> repository \<Rightarrow> test_config option res \<times> repository" where
  "GetConfiguration load r =
     (if is_loaded r then (Inr (repo_config r), r)
      else let r = r\<lparr>is_loaded := True\<rparr> in
        (case load (repo_name r) of
           Inl e \<Rightarrow> (Inl e, r)
         | Inr cfg \<Rightarrow> (Inr (Some cfg), r\<lparr>repo_config := Some cfg\<rparr>)))"

text \<open>A method call on the configuration, which may be \<open>None\<close>.\<close>

definition with_config ::
  "(string \<Rightarrow> test_config res) \<Rightarrow> repository \<Rightarrow> (test_config \<Rightarrow> 'a res) \<Rightarrow> 'a res \<times> repository" where
  "with_config load r f =
     (case GetConfiguration load r of
        (Inl e, r) \<Rightarrow> (Inl e, r)
      | (Inr None, r) \<Rightarrow> (Inl AttributeError, r)
      | (Inr (Some cfg), r) \<Rightarrow> (f cfg, r))"

definition AddTestsToList ::
  "(string \<Rightarrow> test_config res) \<Rightarrow> listed list \<Rightarrow> string list \<Rightarrow> pattern list \<Rightarrow> string \<Rightarrow> repository \<Rightarrow>
   listed list res \<times> repository" where
  "AddTestsToList load result current_path path mode r =
     fold (\<lambda>v (acc, r). case acc of
         Inl e \<Rightarrow> (Inl e, r)
       | Inr result \<Rightarrow>
           (case with_config load r (\<lambda>cfg. cfg_ListTests cfg current_path path mode) of
              (Inl e, r) \<Rightarrow> (Inl e, r)
            | (Inr tests, r) \<Rightarrow>
                (Inr (result @ map (\<lambda>t. \<lparr>lt_case = t, lt_variant_flags = v\<rparr>) tests), r)))
       VARIANT_FLAGS (Inr result, r)"

definition name_matches :: "pattern option \<Rightarrow> string \<Rightarrow> bool res" where
  "name_matches name s = (case name of None \<Rightarrow> Inr True | Some p \<Rightarrow> Pattern_match p s)"

fun suite_requirements ::
  "(string \<Rightarrow> test_config res) \<Rightarrow> pattern option \<Rightarrow> repository list \<Rightarrow> string list \<Rightarrow>
   string list res \<times> repository list" where
  "suite_requirements load name [] result = (Inr result, [])"
| "suite_requirements load name (r # rs) result =
     (case name_matches name (repo_name r) of
        Inl e \<Rightarrow> (Inl e, r # rs)
      | Inr False \<Rightarrow> (let (x, rs) = suite_requirements load name rs result in (x, r # rs))
      | Inr True \<Rightarrow>
          (case with_config load r (\<lambda>cfg. Inr (cfg_GetBuildRequirements cfg)) of
             (Inl e, r) \<Rightarrow> (Inl e, r # rs)
           | (Inr reqs, r) \<Rightarrow>
               (let (x, rs) = suite_requirements load name rs (result @ reqs) in (x, r # rs))))"

definition GetBuildRequirements ::
  "(string \<Rightarrow> test_config res) \<Rightarrow> repository list \<Rightarrow> pattern list \<Rightarrow> string list res \<times> repository list" where
  "GetBuildRequirements load repos path = suite_requirements load (fst (CarCdr path)) repos []"

fun suite_tests ::
  "(string \<Rightarrow> test_config res) \<Rightarrow> pattern option \<Rightarrow> string list \<Rightarrow> pattern list \<Rightarrow> string \<Rightarrow>
   repository list \<Rightarrow> listed list \<Rightarrow> listed list res \<times> repository list" where
  "suite_tests load name current_path path mode [] result = (Inr result, [])"
| "suite_tests load name current_path path mode (r # rs) result =
     (case name_matches name (repo_name r) of
        Inl e \<Rightarrow> (Inl e, r # rs)
      | Inr False \<Rightarrow> (let (x, rs) = suite_tests load name current_path path mode rs result in (x, r # rs))
      | Inr True \<Rightarrow>
          (case AddTestsToList load result (current_path @ [repo_name r]) path mode r of
             (Inl e, r) \<Rightarrow> (Inl e, r # rs)
           | (Inr result, r) \<Rightarrow>
               (let (x, rs) = suite_tests load name current_path path mode rs result in (x, r # rs))))"

definition ListTests ::
  "(string \<Rightarrow> test_config res) \<Rightarrow> repository list \<Rightarrow> string list \<Rightarrow> pattern list \<Rightarrow> string \<Rightarrow>
   listed list res \<times> repository list" where
  "ListTests load repos current_path path mode =
     suite_tests load (fst (CarCdr path)) current_path path mode repos []"

fun GetTestStatus ::
  "(string \<Rightarrow> test_config res) \<Rightarrow> repository list \<Rightarrow> section_rec list \<Rightarrow> defs \<Rightarrow>
   (section_rec list \<times> defs) res \<times> repository list" where
  "GetTestStatus load [] sections defs = (Inr (sections, defs), [])"
| "GetTestStatus load (r # rs) sections defs =
     (case with_config load r (\<lambda>cfg. cfg_GetTestStatus cfg sections defs) of
        (Inl e, r) \<Rightarrow> (Inl e, r # rs)
      | (Inr (sections, defs), r) \<Rightarrow>
          (let (x, rs) = GetTestStatus load rs sections defs in (x, r # rs)))"

subsection \<open>Options\<close>

definition GuessArchitecture :: "string \<Rightarrow> string option" where
  "GuessArchitecture machine =
     (let mid = py_lower machine in
      if py_startswith mid ''arm'' then Some ''arm''
      else if mid = [] \<or>
        re_match (Seq (Grp 1 (Alt (Lit (CHR ''x''))
          (Seq (Lit (CHR ''i'')) (Cls (\<lambda>c. c \<in> set ''3456''))))) (Seq (Str ''86'') Eos)) mid \<noteq> None
        then Some ''ia32''
      else if mid = ''i86pc'' then Some ''ia32''
      else if mid = ''x86_64'' then Some ''ia32''
      else if mid = ''amd64'' then Some ''ia32''
      else None)"

record options_rec =
  opt_mode :: string
  opt_verbose :: bool
  scons_flags :: "string list"
  opt_progress :: progress_kind
  no_build :: bool
  build_only :: bool
  report :: bool
  opt_suite :: "string list"
  opt_timeout :: rat
  opt_arch :: string
  snapshot :: bool
  simulator :: string
  special_command :: "string option"
  valgrind :: bool
  opt_cat :: bool
  warn_unused :: bool
  opt_j :: nat
  opt_time :: bool
  opt_suppress_dialogs :: bool
  opt_shell :: string
  opt_store_unexpected :: bool

text \<open>The defaults of \<open>BuildOptions\<close>. The default of \<open>no_build\<close> is \<open>True\<close> and \<open>--no-build\<close> can only set
  it to \<open>True\<close>.\<close>

definition BuildOptions :: options_rec where
  "BuildOptions =
     \<lparr>opt_mode = ''release'', opt_verbose = False, scons_flags = [], opt_progress = Mono,
      no_build = True, build_only = False, report = False, opt_suite = [], opt_timeout = 60,
      opt_arch = ''none'', snapshot = False, simulator = ''none'', special_command = None,
      valgrind = False, opt_cat = False, warn_unused = False, opt_j = 1, opt_time = False,
      opt_suppress_dialogs = True, opt_shell = ''shell'', opt_store_unexpected = True\<rparr>"

text \<open>\<open>ProcessOptions\<close>: whether the options are usable, the options after it, and the list of modes.\<close>

definition add_flag :: "string \<Rightarrow> options_rec \<Rightarrow> options_rec" where
  "add_flag fl opts = opts\<lparr>scons_flags := scons_flags opts @ [fl]\<rparr>"

definition finish_options :: "options_rec \<Rightarrow> options_rec" where
  "finish_options opts = (if snapshot opts then add_flag ''snapshot=on'' opts else opts)"

definition ProcessOptions ::
  "string option \<Rightarrow> options_rec \<Rightarrow> (bool \<times> options_rec \<times> string list) res" where
  "ProcessOptions arch_guess opts =
     (let modes = py_split (CHR '','') (opt_mode opts) in
      if \<exists>m \<in> set modes. m \<noteq> ''debug'' \<and> m \<noteq> ''release'' then Inr (False, opts, modes)
      else if simulator opts \<noteq> ''none'' then
        (if simulator opts \<noteq> opt_arch opts \<and> opt_arch opts \<noteq> ''none'' then Inr (False, opts, modes)
         else
           let opts = (if simulator opts \<noteq> opt_arch opts then opts\<lparr>opt_arch := simulator opts\<rparr> else opts)
           in Inr (True, finish_options (add_flag (''simulator='' @ simulator opts) opts), modes))
      else if opt_arch opts = ''none'' then
        (case arch_guess of
           None \<Rightarrow> Inl TypeError
         | Some a \<Rightarrow>
             Inr (True, finish_options (add_flag (''arch='' @ a) (opts\<lparr>opt_arch := a\<rparr>)), modes))
      else Inr (True, finish_options (add_flag (''arch='' @ opt_arch opts) opts), modes))"

lemma finish_options_fields [simp]:
  "opt_arch (finish_options opts) = opt_arch opts" "no_build (finish_options opts) = no_build opts"
  "scons_flags (finish_options opts) = scons_flags opts @ (if snapshot opts then [''snapshot=on''] else [])"
  by (simp_all add: finish_options_def add_flag_def)

lemma add_flag_fields [simp]:
  "opt_arch (add_flag fl opts) = opt_arch opts" "no_build (add_flag fl opts) = no_build opts"
  "scons_flags (add_flag fl opts) = scons_flags opts @ [fl]" "snapshot (add_flag fl opts) = snapshot opts"
  by (simp_all add: add_flag_def)

text \<open>The decisions of \<open>ProcessOptions\<close>, apart.\<close>

definition rejected :: "options_rec \<Rightarrow> bool" where
  "rejected opts \<longleftrightarrow> \<not> set (py_split (CHR '','') (opt_mode opts)) \<subseteq> {''debug'', ''release''} \<or>
     (simulator opts \<noteq> ''none'' \<and> simulator opts \<noteq> opt_arch opts \<and> opt_arch opts \<noteq> ''none'')"

definition chosen_arch :: "string option \<Rightarrow> options_rec \<Rightarrow> string option" where
  "chosen_arch guess opts =
     (if opt_arch opts \<noteq> ''none'' then Some (opt_arch opts)
      else if simulator opts \<noteq> ''none'' then Some (simulator opts) else guess)"

definition arch_flag :: "options_rec \<Rightarrow> string" where
  "arch_flag opts = (if simulator opts \<noteq> ''none'' then ''simulator='' else ''arch='')"

lemma ProcessOptions_result:
  "ProcessOptions guess opts =
     (if rejected opts then Inr (False, opts, py_split (CHR '','') (opt_mode opts))
      else (case chosen_arch guess opts of
              None \<Rightarrow> Inl TypeError
            | Some a \<Rightarrow> Inr (True, finish_options (add_flag (arch_flag opts @ a) (opts\<lparr>opt_arch := a\<rparr>)),
                py_split (CHR '','') (opt_mode opts))))"
proof -
  have same: "opts\<lparr>opt_arch := opt_arch opts\<rparr> = opts" by simp
  have modes: "(\<exists>m \<in> set ms. m \<noteq> ''debug'' \<and> m \<noteq> ''release'') \<longleftrightarrow> \<not> set ms \<subseteq> {''debug'', ''release''}" for ms
    by blast
  show ?thesis
    unfolding ProcessOptions_def rejected_def chosen_arch_def arch_flag_def Let_def modes
    by (cases "simulator opts = ''none''"; cases "opt_arch opts = ''none''";
        cases "simulator opts = opt_arch opts") (simp_all add: same split: option.split)
qed

subsection \<open>The report\<close>

definition IsFlaky :: "string set \<Rightarrow> bool" where
  "IsFlaky outs \<longleftrightarrow> PASS \<in> outs \<and> FAIL \<in> outs \<and> CRASH \<notin> outs \<and> OKAY \<notin> outs"

definition IsFailOk :: "string set \<Rightarrow> bool" where
  "IsFailOk outs \<longleftrightarrow> card outs = 2 \<and> FAIL \<in> outs \<and> OKAY \<in> outs"

record report_rec =
  rep_total :: nat
  rep_skipped :: int
  rep_nocrash :: nat
  rep_pass :: nat
  rep_fail_ok :: nat
  rep_fail :: nat

definition PrintReport :: "string set list \<Rightarrow> report_rec" where
  "PrintReport cs =
     (let unskipped = filter (\<lambda>c. SKIP \<notin> c) cs in
      \<lparr>rep_total = length cs,
       rep_skipped = int (length cs) - int (length unskipped),
       rep_nocrash = length (filter IsFlaky unskipped),
       rep_pass = length (filter (\<lambda>c. c = {PASS}) unskipped),
       rep_fail_ok = length (filter IsFailOk unskipped),
       rep_fail = length (filter (\<lambda>c. c = {FAIL}) unskipped)\<rparr>)"

subsection \<open>Special commands\<close>

text \<open>\<open>urllib.unquote\<close>: \<open>%xx\<close> is the character with that code; other uses of \<open>%\<close> stay.\<close>

definition hex_val :: "char \<Rightarrow> nat option" where
  "hex_val c =
     (if py_isdigit c then Some (ord c - 48)
      else if 97 \<le> ord c \<and> ord c \<le> 102 then Some (ord c - 87)
      else if 65 \<le> ord c \<and> ord c \<le> 70 then Some (ord c - 55)
      else None)"

fun unquote :: "string \<Rightarrow> string" where
  "unquote [] = []"
| "unquote (c # cs) =
     (if c = CHR ''%'' then
        (case cs of
           a # b # rest \<Rightarrow>
             (case (hex_val a, hex_val b) of
                (Some x, Some y) \<Rightarrow> char_of (16 * x + y) # unquote rest
              | _ \<Rightarrow> c # unquote cs)
         | _ \<Rightarrow> c # unquote cs)
      else c # unquote cs)"

definition GetSpecialCommandProcessor :: "string option \<Rightarrow> string list \<Rightarrow> string list" where
  "GetSpecialCommandProcessor value args =
     (case value of
        None \<Rightarrow> args
      | Some v \<Rightarrow>
          (case find_sub ''@'' v of
             None \<Rightarrow> args
           | Some pos \<Rightarrow>
               py_split_ws (unquote (take pos v)) @ args @ py_split_ws (unquote (drop (Suc pos) v))))"

subsection \<open>The main program\<close>

definition BUILT_IN_TESTS :: "string list" where
  "BUILT_IN_TESTS = [''simple'', ''pummel'', ''message'', ''internet'']"

text \<open>A test with its classification.\<close>

record case_rec =
  cr_test :: listed
  cr_outcomes :: "string set"

definition DoSkip :: "case_rec \<Rightarrow> bool" where
  "DoSkip c \<longleftrightarrow> SKIP \<in> cr_outcomes c \<or> SLOW \<in> cr_outcomes c"

text \<open>The identity of the rules in \<open>all_rules\<close> of \<open>ClassifyTests\<close>: section and place.\<close>

fun rule_ids :: "nat \<Rightarrow> env \<Rightarrow> defs \<Rightarrow> nat \<Rightarrow> section_rec list \<Rightarrow> (nat \<times> nat) list res" where
  "rule_ids n env defs k [] = Inr []"
| "rule_ids n env defs k (s # ss) =
     rbind (eval_condition n env defs s) (\<lambda>b.
     rbind (rule_ids n env defs (Suc k) ss) (\<lambda>rest.
       Inr (if b then map (\<lambda>j. (k, j)) [0..<length (sec_rules s)] @ rest else rest)))"

record main_state =
  ms_repos :: "repository list"
  all_cases :: "case_rec list"
  unclassified :: "listed list"
  globally_unused :: "(nat \<times> nat) set option"

record main_env =
  me_load :: "string \<Rightarrow> test_config res"
  me_system :: string           \<comment> \<open>\<open>platform.system()\<close>\<close>
  me_exists :: "string \<Rightarrow> bool"  \<comment> \<open>\<open>os.path.exists\<close>\<close>
  me_abspath :: "string \<Rightarrow> string"
  me_build :: "string list \<Rightarrow> string list \<Rightarrow> string list \<Rightarrow> bool"  \<comment> \<open>\<open>BuildRequirements\<close>\<close>
  me_run :: "case_rec list \<Rightarrow> progress_kind \<Rightarrow> nat \<Rightarrow> bool option"
    \<comment> \<open>\<open>RunTestCases\<close>; \<open>None\<close> is a \<open>KeyboardInterrupt\<close>\<close>
  me_depth :: nat               \<comment> \<open>the recursion limit\<close>

text \<open>The dictionary \<open>env\<close>. On a system \<open>utils.GuessOS()\<close> does not know the value of \<open>system\<close> is Python's
  \<open>None\<close>, and the model makes no claim.\<close>

definition test_env :: "string \<Rightarrow> string option \<Rightarrow> string \<Rightarrow> string \<Rightarrow> env res" where
  "test_env mode system arch sim =
     (case system of
        Some os \<Rightarrow> Inr [''mode'' \<mapsto> mode, ''system'' \<mapsto> os, ''arch'' \<mapsto> arch, ''simulator'' \<mapsto> sim]
      | None \<Rightarrow> Inl Unmodelled)"

text \<open>The body of the two nested loops over paths and modes.\<close>

definition list_and_classify ::
  "main_env \<Rightarrow> options_rec \<Rightarrow> section_rec list \<Rightarrow> defs \<Rightarrow> pattern list \<Rightarrow> string \<Rightarrow> main_state \<Rightarrow> main_state res" where
  "list_and_classify me opts sections defs path mode st =
     (if \<not> me_exists me (GetVm (me_abspath me) (me_system me) mode) then Inr st
      else
        rbind (test_env mode (GuessOS (me_system me)) (opt_arch opts) (simulator opts)) (\<lambda>env.
        let (tests, repos) = ListTests (me_load me) (ms_repos st) [] path mode
        in rbind tests (\<lambda>test_list.
           rbind (ClassifyTests (me_depth me) sections defs (map (tc_path \<circ> lt_case) test_list) env)
             (\<lambda>(classes, unused, _).
           rbind (rule_ids (me_depth me) env defs 0 sections) (\<lambda>ids.
             let unused_rules = (\<lambda>i. ids ! i) ` unused in
             Inr (st\<lparr>ms_repos := repos,
               unclassified := unclassified st @ test_list,
               globally_unused := Some (case globally_unused st of
                   None \<Rightarrow> unused_rules
                 | Some g \<Rightarrow> g \<inter> unused_rules),
               all_cases := all_cases st @
                 map2 (\<lambda>t c. \<lparr>cr_test = t, cr_outcomes = cl_outcomes c\<rparr>) test_list classes\<rparr>))))))"

fun for_each :: "('a \<Rightarrow> 's \<Rightarrow> 's res) \<Rightarrow> 'a list \<Rightarrow> 's \<Rightarrow> 's res" where
  "for_each f [] s = Inr s"
| "for_each f (x # xs) s = rbind (f x s) (for_each f xs)"

fun all_requirements ::
  "(string \<Rightarrow> test_config res) \<Rightarrow> pattern list list \<Rightarrow> repository list \<Rightarrow> string list \<Rightarrow>
   (string list \<times> repository list) res" where
  "all_requirements load [] repos reqs = Inr (reqs, repos)"
| "all_requirements load (path # paths) repos reqs =
     (let (x, repos) = GetBuildRequirements load repos path
      in rbind x (\<lambda>more. all_requirements load paths repos (reqs @ more)))"

text \<open>The build step: \<open>None\<close> when \<open>Main\<close> goes on, \<open>Some 1\<close> when the build failed. \<open>list(set(reqs))\<close> has the
  requirements once each, in an order the model does not fix but takes from the list.\<close>

definition build_step ::
  "main_env \<Rightarrow> options_rec \<Rightarrow> string list \<Rightarrow> pattern list list \<Rightarrow> repository list \<Rightarrow>
   (int option \<times> repository list) res" where
  "build_step me opts modes paths repos =
     (if no_build opts then Inr (None, repos)
      else rbind (all_requirements (me_load me) paths repos []) (\<lambda>(reqs, repos).
        let reqs = remdups reqs in
        if reqs = [] then Inr (None, repos)
        else
          let flags = (if opt_j opts \<noteq> 1 then scons_flags opts @ [''-j'', py_str_nat (opt_j opts)]
                       else scons_flags opts)
          in Inr (if me_build me reqs modes flags then None else Some 1, repos)))"

definition run_step :: "main_env \<Rightarrow> options_rec \<Rightarrow> case_rec list \<Rightarrow> int" where
  "run_step me opts cs =
     (let cases_to_run = filter (\<lambda>c. \<not> DoSkip c) cs in
      if length cases_to_run = 0 then 0
      else (case me_run me cases_to_run (opt_progress opts) (opt_j opts) of
              None \<Rightarrow> 1
            | Some True \<Rightarrow> 0
            | Some False \<Rightarrow> 1))"

text \<open>\<open>Main\<close>, from the parsed options and arguments to the exit code; \<open>suites\<close> is what \<open>GetSuites\<close>
  returns.\<close>

definition Main ::
  "main_env \<Rightarrow> string option \<Rightarrow> options_rec \<Rightarrow> string list \<Rightarrow> string list \<Rightarrow> int res" where
  "Main me arch_guess options args suites =
     rbind (ProcessOptions arch_guess options) (\<lambda>(ok, opts, modes).
       if \<not> ok then Inr 1
       else
         let repos = map TestRepository (suites @ opt_suite opts);
             paths = map SplitPath (if length args = 0 then BUILT_IN_TESTS else args)
         in rbind (build_step me opts modes paths repos) (\<lambda>(failed_build, repos).
            case failed_build of
              Some code \<Rightarrow> Inr code
            | None \<Rightarrow>
                if build_only opts then Inr 0
                else
                  let (status, repos) = GetTestStatus (me_load me) repos [] Map.empty
                  in rbind status (\<lambda>(sections, defs).
                     rbind (for_each (\<lambda>path. for_each (\<lambda>mode. list_and_classify me opts sections defs path mode) modes)
                       paths
                       \<lparr>ms_repos = repos, all_cases = [], unclassified = [], globally_unused = None\<rparr>) (\<lambda>st.
                       if opt_cat opts then Inr 0
                       else if warn_unused opts \<and> globally_unused st = None then Inl TypeError
                       else Inr (run_step me opts (all_cases st))))))"

subsection \<open>The polling loop returns\<close>

definition expired :: "rat option \<Rightarrow> (nat \<Rightarrow> rat) \<Rightarrow> nat \<Rightarrow> bool" where
  "expired end_time clock k \<longleftrightarrow> (\<exists>e. end_time = Some e \<and> e \<le> clock k)"

lemma poll_loop_Suc:
  "poll_loop (Suc n) end_time clock poll wait k sl =
     (if expired end_time clock k then Some (wait, True, [])
      else (case poll k of
              Some code \<Rightarrow> Some (code, False, [sl])
            | None \<Rightarrow> map_option (\<lambda>(code, t, sls). (code, t, sl # sls))
                (poll_loop n end_time clock poll wait (Suc k) (next_sleep sl))))"
  by (auto simp: expired_def split: option.splits)

text \<open>The sleeping times of the rounds.\<close>

definition sleep_at :: "nat \<Rightarrow> rat" where
  "sleep_at k = (next_sleep ^^ k) INITIAL_SLEEP_TIME"

lemma sleep_at_simps: "sleep_at 0 = INITIAL_SLEEP_TIME" "next_sleep (sleep_at k) = sleep_at (Suc k)"
  by (simp_all add: sleep_at_def)

lemma sleep_at_bounds: "INITIAL_SLEEP_TIME \<le> sleep_at k \<and> sleep_at k \<le> MAX_SLEEP_TIME"
proof (induction k)
  case (Suc k)
  then show ?case
    unfolding sleep_at_simps(2) [symmetric] by (auto simp: next_sleep_def sleep_defs Let_def)
qed (simp add: sleep_at_simps sleep_defs)

lemma poll_loop_first:
  assumes "\<And>j. k \<le> j \<Longrightarrow> j < m \<Longrightarrow> \<not> expired end_time clock j \<and> poll j = None" "k \<le> m" "m - k < n"
    and "expired end_time clock m \<or> poll m \<noteq> None"
  shows "poll_loop n end_time clock poll wait k (sleep_at k) =
    Some (if expired end_time clock m then (wait, True, map sleep_at [k..<m])
          else (the (poll m), False, map sleep_at [k..<Suc m]))"
  using assms
proof (induction n arbitrary: k)
  case (Suc n)
  show ?case
  proof (cases "k = m")
    case True
    then show ?thesis using Suc.prems(4) by (auto simp: poll_loop_Suc simp del: poll_loop.simps)
  next
    case False
    then have k: "k < m" using Suc.prems by simp
    have go: "\<not> expired end_time clock k" "poll k = None" using Suc.prems(1) k by auto
    have "poll_loop n end_time clock poll wait (Suc k) (sleep_at (Suc k)) =
      Some (if expired end_time clock m then (wait, True, map sleep_at [Suc k..<m])
          else (the (poll m), False, map sleep_at [Suc k..<Suc m]))"
      using Suc.prems k by (intro Suc.IH) auto
    moreover have "[k..<m] = k # [Suc k..<m]" "[k..<Suc m] = k # [Suc k..<Suc m]"
      using k by (simp_all add: upt_conv_Cons del: upt_Suc)
    ultimately show ?thesis using go
      by (simp add: poll_loop_Suc sleep_at_simps(2) del: poll_loop.simps upt_Suc)
  qed
qed simp

lemma clock_advances:
  assumes "\<And>k. clock (Suc k) \<ge> clock k + sleep_at k"
  shows "clock k \<ge> clock 0 + of_nat k * INITIAL_SLEEP_TIME"
proof (induction k)
  case (Suc k)
  then show ?case using assms [of k] sleep_at_bounds [of k] by (simp add: distrib_right)
qed simp

text \<open>\<open>RunProcess\<close> with a time limit returns: as the clock goes on by at least the time slept, at
  most \<open>10000 * timeout + 1\<close> rounds are needed. The result is that of the first round in which the
  limit is reached or the process has exited: killed and timed out, or the exit code of the process.
  No round sleeps longer than \<open>MAX_SLEEP_TIME\<close>.\<close>

theorem RunProcess_returns:
  assumes "\<And>k. clock (Suc k) \<ge> clock k + sleep_at k" "now \<le> clock 0" "0 \<le> timeout"
    and "of_nat n \<ge> timeout * 10000 + 2"
  shows "\<exists>m code t slept mode'. RunProcess n windows suppress (Some timeout) now clock poll wait mode =
      Some ((code, t, slept), mode') \<and>
    (\<forall>j < m. clock j < now + timeout \<and> poll j = None) \<and>
    (if t then now + timeout \<le> clock m \<and> code = wait else clock m < now + timeout \<and> poll m = Some code) \<and>
    (\<forall>x \<in> set slept. x \<le> MAX_SLEEP_TIME)"
proof -
  let ?e = "Some (now + timeout)"
  let ?stop = "\<lambda>j. expired ?e clock j \<or> poll j \<noteq> None"
  define big where "big = nat \<lceil>timeout * 10000\<rceil>"
  have "timeout \<le> of_nat big * INITIAL_SLEEP_TIME"
    using assms(3) by (simp add: big_def INITIAL_SLEEP_TIME_def)
  then have stop: "?stop big"
    using clock_advances [of clock big, OF assms(1)] assms(2) by (auto simp: expired_def)
  define m where "m = (LEAST j. ?stop j)"
  have m: "?stop m" "m \<le> big" "\<And>j. j < m \<Longrightarrow> \<not> ?stop j"
    unfolding m_def using LeastI [of ?stop, OF stop] Least_le [of ?stop, OF stop] not_less_Least [of _ ?stop]
    by blast+
  have "of_nat big < timeout * 10000 + 1" using assms(3) by (simp add: big_def) linarith
  then have "(of_nat big :: rat) < of_nat n" using assms(4) by linarith
  then have "m < n" using m(2) by simp
  with m have "poll_loop n ?e clock poll wait 0 (sleep_at 0) =
    Some (if expired ?e clock m then (wait, True, map sleep_at [0..<m])
          else (the (poll m), False, map sleep_at [0..<Suc m]))"
    by (intro poll_loop_first) auto
  then obtain code t slept where r: "poll_loop n ?e clock poll wait 0 INITIAL_SLEEP_TIME = Some (code, t, slept)"
    "if t then expired ?e clock m \<and> code = wait else \<not> expired ?e clock m \<and> poll m = Some code"
    "set slept \<subseteq> range sleep_at"
    using m(1) by (cases "expired ?e clock m") (fastforce simp: sleep_at_simps)+
  then have "\<exists>mode'. RunProcess n windows suppress (Some timeout) now clock poll wait mode =
      Some ((code, t, slept), mode')"
    by (simp add: RunProcess_def split_def Let_def)
  moreover have "\<forall>j < m. clock j < now + timeout \<and> poll j = None"
    using m(3) by (force simp: expired_def)
  moreover have "if t then now + timeout \<le> clock m \<and> code = wait
      else clock m < now + timeout \<and> poll m = Some code"
    using r(2) by (auto simp: expired_def split: if_splits)
  moreover have "\<forall>x \<in> set slept. x \<le> MAX_SLEEP_TIME" using r(3) sleep_at_bounds by auto
  ultimately show ?thesis by blast
qed

theorem RunProcess_returns_witness:
  "\<exists>code t slept mode'. RunProcess 10002 False True (Some 1) 0 rat_of_nat (\<lambda>k. if k < 5 then None else Some 7) (-15) None =
     Some ((code, t, slept), mode')"
proof -
  have "rat_of_nat (Suc k) \<ge> rat_of_nat k + sleep_at k" for k
    using sleep_at_bounds [of k] by (simp add: sleep_defs)
  from RunProcess_returns [OF this, of 0 1 10002 False True "\<lambda>k. if k < 5 then None else Some 7" "-15" None]
  show ?thesis by auto
qed

subsection \<open>Other properties\<close>

text \<open>With suppressed dialogs the Windows error mode is changed for the start of the process and
  then put back: \<open>RunProcess\<close> leaves it as it was, unless it was the value \<open>SEM_INVALID_VALUE\<close>, which
  stands for "unknown".\<close>

theorem RunProcess_restores_error_mode:
  assumes "RunProcess n windows suppress timeout now clock poll wait mode = Some (r, mode')"
    and "mode \<noteq> Some SEM_INVALID_VALUE"
  shows "mode' = mode"
  using assms
  by (auto simp: RunProcess_def Win32SetErrorMode_def Let_def split: if_splits option.splits)

theorem RunProcess_restores_error_mode_witness:
  "RunProcess 3 True True None 0 (\<lambda>k. 0) (\<lambda>k. Some 0) 0 (Some 5) =
     Some ((0, False, [INITIAL_SLEEP_TIME]), Some 5)"
proof -
  obtain mode' where r: "RunProcess 3 True True None 0 (\<lambda>k. 0) (\<lambda>k. Some 0) 0 (Some 5) =
      Some ((0, False, [INITIAL_SLEEP_TIME]), mode')"
    by (simp add: RunProcess_def split_def Let_def numeral_3_eq_3)
  from RunProcess_restores_error_mode [OF r] r show ?thesis by (simp add: SEM_INVALID_VALUE_def)
qed

text \<open>The lines of the report count disjoint groups of tests, so they add up to at most the total,
  and the skipped and the unskipped tests add up to the total.\<close>

theorem PrintReport_disjoint:
  "let r = PrintReport cs in
     rep_skipped r = int (length (filter (\<lambda>c. SKIP \<in> c) cs)) \<and>
     rep_skipped r + int (rep_nocrash r + rep_pass r + rep_fail_ok r + rep_fail r) \<le> int (rep_total r)"
proof -
  let ?un = "filter (\<lambda>c. SKIP \<notin> c) cs"
  have neq: "PASS \<noteq> FAIL" "OKAY \<noteq> FAIL" "PASS \<noteq> OKAY" by (simp_all add: PASS_def FAIL_def OKAY_def)
  have "length (filter IsFlaky xs) + length (filter (\<lambda>c. c = {PASS}) xs) +
      length (filter IsFailOk xs) + length (filter (\<lambda>c. c = {FAIL}) xs) \<le> length xs" for xs
  proof (induction xs)
    case (Cons c xs)
    have "\<not> (IsFlaky c \<and> c = {PASS})" "\<not> (IsFlaky c \<and> IsFailOk c)" "\<not> (IsFlaky c \<and> c = {FAIL})"
      "\<not> (c = {PASS} \<and> IsFailOk c)" "\<not> (c = {PASS} \<and> c = {FAIL})" "\<not> (IsFailOk c \<and> c = {FAIL})"
      using neq by (auto simp: IsFlaky_def IsFailOk_def)
    then show ?case using Cons.IH by auto
  qed simp
  from this [of ?un] show ?thesis
    using sum_length_filter_compl [of "\<lambda>c. SKIP \<in> c" cs]
    by (auto simp: PrintReport_def Let_def)
qed

text \<open>\<open>ProcessOptions\<close> accepts the options exactly when all modes are known and architecture and
  simulator agree; then the flags for the build name the architecture or the simulator that the tests
  are classified for, and the architecture is never left open.\<close>

theorem ProcessOptions_correct:
  assumes "ProcessOptions arch_guess opts = Inr (ok, opts', modes)" "arch_guess \<noteq> Some ''none''"
  shows "modes = py_split (CHR '','') (opt_mode opts) \<and>
    (ok \<longleftrightarrow> set modes \<subseteq> {''debug'', ''release''} \<and>
       (simulator opts = ''none'' \<or> simulator opts = opt_arch opts \<or> opt_arch opts = ''none'')) \<and>
    (ok \<longrightarrow> opt_arch opts' \<noteq> ''none'' \<and>
       scons_flags opts' = scons_flags opts @
         [(if simulator opts \<noteq> ''none'' then ''simulator='' else ''arch='') @ opt_arch opts'] @
         (if snapshot opts then [''snapshot=on''] else []))"
proof (cases "rejected opts")
  case True
  then have "modes = py_split (CHR '','') (opt_mode opts)" "\<not> ok"
    using assms(1) by (auto simp: ProcessOptions_result)
  with True show ?thesis unfolding rejected_def by blast
next
  case False
  then obtain a where a: "chosen_arch arch_guess opts = Some a" and ok: "ok"
    and modes: "modes = py_split (CHR '','') (opt_mode opts)"
    and opts': "opts' = finish_options (add_flag (arch_flag opts @ a) (opts\<lparr>opt_arch := a\<rparr>))"
    using assms(1) by (simp add: ProcessOptions_result split: option.splits)
  have "a \<noteq> ''none''" using a assms(2) by (auto simp: chosen_arch_def split: if_splits)
  moreover have "opt_arch opts' = a" "scons_flags opts' =
      scons_flags opts @ [arch_flag opts @ a] @ (if snapshot opts then [''snapshot=on''] else [])"
    by (simp_all add: opts')
  ultimately show ?thesis
    using False ok unfolding rejected_def arch_flag_def modes by blast
qed

theorem ProcessOptions_correct_witness:
  "\<exists>opts'. ProcessOptions (Some ''ia32'') (BuildOptions\<lparr>opt_mode := ''debug,release''\<rparr>) =
     Inr (True, opts', [''debug'', ''release'']) \<and> opt_arch opts' = ''ia32'' \<and> scons_flags opts' = [''arch=ia32'']"
proof -
  obtain opts' where r: "ProcessOptions (Some ''ia32'') (BuildOptions\<lparr>opt_mode := ''debug,release''\<rparr>) =
      Inr (True, opts', [''debug'', ''release''])" "opt_arch opts' = ''ia32''"
    by (simp add: ProcessOptions_def BuildOptions_def py_str finish_options_def add_flag_def)
  from ProcessOptions_correct [OF r(1)] r show ?thesis by (simp add: BuildOptions_def)
qed

text \<open>The module of a suite is loaded once: after the first call \<open>GetConfiguration\<close> answers from
  the repository, whatever a second load would do. When the first load raised, every later use of the
  suite is an \<open>AttributeError\<close>.\<close>

theorem GetConfiguration_once:
  "let (x, r) = GetConfiguration load (TestRepository name) in
     is_loaded r \<and> GetConfiguration load' r = (Inr (repo_config r), r) \<and>
     (case load name of
        Inr cfg \<Rightarrow> x = Inr (Some cfg) \<and> with_config load' r f = (f cfg, r)
      | Inl e \<Rightarrow> x = Inl e \<and> with_config load' r f = (Inl AttributeError, r))"
  by (simp add: GetConfiguration_def with_config_def Let_def TestRepository_def split: sum.splits)

lemma list_and_classify_no_vm:
  assumes "\<And>mode. \<not> me_exists me (GetVm (me_abspath me) (me_system me) mode)"
  shows "for_each (\<lambda>path. for_each (\<lambda>mode. list_and_classify me opts sections defs path mode) modes) paths st = Inr st"
proof -
  have inner: "for_each (\<lambda>mode. list_and_classify me opts sections defs path mode) modes st = Inr st" for path
    by (induction modes) (simp_all add: list_and_classify_def assms)
  show ?thesis by (induction paths) (simp_all add: inner)
qed

text \<open>When no executable is there to run the tests with, \<open>Main\<close> still returns 0, success (or dies of
  a \<open>TypeError\<close> with \<open>--warn-unused\<close>), provided the options are accepted and the status files can be
  read.\<close>

theorem Main_without_vm_succeeds:
  assumes "\<And>mode. \<not> me_exists me (GetVm (me_abspath me) (me_system me) mode)"
    and "ProcessOptions arch_guess options = Inr (True, opts, modes)" "no_build opts"
    and "fst (GetTestStatus (me_load me) (map TestRepository (suites @ opt_suite opts)) [] Map.empty) = Inr x"
  shows "Main me arch_guess options args suites =
    (if \<not> build_only opts \<and> \<not> opt_cat opts \<and> warn_unused opts then Inl TypeError else Inr 0)"
  using assms(2-4)
  by (auto simp: Main_def build_step_def split_def Let_def list_and_classify_no_vm [OF assms(1)]
      run_step_def simp del: for_each.simps)

definition sample_env :: main_env where
  "sample_env = \<lparr>me_load = (\<lambda>name. Inr \<lparr>cfg_ListTests = (\<lambda>cur path mode. Inr []), cfg_GetBuildRequirements = [],
       cfg_GetTestStatus = (\<lambda>sections defs. Inr (sections, defs))\<rparr>),
     me_system = ''Linux'', me_exists = (\<lambda>path. False), me_abspath = (\<lambda>path. path),
     me_build = (\<lambda>reqs modes fl. False), me_run = (\<lambda>cs kind j. Some False), me_depth = 100\<rparr>"

theorem Main_without_vm_succeeds_witness:
  "Main sample_env (Some ''ia32'') BuildOptions [] [''simple''] = Inr 0"
proof -
  obtain opts where o: "ProcessOptions (Some ''ia32'') BuildOptions = Inr (True, opts, [''release''])"
    "no_build opts" "opt_suite opts = []" "\<not> warn_unused opts"
    by (simp add: ProcessOptions_def BuildOptions_def py_str finish_options_def add_flag_def)
  have st: "fst (GetTestStatus (me_load sample_env) (map TestRepository ([''simple''] @ opt_suite opts)) [] Map.empty) =
      Inr ([], Map.empty)"
    by (simp add: sample_env_def TestRepository_def with_config_def GetConfiguration_def o(3))
  have no: "\<not> me_exists sample_env p" for p by (simp add: sample_env_def)
  from Main_without_vm_succeeds [OF no o(1,2) st] o(4) show ?thesis by simp
qed

text \<open>The build is never run: \<open>--no-build\<close> is the default and no option clears it, so that the
  result of \<open>Main\<close> does not depend on what building the requirements would do.\<close>

theorem Main_never_builds:
  assumes "no_build options"
  shows "Main (me\<lparr>me_build := b\<rparr>) arch_guess options args suites = Main me arch_guess options args suites"
proof -
  have keep: "no_build opts'" if "ProcessOptions arch_guess options = Inr (ok, opts', modes)" for ok opts' modes
    using that assms by (auto simp: ProcessOptions_result split: if_splits option.splits)
  have lc: "list_and_classify (me\<lparr>me_build := b\<rparr>) = list_and_classify me"
    by (intro ext) (simp add: list_and_classify_def)
  have rs: "run_step (me\<lparr>me_build := b\<rparr>) = run_step me" by (intro ext) (simp add: run_step_def Let_def)
  show ?thesis
  proof (cases "ProcessOptions arch_guess options")
    case (Inr y)
    obtain ok opts' modes where y: "y = (ok, opts', modes)" by (cases y)
    then show ?thesis unfolding Main_def lc rs using Inr keep [of ok opts' modes]
      by (simp add: build_step_def)
  qed (simp add: Main_def)
qed

theorem Main_never_builds_witness:
  "no_build BuildOptions \<and>
   Main (sample_env\<lparr>me_build := (\<lambda>reqs modes fl. True)\<rparr>) (Some ''ia32'') BuildOptions [''simple''] [''simple''] =
   Main sample_env (Some ''ia32'') BuildOptions [''simple''] [''simple'']"
proof -
  have "no_build BuildOptions" by (simp add: BuildOptions_def)
  then show ?thesis using Main_never_builds by blast
qed

text \<open>One round of the loop over paths and modes adds exactly the tests that the suites list for the
  path and mode, each with the outcomes that the status files give it in the environment of that
  mode, in the order of the listing; nothing that was collected before changes.\<close>

theorem list_and_classify_correct:
  assumes "list_and_classify me opts sections defs path mode st = Inr st'"
    and "me_exists me (GetVm (me_abspath me) (me_system me) mode)"
  shows "\<exists>tests env. fst (ListTests (me_load me) (ms_repos st) [] path mode) = Inr tests \<and>
    test_env mode (GuessOS (me_system me)) (opt_arch opts) (simulator opts) = Inr env \<and>
    unclassified st' = unclassified st @ tests \<and>
    all_cases st' = all_cases st @ map (\<lambda>t. \<lparr>cr_test = t, cr_outcomes =
      classified_as env defs (active_rules env defs sections) (tc_path (lt_case t))\<rparr>) tests"
proof -
  obtain tests repos env classes unused outs where
    l: "ListTests (me_load me) (ms_repos st) [] path mode = (Inr tests, repos)"
    and e: "test_env mode (GuessOS (me_system me)) (opt_arch opts) (simulator opts) = Inr env"
    and c: "ClassifyTests (me_depth me) sections defs (map (tc_path \<circ> lt_case) tests) env =
      Inr (classes, unused, outs)"
    and st': "unclassified st' = unclassified st @ tests"
      "all_cases st' = all_cases st @
        map2 (\<lambda>t c. \<lparr>cr_test = t, cr_outcomes = cl_outcomes c\<rparr>) tests classes"
    using assms by (cases "ListTests (me_load me) (ms_repos st) [] path mode")
      (auto simp: list_and_classify_def Let_def)
  have "map2 (\<lambda>t c. \<lparr>cr_test = t, cr_outcomes = cl_outcomes c\<rparr>) tests classes =
      map (\<lambda>t. \<lparr>cr_test = t, cr_outcomes =
        classified_as env defs (active_rules env defs sections) (tc_path (lt_case t))\<rparr>) tests"
    using ClassifyTests_sound [OF c] by (intro nth_equalityI) auto
  with l e st' show ?thesis by auto
qed

theorem list_and_classify_correct_witness:
  "list_and_classify (sample_env\<lparr>me_exists := (\<lambda>p. True)\<rparr>) BuildOptions [] Map.empty [] ''release''
     \<lparr>ms_repos = [], all_cases = [], unclassified = [], globally_unused = None\<rparr> =
   Inr \<lparr>ms_repos = [], all_cases = [], unclassified = [], globally_unused = Some {}\<rparr> \<and>
   all_cases \<lparr>ms_repos = [], all_cases = [], unclassified = [], globally_unused = Some {}\<rparr> = []"
proof -
  let ?me = "sample_env\<lparr>me_exists := (\<lambda>p. True)\<rparr>"
  let ?st = "\<lparr>ms_repos = [], all_cases = [], unclassified = [], globally_unused = None\<rparr>"
  let ?st' = "\<lparr>ms_repos = [], all_cases = [], unclassified = [], globally_unused = Some {}\<rparr>"
  have r: "list_and_classify ?me BuildOptions [] Map.empty [] ''release'' ?st = Inr ?st'"
    by (simp add: list_and_classify_def sample_env_def ListTests_def CarCdr_def ClassifyTests_def
        test_env_def GuessOS_def)
  from list_and_classify_correct [OF r] r show ?thesis by simp
qed

text \<open>With a build that is not asked for, no unused-rule report and no source listing, the exit code
  is 1 exactly when the options are rejected, or when some test that is not skipped is left to run and
  the run failed or was interrupted.\<close>

theorem Main_exit_code:
  assumes "ProcessOptions arch_guess options = Inr (ok, opts, modes)"
    and "no_build opts" "\<not> build_only opts" "\<not> warn_unused opts" "\<not> opt_cat opts"
    and "GetTestStatus (me_load me) (map TestRepository (suites @ opt_suite opts)) [] Map.empty =
      (Inr (sections, defs), repos)"
    and "for_each (\<lambda>path. for_each (\<lambda>mode. list_and_classify me opts sections defs path mode) modes)
      (map SplitPath (if args = [] then BUILT_IN_TESTS else args))
      \<lparr>ms_repos = repos, all_cases = [], unclassified = [], globally_unused = None\<rparr> = Inr st"
  shows "\<exists>code. Main me arch_guess options args suites = Inr code \<and> code \<in> {0, 1} \<and>
    (code = 1 \<longleftrightarrow> \<not> ok \<or>
       ((\<exists>c \<in> set (all_cases st). \<not> DoSkip c) \<and>
        me_run me (filter (\<lambda>c. \<not> DoSkip c) (all_cases st)) (opt_progress opts) (opt_j opts) \<noteq> Some True))"
proof (cases ok)
  case True
  have "Main me arch_guess options args suites = Inr (run_step me opts (all_cases st))"
    using assms True by (simp add: Main_def build_step_def)
  moreover have "run_step me opts (all_cases st) \<in> {0, 1} \<and>
    (run_step me opts (all_cases st) = 1 \<longleftrightarrow> (\<exists>c \<in> set (all_cases st). \<not> DoSkip c) \<and>
        me_run me (filter (\<lambda>c. \<not> DoSkip c) (all_cases st)) (opt_progress opts) (opt_j opts) \<noteq> Some True)"
    by (auto simp: run_step_def Let_def filter_empty_conv split: option.splits bool.splits)
  ultimately show ?thesis using True by blast
qed (use assms in \<open>simp add: Main_def\<close>)

theorem Main_exit_code_witness:
  "\<exists>code. Main sample_env (Some ''ia32'') BuildOptions [] [''simple''] = Inr code \<and> code \<in> {0, 1}"
proof -
  obtain opts where o: "ProcessOptions (Some ''ia32'') BuildOptions = Inr (True, opts, [''release''])"
    "no_build opts" "\<not> build_only opts" "\<not> warn_unused opts" "\<not> opt_cat opts" "opt_suite opts = []"
    by (simp add: ProcessOptions_def BuildOptions_def py_str finish_options_def add_flag_def)
  obtain repos where st: "GetTestStatus (me_load sample_env) (map TestRepository ([''simple''] @ opt_suite opts)) [] Map.empty =
      (Inr ([], Map.empty), repos)"
    by (simp add: sample_env_def TestRepository_def with_config_def GetConfiguration_def o(6))
  have no: "\<not> me_exists sample_env p" for p by (simp add: sample_env_def)
  from Main_exit_code [OF o(1-5) st list_and_classify_no_vm [OF no]] show ?thesis by blast
qed

end
