(* ===== verification/Js2c.thy ===== *)
theory Js2c
  imports PyRegex
begin

section \<open>js2c: JavaScript sources as C arrays\<close>

text \<open>
  \<open>src/tools/js2c.py\<close>, which the build runs to embed the JavaScript library of node as C character
  arrays. A file is the text that reading it gives: \<open>files\<close> maps names to texts. Dictionaries are
  association lists in the order in which they are iterated, which the language does not fix: the
  theorems hold for every order. The body of a python macro is evaluated by Python's \<open>eval\<close>, an
  argument of the model. The nested loops of \<open>ExpandMacros\<close> need not end (a macro may expand to a call
  of itself), so they take a number of rounds and recursions, and are \<open>RecursionError\<close> beyond it.
\<close>

subsection \<open>Arrays\<close>

fun to_c_loop :: "string \<Rightarrow> string \<Rightarrow> nat \<Rightarrow> nat \<Rightarrow> string list \<Rightarrow> string option \<times> string list res" where
  "to_c_loop filename [] row col result = (None, Inr result)"
| "to_c_loop filename (c # cs) row col result =
     (let col = col + 1;
          (row, col) = (if c = CHR 0x0A \<or> c = CHR 0x0D then (row + 1, 0) else (row, col));
          code = ord c
      in if code \<ge> 128
         then (Some (''non-ascii value '' @ filename @ '':'' @ py_str_nat row @ '':'' @ py_str_nat col),
               Inl (SystemExit 1))
         else to_c_loop filename cs row col (result @ [py_str_nat code]))"

text \<open>The message that is printed, if any, and the result.\<close>

definition ToCArray :: "string \<Rightarrow> string \<Rightarrow> string option \<times> string res" where
  "ToCArray filename lines =
     (let (msg, r) = to_c_loop filename lines 1 0 []
      in (msg, rbind r (\<lambda>result. Inr (py_join '', '' (result @ [''0''])))))"



datatype parsed = ListValue "string list" | StrValue string

definition ParseValue :: "string \<Rightarrow> parsed" where
  "ParseValue s =
     (let s = py_strip s in
      if py_startswith s ''['' \<and> py_endswith s '']'' then
        ListValue (py_split_ws (rev (dropWhile (\<lambda>c. c = CHR '']'')
          (rev (dropWhile (\<lambda>c. c = CHR ''['') s)))))
      else StrValue s)"

subsection \<open>Constants and macros\<close>

type_synonym dict = "(string \<times> string) list"

fun dict_set :: "string \<Rightarrow> 'v \<Rightarrow> (string \<times> 'v) list \<Rightarrow> (string \<times> 'v) list" where
  "dict_set k v [] = [(k, v)]"
| "dict_set k v ((k', v') # d) = (if k' = k then (k, v) # d else (k', v') # dict_set k v d)"


datatype macro =
    TextMacro "string list" string
  | PythonMacro "string list" "string list \<Rightarrow> string res"

fun macro_args :: "macro \<Rightarrow> string list" where
  "macro_args (TextMacro args body) = args"
| "macro_args (PythonMacro args f) = args"

fun dict_get_all :: "dict \<Rightarrow> string list \<Rightarrow> string list res" where
  "dict_get_all d [] = Inr []"
| "dict_get_all d (k # ks) =
     (case map_of d k of
        None \<Rightarrow> Inl KeyError
      | Some v \<Rightarrow> rbind (dict_get_all d ks) (\<lambda>vs. Inr (v # vs)))"

fun macro_expand :: "macro \<Rightarrow> dict \<Rightarrow> string res" where
  "macro_expand (TextMacro args body) mapping =
     Inr (fold (\<lambda>(key, val) result. py_replace key val result) mapping body)"
| "macro_expand (PythonMacro args f) mapping = rbind (dict_get_all mapping args) f"

text \<open>The nested function \<open>add_arg\<close>. Its \<open>arg_index\<close> is the variable of the enclosing loop, which is set to
  0 for every call of a macro and never changed.\<close>

definition add_arg :: "(string \<Rightarrow> string res) \<Rightarrow> macro \<Rightarrow> string \<Rightarrow> dict \<Rightarrow> dict res" where
  "add_arg expand m str mapping =
     rbind (expand (py_strip str)) (\<lambda>replacement.
     rbind (py_index (macro_args m) 0) (\<lambda>key. Inr (dict_set key replacement mapping)))"

text \<open>The scan over the arguments; \<open>e\<close> is the source's \<open>end\<close>.\<close>

function scan_args ::
  "(string \<Rightarrow> string res) \<Rightarrow> macro \<Rightarrow> string \<Rightarrow> nat \<Rightarrow> nat \<Rightarrow> nat \<Rightarrow> dict \<Rightarrow> (nat \<times> nat \<times> dict) res" where
  "scan_args expand m lines e height last_match mapping =
     (if e < length lines \<and> height > 0 then
        if lines ! e = CHR '','' \<and> height = 1 then
          rbind (add_arg expand m (py_slice lines last_match e) mapping) (\<lambda>mapping.
            scan_args expand m lines (e + 1) height (e + 1) mapping)
        else if lines ! e \<in> set ''({['' then scan_args expand m lines (e + 1) (height + 1) last_match mapping
        else if lines ! e \<in> set '')}]'' then scan_args expand m lines (e + 1) (height - 1) last_match mapping
        else scan_args expand m lines (e + 1) height last_match mapping
      else Inr (e, last_match, mapping))"
  by pat_completeness auto
termination
  by (relation "measure (\<lambda>(_, _, lines, e, _, _, _). length lines - e)") auto

declare scan_args.simps [simp del]

type_synonym macros = "(string \<times> macro) list"

fun ExpandMacros :: "nat \<Rightarrow> macros \<Rightarrow> string \<Rightarrow> string res"
  and each_macro :: "nat \<Rightarrow> macros \<Rightarrow> macros \<Rightarrow> string \<Rightarrow> string res"
  and macro_loop :: "nat \<Rightarrow> macros \<Rightarrow> string \<Rightarrow> macro \<Rightarrow> nat \<Rightarrow> string \<Rightarrow> string res" where
  "ExpandMacros 0 macros lines = Inl RecursionError"
| "ExpandMacros (Suc n) macros lines = each_macro n macros macros lines"
| "each_macro n macros [] lines = Inr lines"
| "each_macro n macros ((name, m) # rest) lines =
     rbind (macro_loop n macros name m 0 lines) (\<lambda>lines. each_macro n macros rest lines)"
| "macro_loop 0 macros name m from lines = Inl RecursionError"
| "macro_loop (Suc n) macros name m from lines =
     (case py_find lines (name @ ''('') from of
        None \<Rightarrow> Inr lines
      | Some start \<Rightarrow>
          let e = start + length name + 1 in
          rbind (scan_args (\<lambda>s. ExpandMacros n macros s) m lines e 1 e []) (\<lambda>(e, last_match, mapping).
          rbind (add_arg (\<lambda>s. ExpandMacros n macros s) m (py_slice lines last_match (e - 1)) mapping) (\<lambda>mapping.
          rbind (macro_expand m mapping) (\<lambda>result.
            macro_loop n macros name m e (take start lines @ result @ drop e lines)))))"

declare ExpandMacros.simps [simp del] each_macro.simps [simp del] macro_loop.simps [simp del]









subsection \<open>The header\<close>













subsection \<open>Arrays: round trip and positions\<close>

definition newlines :: "string \<Rightarrow> nat" where
  "newlines s = length (filter (\<lambda>c. c = CHR 0x0A \<or> c = CHR 0x0D) s)"

definition line_col :: "string \<Rightarrow> nat" where
  "line_col s = length (takeWhile (\<lambda>c. c \<noteq> CHR 0x0A \<and> c \<noteq> CHR 0x0D) (rev s))"

lemma to_c_loop_append:
  "\<forall>c \<in> set s. ord c < 128 \<Longrightarrow>
   to_c_loop filename (s @ t) (1 + newlines done) (line_col done) result =
   to_c_loop filename t (1 + newlines (done @ s)) (line_col (done @ s)) (result @ map (\<lambda>c. py_str_nat (ord c)) s)"
proof (induction s arbitrary: "done" result)
  case (Cons c s)
  have "to_c_loop filename ((c # s) @ t) (1 + newlines done) (line_col done) result =
      to_c_loop filename (s @ t) (1 + newlines (done @ [c])) (line_col (done @ [c])) (result @ [py_str_nat (ord c)])"
    using Cons.prems by (auto simp: newlines_def line_col_def Let_def)
  also have "\<dots> = to_c_loop filename t (1 + newlines (done @ c # s)) (line_col (done @ c # s))
      (result @ map (\<lambda>c. py_str_nat (ord c)) (c # s))"
    using Cons.IH [of "done @ [c]" "result @ [py_str_nat (ord c)]"] Cons.prems by simp
  finally show ?case .
qed (simp add: newlines_def line_col_def)

lemma empty_position [simp]: "newlines [] = 0" "line_col [] = 0"
  by (simp_all add: newlines_def line_col_def)

lemma str_nat_0 [simp]: "py_str_nat 0 = ''0''"
  by code_simp

lemma digit_not: "py_isdigit c \<Longrightarrow> \<not> py_isspace c" "py_isdigit c \<Longrightarrow> c \<noteq> CHR '',''"
  by (auto simp: char_defs)

lemma ToCArray_ascii:
  assumes "\<forall>c \<in> set s. ord c < 128"
  shows "ToCArray filename s = (None, Inr (py_join '', '' (map py_str_nat (map ord s @ [0]))))"
  using to_c_loop_append [OF assms, of filename "[]" "[]" "[]"]
  by (simp add: ToCArray_def comp_def)

lemma ToCArray_other:
  assumes "\<forall>c \<in> set s. ord c < 128" "ord c \<ge> 128"
  shows "ToCArray filename (s @ c # t) =
    (Some (''non-ascii value '' @ filename @ '':'' @ py_str_nat (1 + newlines s) @ '':'' @
       py_str_nat (line_col s + 1)), Inl (SystemExit 1))"
proof -
  have "c \<noteq> CHR 0x0A" "c \<noteq> CHR 0x0D" using assms(2) by (auto simp: ord_def)
  with to_c_loop_append [OF assms(1), of filename "c # t" "[]" "[]"] assms(2) show ?thesis
    by (simp add: ToCArray_def Let_def)
qed

text \<open>How a C compiler reads the initialiser: numbers between commas.\<close>

definition c_array :: "string \<Rightarrow> nat list" where
  "c_array s = map (digits_val \<circ> py_strip) (py_split (CHR '','') s)"

lemma split_join_comma:
  assumes "xs \<noteq> []" "\<forall>x \<in> set xs. CHR '','' \<notin> set x"
  shows "py_split (CHR '','') (py_join '', '' xs) = hd xs # map (\<lambda>x. CHR '' '' # x) (tl xs)"
proof -
  have plain: "py_split (CHR '','') (x @ CHR '','' # s) = x # py_split (CHR '','') s"
    if "CHR '','' \<notin> set x" for x s
    using that by (induction x) auto
  have last: "py_split (CHR '','') x = [x]" if "CHR '','' \<notin> set x" for x
    using that by (induction x) auto
  have sp: "py_split (CHR '','') (CHR '' '' # s) =
      (CHR '' '' # hd (py_split (CHR '','') s)) # tl (py_split (CHR '','') s)" for s
    by (cases "py_split (CHR '','') s") auto
  show ?thesis
    using assms
  proof (induction "'', ''" xs rule: py_join.induct)
    case (3 x y ys)
    then show ?case using plain [of x "CHR '' '' # py_join '', '' (y # ys)"] sp by simp
  qed (auto simp: last)
qed

lemma strip_digits: "py_strip (py_str_nat n) = py_str_nat n" "py_strip (CHR '' '' # py_str_nat n) = py_str_nat n"
proof -
  have ns: "\<not> py_isspace c" if "c \<in> set (py_str_nat n)" for c
    using py_str_nat_digits that digit_not(1) by blast
  have "dropWhile py_isspace (py_str_nat n) = py_str_nat n"
    using ns by (cases "py_str_nat n") auto
  moreover have "dropWhile py_isspace (rev (py_str_nat n)) = rev (py_str_nat n)"
    using ns by (cases "py_str_nat n" rule: rev_cases) auto
  ultimately show "py_strip (py_str_nat n) = py_str_nat n" "py_strip (CHR '' '' # py_str_nat n) = py_str_nat n"
    by (simp_all add: py_str py_isspace_def ord_def)
qed

lemma c_array_join: "ns \<noteq> [] \<Longrightarrow> c_array (py_join '', '' (map py_str_nat ns)) = ns"
proof -
  assume ns: "ns \<noteq> []"
  have "CHR '','' \<notin> set (py_str_nat n)" for n
    using py_str_nat_digits [of n] digit_not(2) by blast
  then have "py_split (CHR '','') (py_join '', '' (map py_str_nat ns)) =
      py_str_nat (hd ns) # map (\<lambda>n. CHR '' '' # py_str_nat n) (tl ns)"
    using split_join_comma [of "map py_str_nat ns"] ns by (simp add: hd_map map_tl [symmetric])
  then show ?thesis using ns by (simp add: c_array_def strip_digits comp_def)
qed

subsection \<open>Macro expansion\<close>

lemma find_sub_absent: "find_sub sub s = None \<longleftrightarrow> (\<forall>k \<le> length s. take (length sub) (drop k s) \<noteq> sub)"
proof
  assume "find_sub sub s = None"
  then show "\<forall>k \<le> length s. take (length sub) (drop k s) \<noteq> sub" using find_sub_None by (metis not_le)
next
  assume none: "\<forall>k \<le> length s. take (length sub) (drop k s) \<noteq> sub"
  then show "find_sub sub s = None" using find_sub_Some by (cases "find_sub sub s") auto
qed

lemma no_paren_no_call: "CHR ''('' \<notin> set s \<Longrightarrow> find_sub (name @ ''('') s = None"
proof -
  assume p: "CHR ''('' \<notin> set s"
  have "take (length (name @ ''('')) (drop k s) \<noteq> name @ ''(''" for k
  proof
    assume eq: "take (length (name @ ''('')) (drop k s) = name @ ''(''"
    have "CHR ''('' \<in> set (name @ ''('')" by simp
    then have "CHR ''('' \<in> set (take (length (name @ ''('')) (drop k s))" unfolding eq .
    then show False using p by (meson in_set_dropD in_set_takeD)
  qed
  then show ?thesis by (simp add: find_sub_absent)
qed

lemma macro_loop_absent: "find_sub (name @ ''('') lines = None \<Longrightarrow> macro_loop (Suc n) macros name m 0 lines = Inr lines"
  by (simp add: macro_loop.simps py_find_def)

lemma each_macro_absent:
  "\<forall>(name, m) \<in> set todo. find_sub (name @ ''('') lines = None \<Longrightarrow> each_macro (Suc n) macros todo lines = Inr lines"
  by (induction todo) (auto simp: each_macro.simps macro_loop_absent)

lemma ExpandMacros_absent:
  "\<forall>(name, m) \<in> set macros. find_sub (name @ ''('') lines = None \<Longrightarrow>
   ExpandMacros (Suc (Suc n)) macros lines = Inr lines"
  by (simp add: ExpandMacros.simps each_macro_absent)

lemma ExpandMacros_no_paren: "CHR ''('' \<notin> set s \<Longrightarrow> ExpandMacros (Suc (Suc n)) macros s = Inr s"
  using no_paren_no_call by (intro ExpandMacros_absent) auto

definition plain_arg :: "string \<Rightarrow> bool" where
  "plain_arg x \<longleftrightarrow> (\<forall>c \<in> set x. c \<notin> set '',(){}[]'')"

lemma scan_plain:
  "plain_arg x \<Longrightarrow> height > 0 \<Longrightarrow>
   scan_args ex m (A @ x @ B) (length A) height lm mp = scan_args ex m (A @ x @ B) (length A + length x) height lm mp"
proof (induction x arbitrary: A)
  case (Cons c x)
  have c: "c \<notin> set '',(){}[]''" using Cons.prems by (simp add: plain_arg_def)
  have "scan_args ex m (A @ (c # x) @ B) (length A) height lm mp =
      scan_args ex m (A @ (c # x) @ B) (length A + 1) height lm mp"
    using c Cons.prems(2) by (subst scan_args.simps) (auto simp: nth_append)
  with Cons.IH [of "A @ [c]"] Cons.prems show ?case by (simp add: plain_arg_def)
qed simp

lemma strip_set: "c \<in> set (py_strip x) \<Longrightarrow> c \<in> set x"
  by (auto simp: py_str dest!: set_dropWhileD)

lemma scan_list:
  assumes "xs \<noteq> []" "\<forall>x \<in> set xs. plain_arg x" "macro_args m = a # rest" "mp = [] \<or> (\<exists>v. mp = [(a, v)])"
    and ex: "\<And>s. CHR ''('' \<notin> set s \<Longrightarrow> ex s = Inr s"
  shows "\<exists>mp' lm. scan_args ex m (A @ py_join '','' xs @ '')'' @ B) (length A) 1 (length A) mp =
      Inr (length A + length (py_join '','' xs) + 1, lm, mp') \<and> (mp' = [] \<or> (\<exists>v. mp' = [(a, v)])) \<and>
    py_slice (A @ py_join '','' xs @ '')'' @ B) lm (length A + length (py_join '','' xs)) = last xs"
  using assms(1,2,4)
proof (induction "'',''" xs arbitrary: A mp rule: py_join.induct)
  case (2 x)
  let ?L = "A @ x @ '')'' @ B"
  have "scan_args ex m ?L (length A) 1 (length A) mp = scan_args ex m ?L (length A + length x) 1 (length A) mp"
    using scan_plain [of x 1 ex m A "'')'' @ B"] 2 by simp
  also have "\<dots> = Inr (length A + length x + 1, length A, mp)"
    by (subst scan_args.simps, subst scan_args.simps) (simp add: nth_append)
  finally show ?case using 2 by (auto simp: py_slice_def)
next
  case (3 x y ys)
  let ?J = "py_join '','' (y # ys)"
  let ?L = "A @ x @ '','' @ ?J @ '')'' @ B"
  have px: "plain_arg x" using 3 by simp
  have "scan_args ex m ?L (length A) 1 (length A) mp = scan_args ex m ?L (length A + length x) 1 (length A) mp"
    using scan_plain [of x 1 ex m A "'','' @ ?J @ '')'' @ B"] px by simp
  also have "\<dots> = rbind (add_arg ex m (py_slice ?L (length A) (length A + length x)) mp) (\<lambda>mapping.
      scan_args ex m ?L (length A + length x + 1) 1 (length A + length x + 1) mapping)"
    by (subst scan_args.simps) (simp add: nth_append)
  also have "py_slice ?L (length A) (length A + length x) = x" by (simp add: py_slice_def)
  also have "add_arg ex m x mp = Inr (dict_set a (py_strip x) mp)"
  proof -
    have "CHR ''('' \<notin> set (py_strip x)" using px strip_set by (fastforce simp: plain_arg_def)
    then show ?thesis using ex assms(3) by (simp add: add_arg_def py_index_def)
  qed
  finally have step: "scan_args ex m ?L (length A) 1 (length A) mp =
      scan_args ex m ?L (length A + length x + 1) 1 (length A + length x + 1) (dict_set a (py_strip x) mp)" by simp
  have mp': "dict_set a (py_strip x) mp = [] \<or> (\<exists>v. dict_set a (py_strip x) mp = [(a, v)])"
    using 3(4) by auto
  have "\<forall>x \<in> set (y # ys). plain_arg x" using 3 by simp
  from 3(1) [OF _ this mp', of "A @ x @ '',''"] step show ?case by (simp add: add.assoc)
qed simp

lemma find_sub_at:
  assumes "CHR ''('' \<notin> set pre" "CHR ''('' \<notin> set name"
  shows "find_sub (name @ ''('') (pre @ name @ CHR ''('' # t) = Some (length pre)"
proof -
  let ?s = "pre @ name @ CHR ''('' # t"
  have hit: "take (length (name @ ''('')) (drop (length pre) ?s) = name @ ''(''" by simp
  have miss: "take (length (name @ ''('')) (drop k ?s) \<noteq> name @ ''(''" if "k < length pre" for k
  proof
    assume eq: "take (length (name @ ''('')) (drop k ?s) = name @ ''(''"
    have "take (length (name @ ''('')) (drop k ?s) ! length name = (pre @ name) ! (k + length name)"
      using that by (auto simp: nth_append add.commute)
    then have "(pre @ name) ! (k + length name) = CHR ''(''" unfolding eq by simp
    moreover have "(pre @ name) ! (k + length name) \<in> set (pre @ name)"
      using that by (intro nth_mem) simp
    ultimately show False using assms by simp
  qed
  obtain k where k: "find_sub (name @ ''('') ?s = Some k"
    using hit find_sub_None [of "name @ ''(''" ?s "length pre"] by (cases "find_sub (name @ ''('') ?s") auto
  from find_sub_Some [OF k] find_sub_first [OF k] hit miss have "k = length pre"
    by (metis linorder_neqE_nat)
  with k show ?thesis by simp
qed

lemma ExpandMacros_one_call:
  assumes name: "CHR ''('' \<notin> set name" and pre: "CHR ''('' \<notin> set pre" and post: "CHR ''('' \<notin> set post"
    and xs: "xs \<noteq> []" "\<forall>x \<in> set xs. plain_arg x"
    and body: "CHR ''('' \<notin> set (py_replace a (py_strip (last xs)) body)"
  shows "ExpandMacros (Suc (Suc (Suc (Suc n)))) [(name, TextMacro (a # rest) body)]
      (pre @ name @ ''('' @ py_join '','' xs @ '')'' @ post) =
    Inr (pre @ py_replace a (py_strip (last xs)) body @ post)"
proof -
  let ?m = "TextMacro (a # rest) body"
  let ?macros = "[(name, ?m)]"
  let ?A = "pre @ name @ ''(''"
  let ?L = "?A @ py_join '','' xs @ '')'' @ post"
  let ?ex = "\<lambda>s. ExpandMacros (Suc (Suc n)) ?macros s"
  let ?r = "py_replace a (py_strip (last xs)) body"
  have ex: "?ex s = Inr s" if "CHR ''('' \<notin> set s" for s using ExpandMacros_no_paren that by blast
  have start: "py_find ?L (name @ ''('') 0 = Some (length pre)"
    using find_sub_at [OF pre name] by (simp add: py_find_def)
  obtain mp lm where sc: "scan_args ?ex ?m ?L (length ?A) 1 (length ?A) [] =
      Inr (length ?A + length (py_join '','' xs) + 1, lm, mp)" "mp = [] \<or> (\<exists>v. mp = [(a, v)])"
      "py_slice ?L lm (length ?A + length (py_join '','' xs)) = last xs"
    using scan_list [OF xs, of ?m a rest "[]" ?ex ?A post] ex by auto
  have "plain_arg (last xs)" using xs by simp
  then have "CHR ''('' \<notin> set (py_strip (last xs))" using strip_set by (fastforce simp: plain_arg_def)
  then have "add_arg ?ex ?m (last xs) mp = Inr [(a, py_strip (last xs))]"
    using ex sc(2) by (auto simp: add_arg_def py_index_def)
  note arg = this
  have e: "length pre + length name + 1 = length ?A" by simp
  have cut: "take (length pre) ?L = pre" "drop (length ?A + length (py_join '','' xs) + 1) ?L = post"
    by simp_all
  have "macro_loop (Suc (Suc (Suc n))) ?macros name ?m 0 ?L =
      rbind (scan_args ?ex ?m ?L (length ?A) 1 (length ?A) []) (\<lambda>(e, last_match, mapping).
      rbind (add_arg ?ex ?m (py_slice ?L last_match (e - 1)) mapping) (\<lambda>mapping.
      rbind (macro_expand ?m mapping) (\<lambda>result.
        macro_loop (Suc (Suc n)) ?macros name ?m e (take (length pre) ?L @ result @ drop e ?L))))"
    unfolding macro_loop.simps(2) [of "Suc (Suc n)"] start Let_def option.case e by simp
  also have "\<dots> =
      macro_loop (Suc (Suc n)) ?macros name ?m (length ?A + length (py_join '','' xs) + 1) (pre @ ?r @ post)"
    unfolding sc(1) rbind_simps prod.case diff_add_inverse2 add_diff_cancel_right' sc(3) arg macro_expand.simps cut
    by simp
  also have "\<dots> = Inr (pre @ ?r @ post)"
  proof -
    have "CHR ''('' \<notin> set (drop k (pre @ ?r @ post))" for k
    proof
      assume "CHR ''('' \<in> set (drop k (pre @ ?r @ post))"
      then have "CHR ''('' \<in> set (pre @ ?r @ post)" by (rule in_set_dropD)
      then show False using pre post body by simp
    qed
    then have "find_sub (name @ ''('') (drop k (pre @ ?r @ post)) = None" for k by (rule no_paren_no_call)
    then show ?thesis by (subst macro_loop.simps) (simp add: py_find_def del: drop_append)
  qed
  finally show ?thesis by (simp add: ExpandMacros.simps each_macro.simps)
qed

subsection \<open>Properties\<close>

text \<open>C37: the array that \<open>ToCArray\<close> writes, read as a C initialiser, is the text with a 0 at its end; a
  text with a byte outside ASCII makes the tool exit with status 1 and the line and column of the first
  such byte.\<close>

theorem ToCArray_correct:
  "((\<forall>c \<in> set s. ord c < 128) \<longrightarrow>
      (\<exists>data. ToCArray filename s = (None, Inr data) \<and> c_array data = map ord s @ [0])) \<and>
   ((\<forall>c \<in> set s. ord c < 128) \<and> ord c \<ge> 128 \<longrightarrow>
      ToCArray filename (s @ c # t) =
        (Some (''non-ascii value '' @ filename @ '':'' @ py_str_nat (1 + newlines s) @ '':'' @
           py_str_nat (line_col s + 1)), Inl (SystemExit 1)))"
  using ToCArray_ascii [of s filename] ToCArray_other [of s c filename t] c_array_join [of "map ord s @ [0]"]
  by simp

theorem ToCArray_correct_witness:
  "(\<exists>data. ToCArray ''a.js'' ''ok'' = (None, Inr data) \<and> c_array data = [111, 107, 0]) \<and>
   snd (ToCArray ''a.js'' (''ok'' @ char_of (233 :: nat) # ''!'')) = Inl (SystemExit 1)"
proof -
  have "\<forall>c \<in> set ''ok''. ord c < 128" "ord (char_of (233 :: nat)) \<ge> 128" "map ord ''ok'' = [111, 107]"
    by (simp_all add: ord_def)
  then show ?thesis
    using ToCArray_correct [of "''ok''" "''a.js''" "char_of (233 :: nat)" "''!''"] by simp
qed

text \<open>The expansion of a macro call replaces the first parameter by the last argument, and no other
  parameter: \<open>arg_index\<close> stays 0. A call with one argument is expanded as meant; in a call with two
  arguments the first one is lost and the second parameter stays in the text.\<close>

theorem ExpandMacros_last_argument:
  assumes "CHR ''('' \<notin> set name" "CHR ''('' \<notin> set pre" "CHR ''('' \<notin> set post"
    and "xs \<noteq> []" "\<forall>x \<in> set xs. plain_arg x"
    and "CHR ''('' \<notin> set (py_replace a (py_strip (last xs)) body)" "4 \<le> n"
  shows "ExpandMacros n [(name, TextMacro (a # rest) body)]
      (pre @ name @ ''('' @ py_join '','' xs @ '')'' @ post) =
    Inr (pre @ py_replace a (py_strip (last xs)) body @ post)"
proof -
  obtain k where "n = 4 + k" using assms(7) le_Suc_ex by blast
  then have "n = Suc (Suc (Suc (Suc k)))" by simp
  then show ?thesis using ExpandMacros_one_call [OF assms(1-6)] by blast
qed

theorem ExpandMacros_last_argument_witness:
  "ExpandMacros 4 [(''IS'', TextMacro [''x''] ''x === null'')] ''if IS(v) go;'' = Inr ''if v === null go;'' \<and>
   ExpandMacros 4 [(''ADD'', TextMacro [''x'', ''y''] ''x + y'')] ''r = ADD(1, 2);'' = Inr ''r = 2 + y;''"
proof -
  have "ExpandMacros 4 [(''IS'', TextMacro (''x'' # []) ''x === null'')]
      (''if '' @ ''IS'' @ ''('' @ py_join '','' [''v''] @ '')'' @ '' go;'') =
    Inr (''if '' @ py_replace ''x'' (py_strip (last [''v''])) ''x === null'' @ '' go;'')"
    by (rule ExpandMacros_last_argument) (simp_all add: plain_arg_def py_str char_defs)
  moreover have "ExpandMacros 4 [(''ADD'', TextMacro (''x'' # [''y'']) ''x + y'')]
      (''r = '' @ ''ADD'' @ ''('' @ py_join '','' [''1'', '' 2''] @ '')'' @ '';'') =
    Inr (''r = '' @ py_replace ''x'' (py_strip (last [''1'', '' 2''])) ''x + y'' @ '';'')"
    by (rule ExpandMacros_last_argument) (simp_all add: plain_arg_def py_str char_defs)
  ultimately show ?thesis by (simp add: py_str char_defs)
qed






end
