(* ===== verification/WafGroups.thy ===== *)
theory WafGroups
  imports PyPrelude "HOL-Library.Multiset"
begin

section \<open>Waf: groups of tasks and the order in which they are handed out\<close>

text \<open>
  \<open>TaskManager\<close> and \<open>TaskGroup\<close> of \<open>src/tools/wafadmin/Task.py\<close>. A task is an object: here a number, and
  \<open>tasks\<close> says what its attributes are. The attributes that the scheduler reads are those the source gets
  with \<open>attr\<close>, as lists (\<open>Utils.to_list\<close>). \<open>hash_constraints\<close> uses Python's \<open>hash\<close> of a tuple, an argument
  \<open>hsh\<close> of the model. A \<open>DefaultDict\<close> is an association list; Python 2 fixes no order of its keys and the
  properties speak of sets and multisets of tasks only.
\<close>

subsection \<open>Constants\<close>

definition MAXJOBS :: int where "MAXJOBS = 99999999"

datatype algo = NORMAL | JOBCONTROL | MAXPARALLEL

subsection \<open>Tasks as the scheduler sees them\<close>

record task =
  t_class :: string
  t_before :: "string list"
  t_after :: "string list"
  t_ext_in :: "string list"
  t_ext_out :: "string list"
  t_maxjobs :: int
  t_run_after :: "nat list"

type_synonym tasks = "nat \<Rightarrow> task"
type_synonym cstr = "string \<times> string list \<times> string list \<times> string list \<times> string list \<times> int"

definition cstr_of :: "task \<Rightarrow> cstr" where
  "cstr_of t = (t_class t, t_before t, t_after t, t_ext_in t, t_ext_out t, t_maxjobs t)"

definition hash_constraints :: "(cstr \<Rightarrow> int) \<Rightarrow> task \<Rightarrow> int" where
  "hash_constraints hsh t = hsh (cstr_of t)"

definition set_run_after :: "nat \<Rightarrow> nat \<Rightarrow> tasks \<Rightarrow> tasks" where
  "set_run_after n m ts = ts(n := (ts n)\<lparr>t_run_after := t_run_after (ts n) @ [m]\<rparr>)"

subsection \<open>A group\<close>

record group =
  g_tasks :: "nat list"
  g_tasks_gen :: "nat list"
  cstr_groups :: "(int \<times> nat list) list"
  cstr_order :: "(int \<times> int set) list"
  temp_tasks :: "nat list"
  g_ready :: bool
  g_done :: bool
  post_funs :: "nat list"

definition TaskGroup :: group where
  "TaskGroup = \<lparr>g_tasks = [], g_tasks_gen = [], cstr_groups = [], cstr_order = [], temp_tasks = [],
     g_ready = False, g_done = False, post_funs = []\<rparr>"

definition g_reset :: "group \<Rightarrow> group" where
  "g_reset g = g\<lparr>g_tasks := temp_tasks g @ g_tasks g @ concat (map snd (cstr_groups g)),
     temp_tasks := [], cstr_groups := [], cstr_order := [], g_ready := False\<rparr>"

fun dict_append :: "'k \<Rightarrow> 'v \<Rightarrow> ('k \<times> 'v list) list \<Rightarrow> ('k \<times> 'v list) list" where
  "dict_append k x [] = [(k, [x])]"
| "dict_append k x ((k', xs) # d) = (if k' = k then (k', xs @ [x]) # d else (k', xs) # dict_append k x d)"

definition make_cstr_groups :: "(cstr \<Rightarrow> int) \<Rightarrow> tasks \<Rightarrow> group \<Rightarrow> group" where
  "make_cstr_groups hsh ts g =
     g\<lparr>cstr_groups := fold (\<lambda>x d. dict_append (hash_constraints hsh (ts x)) x d) (g_tasks g) []\<rparr>"

fun dict_add :: "int \<Rightarrow> int \<Rightarrow> (int \<times> int set) list \<Rightarrow> (int \<times> int set) list" where
  "dict_add a b [] = [(a, {b})]"
| "dict_add a b ((k, s) # d) = (if k = a then (k, insert b s) # d else (k, s) # dict_add a b d)"

definition set_order :: "int \<Rightarrow> int \<Rightarrow> group \<Rightarrow> group" where
  "set_order a b g = g\<lparr>cstr_order := dict_add a b (cstr_order g)\<rparr>"

definition compare_exts :: "task \<Rightarrow> task \<Rightarrow> int" where
  "compare_exts t1 t2 =
     (if \<exists>k \<in> set (t_ext_in t1). k \<in> set (t_ext_out t2) then -1
      else if \<exists>k \<in> set (t_ext_in t2). k \<in> set (t_ext_out t1) then 1
      else 0)"

definition compare_partial :: "task \<Rightarrow> task \<Rightarrow> int" where
  "compare_partial t1 t2 =
     (if t_class t2 \<in> set (t_after t1) then -1
      else if t_class t2 \<in> set (t_before t1) then 1
      else if t_class t1 \<in> set (t_after t2) then 1
      else if t_class t1 \<in> set (t_before t2) then -1
      else 0)"

definition compare_tasks :: "task \<Rightarrow> task \<Rightarrow> int" where
  "compare_tasks t1 t2 =
     (let v = compare_exts t1 t2 in if v \<noteq> 0 then v else compare_partial t1 t2)"

text \<open>\<open>extract_constraints\<close>: all pairs of groups, through their first tasks.\<close>

definition order_pair :: "tasks \<Rightarrow> int \<times> nat list \<Rightarrow> int \<times> nat list \<Rightarrow> group \<Rightarrow> group" where
  "order_pair ts p q g =
     (let val = compare_tasks (ts (hd (snd p))) (ts (hd (snd q)))
      in if val > 0 then set_order (fst p) (fst q) g
         else if val < 0 then set_order (fst q) (fst p) g
         else g)"

fun order_pairs :: "tasks \<Rightarrow> (int \<times> nat list) list \<Rightarrow> group \<Rightarrow> group" where
  "order_pairs ts [] g = g"
| "order_pairs ts (p # ps) g = order_pairs ts ps (fold (order_pair ts p) ps g)"

definition extract_constraints :: "tasks \<Rightarrow> group \<Rightarrow> group" where
  "extract_constraints ts g = order_pairs ts (cstr_groups g) g"

text \<open>\<open>file_deps\<close> is \<open>Utils.nada\<close> unless it is replaced; its effect on the tasks is an argument.\<close>

definition prepare :: "(cstr \<Rightarrow> int) \<Rightarrow> tasks \<Rightarrow> group \<Rightarrow> group" where
  "prepare hsh ts g = extract_constraints ts (make_cstr_groups hsh ts (g\<lparr>g_ready := True\<rparr>))"

definition ensure_ready :: "(cstr \<Rightarrow> int) \<Rightarrow> tasks \<Rightarrow> group \<Rightarrow> group" where
  "ensure_ready hsh ts g = (if g_ready g then g else prepare hsh ts g)"

definition successors :: "(int \<times> int set) list \<Rightarrow> int set" where
  "successors d = (\<Union>(k, s) \<in> set d. s)"

text \<open>The set of keys that have to wait, in one pass over the values of \<open>cstr_order\<close>.\<close>

definition has_pred :: "(int \<times> int set) list \<Rightarrow> int \<Rightarrow> bool" where
  "has_pred d u \<longleftrightarrow> list_ex (\<lambda>(k, s). u \<in> s) d"

definition circular :: py_error where
  "circular = WafError ''circular order constraint detected''"

definition tasks_in_parallel :: "(cstr \<Rightarrow> int) \<Rightarrow> tasks \<Rightarrow> group \<Rightarrow> (nat list \<times> group) res" where
  "tasks_in_parallel hsh ts g0 =
     (let g = ensure_ready hsh ts g0;
          unconnected = filter (\<lambda>(u, xs). \<not> has_pred (cstr_order g) u) (cstr_groups g);
          remainder = filter (\<lambda>(u, xs). has_pred (cstr_order g) u) (cstr_groups g);
          toreturn = concat (map snd unconnected);
          g' = g\<lparr>cstr_order := filter (\<lambda>(k, s). k \<notin> fst ` set unconnected) (cstr_order g),
                 cstr_groups := remainder\<rparr>
      in if toreturn = [] \<and> remainder \<noteq> [] then Inl circular else Inr (toreturn, g'))"

fun split_by_max :: "tasks \<Rightarrow> nat list \<Rightarrow> int \<Rightarrow> nat list \<Rightarrow> nat list \<Rightarrow> int \<times> nat list \<times> nat list" where
  "split_by_max ts [] maxjobs ret remaining = (maxjobs, ret, remaining)"
| "split_by_max ts (t # rest) maxjobs ret remaining =
     (let m = t_maxjobs (ts t) in
      if m > maxjobs then split_by_max ts rest maxjobs ret (remaining @ [t])
      else if m < maxjobs then split_by_max ts rest m [t] (remaining @ ret)
      else split_by_max ts rest maxjobs (ret @ [t]) remaining)"

text \<open>\<open>None\<close> is the pair \<open>(None, None)\<close>.\<close>

definition tasks_by_max_jobs ::
  "(cstr \<Rightarrow> int) \<Rightarrow> tasks \<Rightarrow> group \<Rightarrow> ((int \<times> nat list) option \<times> group) res" where
  "tasks_by_max_jobs hsh ts g0 =
     (let g = ensure_ready hsh ts g0 in
      rbind (if temp_tasks g = [] then tasks_in_parallel hsh ts g else Inr (temp_tasks g, g)) (\<lambda>(tmp, g).
        if tmp = [] then Inr (None, g\<lparr>temp_tasks := []\<rparr>)
        else
          let (maxjobs, ret, remaining) = split_by_max ts tmp MAXJOBS [] []
          in Inr (Some (maxjobs, ret), g\<lparr>temp_tasks := remaining\<rparr>)))"

text \<open>The four nested loops that turn the order between groups into \<open>run_after\<close> of the tasks.\<close>

definition inner_constraints :: "group \<Rightarrow> tasks \<Rightarrow> tasks" where
  "inner_constraints g ts =
     fold (\<lambda>(p, vs) ts.
       fold (\<lambda>(v, ns) ts.
         if v \<in> vs then
           fold (\<lambda>m ts. fold (\<lambda>n ts. set_run_after n m ts) ns ts)
             (concat (map snd (filter (\<lambda>(k, xs). k = p) (cstr_groups g)))) ts
         else ts) (cstr_groups g) ts) (cstr_order g) ts"

definition tasks_with_inner_constraints ::
  "(cstr \<Rightarrow> int) \<Rightarrow> tasks \<Rightarrow> group \<Rightarrow> nat list option \<times> tasks \<times> group" where
  "tasks_with_inner_constraints hsh ts g0 =
     (let g = ensure_ready hsh ts g0 in
      if g_done g then (None, ts, g)
      else (Some (g_tasks g), inner_constraints g ts,
            g\<lparr>cstr_order := [], cstr_groups := [], g_done := True\<rparr>))"

text \<open>\<open>get_next_set\<close> of a group: \<open>None\<close> is the empty tuple.\<close>

definition group_next_set ::
  "algo \<Rightarrow> (cstr \<Rightarrow> int) \<Rightarrow> tasks \<Rightarrow> group \<Rightarrow> ((int \<times> nat list) option \<times> tasks \<times> group) res" where
  "group_next_set algotype hsh ts g =
     (case algotype of
        NORMAL \<Rightarrow> rbind (tasks_in_parallel hsh ts g) (\<lambda>(xs, g).
          Inr (if xs = [] then None else Some (MAXJOBS, xs), ts, g))
      | JOBCONTROL \<Rightarrow> rbind (tasks_by_max_jobs hsh ts g) (\<lambda>(r, g).
          Inr (case r of None \<Rightarrow> None | Some (j, xs) \<Rightarrow> if xs = [] then None else Some (j, xs), ts, g))
      | MAXPARALLEL \<Rightarrow>
          let (r, ts, g) = tasks_with_inner_constraints hsh ts g
          in Inr (case r of None \<Rightarrow> None | Some xs \<Rightarrow> if xs = [] then None else Some (MAXJOBS, xs), ts, g))"

subsection \<open>The manager\<close>

record manager =
  groups :: "group list"
  tasks_done :: "nat list"
  current_group :: nat
  groups_names :: "(string option \<times> nat) list"
  installed :: "nat list"

definition TaskManager :: manager where
  "TaskManager = \<lparr>groups = [], tasks_done = [], current_group = 0, groups_names = [], installed = []\<rparr>"

text \<open>\<open>get_next_set\<close> of the manager. \<open>process_install\<close> calls the functions of \<open>post_funs\<close>, which are recorded
  in \<open>installed\<close>.\<close>

function manager_next_set ::
  "algo \<Rightarrow> (cstr \<Rightarrow> int) \<Rightarrow> tasks \<Rightarrow> manager \<Rightarrow> ((int \<times> nat list) option \<times> tasks \<times> manager) res" where
  "manager_next_set algotype hsh ts m =
     (if current_group m < length (groups m) then
        rbind (group_next_set algotype hsh ts (groups m ! current_group m)) (\<lambda>(r, ts, g).
          let m = m\<lparr>groups := (groups m)[current_group m := g]\<rparr> in
          case r of
            Some x \<Rightarrow> Inr (Some x, ts, m)
          | None \<Rightarrow>
              manager_next_set algotype hsh ts
                (m\<lparr>installed := installed m @ post_funs g, current_group := current_group m + 1\<rparr>))
      else Inr (None, ts, m))"
  by pat_completeness auto
termination
  by (relation "measure (\<lambda>(_, _, _, m). length (groups m) - current_group m)") auto

declare manager_next_set.simps [simp del]

definition add_group :: "string option \<Rightarrow> bool \<Rightarrow> manager \<Rightarrow> manager" where
  "add_group name make_current m =
     (let m = m\<lparr>groups_names := (name, length (groups m)) # filter (\<lambda>(k, v). k \<noteq> name) (groups_names m),
                groups := groups m @ [TaskGroup]\<rparr>
      in if make_current then m\<lparr>current_group := length (groups m) - 1\<rparr> else m)"

datatype group_index = ByName string | ByNumber nat

definition set_group :: "group_index \<Rightarrow> manager \<Rightarrow> manager res" where
  "set_group idx m =
     (case idx of
        ByName name \<Rightarrow>
          (case map_of (groups_names m) (Some name) of
             None \<Rightarrow> Inl KeyError
           | Some x \<Rightarrow> Inr (if x < length (groups m) then m\<lparr>current_group := x\<rparr> else m))
      | ByNumber x \<Rightarrow> Inr (m\<lparr>current_group := x\<rparr>))"

definition with_group :: "manager \<Rightarrow> manager" where
  "with_group m = (if groups m = [] then add_group None True m else m)"

definition update_group :: "(group \<Rightarrow> group) \<Rightarrow> manager \<Rightarrow> manager res" where
  "update_group f m =
     (let m = with_group m in
      if current_group m < length (groups m)
      then Inr (m\<lparr>groups := (groups m)[current_group m := f (groups m ! current_group m)]\<rparr>)
      else Inl IndexError)"

definition add_task_gen :: "nat \<Rightarrow> manager \<Rightarrow> manager res" where
  "add_task_gen tgen m = update_group (\<lambda>g. g\<lparr>g_tasks_gen := g_tasks_gen g @ [tgen]\<rparr>) m"

definition add_task :: "nat \<Rightarrow> manager \<Rightarrow> manager res" where
  "add_task t m = update_group (\<lambda>g. g\<lparr>g_tasks := g_tasks g @ [t]\<rparr>) m"

definition manager_total :: "manager \<Rightarrow> nat" where
  "manager_total m = sum_list (map (\<lambda>g. length (g_tasks g)) (groups m))"

text \<open>\<open>add_finished\<close>: when installing, a task is installed unless its own attribute \<open>install\<close> is false.
  \<open>own\<close> is that attribute: absent, false, or a function.\<close>

datatype install_attr = NoAttr | FalseAttr | FunAttr

definition add_finished :: "bool \<Rightarrow> (nat \<Rightarrow> install_attr) \<Rightarrow> nat \<Rightarrow> manager \<Rightarrow> manager" where
  "add_finished is_install own t m =
     (let m = m\<lparr>tasks_done := tasks_done m @ [t]\<rparr>
      in if is_install \<and> own t \<noteq> FalseAttr then m\<lparr>installed := installed m @ [t]\<rparr> else m)"

subsection \<open>Taking all sets of a group\<close>

text \<open>What the scheduler does with a group in \<open>NORMAL\<close> mode: ask for sets until one is empty.\<close>

fun drain :: "(cstr \<Rightarrow> int) \<Rightarrow> tasks \<Rightarrow> nat \<Rightarrow> group \<Rightarrow> nat list list res" where
  "drain hsh ts 0 g = Inr []"
| "drain hsh ts (Suc n) g =
     rbind (tasks_in_parallel hsh ts g) (\<lambda>(xs, g').
       if xs = [] then Inr [] else rbind (drain hsh ts n g') (\<lambda>xss. Inr (xs # xss)))"

definition edges :: "(int \<times> int set) list \<Rightarrow> (int \<times> int) set" where
  "edges d = {(a, b). \<exists>s. (a, s) \<in> set d \<and> b \<in> s}"

lemma has_pred_edges: "has_pred d u \<longleftrightarrow> (\<exists>a. (a, u) \<in> edges d)"
  by (auto simp: has_pred_def edges_def list_ex_iff)

lemma edges_filter: "edges (filter (\<lambda>(k, s). k \<notin> U) d) = {(a, b) \<in> edges d. a \<notin> U}"
  by (auto simp: edges_def)

definition wf_group :: "group \<Rightarrow> bool" where
  "wf_group g \<longleftrightarrow> g_ready g \<and> distinct (map fst (cstr_groups g)) \<and>
     (\<forall>(k, xs) \<in> set (cstr_groups g). xs \<noteq> []) \<and>
     (\<forall>(a, b) \<in> edges (cstr_order g). a \<in> fst ` set (cstr_groups g) \<and> b \<in> fst ` set (cstr_groups g)) \<and>
     finite (edges (cstr_order g))"

text \<open>One call on a prepared group.\<close>

definition front_groups :: "group \<Rightarrow> (int \<times> nat list) list" where
  "front_groups g = filter (\<lambda>(u, xs). \<not> has_pred (cstr_order g) u) (cstr_groups g)"

definition rest_group :: "group \<Rightarrow> group" where
  "rest_group g = g\<lparr>cstr_order := filter (\<lambda>(k, s). k \<notin> fst ` set (front_groups g)) (cstr_order g),
     cstr_groups := filter (\<lambda>(u, xs). has_pred (cstr_order g) u) (cstr_groups g)\<rparr>"

lemma tasks_in_parallel_ready:
  assumes "wf_group g"
  shows "tasks_in_parallel hsh ts g =
    (if front_groups g = [] \<and> cstr_groups g \<noteq> [] then Inl circular else Inr (concat (map snd (front_groups g)), rest_group g))"
proof -
  have "concat (map snd (front_groups g)) = [] \<longleftrightarrow> front_groups g = []"
    using assms by (fastforce simp: front_groups_def wf_group_def filter_empty_conv)
  moreover have "front_groups g = [] \<Longrightarrow> filter (\<lambda>(u, xs). has_pred (cstr_order g) u) (cstr_groups g) = cstr_groups g"
    by (auto simp: front_groups_def filter_id_conv filter_empty_conv)
  ultimately show ?thesis
    using assms unfolding tasks_in_parallel_def rest_group_def front_groups_def
    by (auto simp: wf_group_def ensure_ready_def Let_def)
qed

lemma rest_edges: "edges (cstr_order (rest_group g)) = {(a, b) \<in> edges (cstr_order g). a \<notin> fst ` set (front_groups g)}"
  by (simp add: rest_group_def edges_filter)

lemma rest_groups: "set (cstr_groups (rest_group g)) = set (cstr_groups g) - set (front_groups g)"
  by (auto simp: rest_group_def front_groups_def)

lemma pred_not_front: "(a, b) \<in> edges (cstr_order g) \<Longrightarrow> b \<notin> fst ` set (front_groups g)"
  by (auto simp: front_groups_def has_pred_edges)

lemma key_in_rest:
  "k \<in> fst ` set (cstr_groups g) \<Longrightarrow> k \<notin> fst ` set (front_groups g) \<Longrightarrow> k \<in> fst ` set (cstr_groups (rest_group g))"
proof -
  assume "k \<in> fst ` set (cstr_groups g)" and f: "k \<notin> fst ` set (front_groups g)"
  then obtain xs where x: "(k, xs) \<in> set (cstr_groups g)" by auto
  have "(k, xs) \<notin> set (front_groups g)" using f by (metis fst_conv image_eqI)
  with x have "(k, xs) \<in> set (cstr_groups (rest_group g))" by (simp add: rest_groups)
  then show ?thesis by (metis fst_conv image_eqI)
qed

lemma front_member:
  "front_groups g \<noteq> [] \<Longrightarrow> \<exists>a xs. (a, xs) \<in> set (front_groups g) \<and> (a, xs) \<in> set (cstr_groups g) \<and> \<not> has_pred (cstr_order g) a"
proof -
  assume "front_groups g \<noteq> []"
  then obtain a xs where "(a, xs) \<in> set (front_groups g)" by (metis hd_in_set surj_pair)
  then show ?thesis unfolding front_groups_def by auto
qed

lemma rest_wf:
  assumes "wf_group g"
  shows "wf_group (rest_group g)"
  unfolding wf_group_def
proof (intro conjI)
  show "g_ready (rest_group g)" using assms by (simp add: wf_group_def rest_group_def)
  show "distinct (map fst (cstr_groups (rest_group g)))"
    using assms by (simp add: wf_group_def rest_group_def distinct_map_filter)
  show "\<forall>(k, xs) \<in> set (cstr_groups (rest_group g)). xs \<noteq> []"
    using assms by (auto simp: wf_group_def rest_group_def)
  show "finite (edges (cstr_order (rest_group g)))"
    using assms by (auto simp: wf_group_def rest_edges intro: finite_subset)
  show "\<forall>(a, b) \<in> edges (cstr_order (rest_group g)).
      a \<in> fst ` set (cstr_groups (rest_group g)) \<and> b \<in> fst ` set (cstr_groups (rest_group g))"
  proof (clarify)
    fix a b assume ab: "(a, b) \<in> edges (cstr_order (rest_group g))"
    then have e: "(a, b) \<in> edges (cstr_order g)" "a \<notin> fst ` set (front_groups g)" by (auto simp: rest_edges)
    moreover have "b \<notin> fst ` set (front_groups g)" using pred_not_front [OF e(1)] .
    moreover have "a \<in> fst ` set (cstr_groups g)" "b \<in> fst ` set (cstr_groups g)"
      using assms e(1) by (auto simp: wf_group_def)
    ultimately show "a \<in> fst ` set (cstr_groups (rest_group g)) \<and> b \<in> fst ` set (cstr_groups (rest_group g))"
      using key_in_rest by blast
  qed
qed

lemma rest_length:
  assumes "front_groups g \<noteq> []"
  shows "length (cstr_groups (rest_group g)) < length (cstr_groups g)"
proof -
  obtain a xs where "(a, xs) \<in> set (cstr_groups g)" "\<not> has_pred (cstr_order g) a"
    using front_member [OF assms] by blast
  then show ?thesis
    unfolding rest_group_def by (auto intro!: length_filter_less [of "(a, xs)"])
qed

lemma front_exists:
  assumes "wf_group g" "acyclic (edges (cstr_order g))" "cstr_groups g \<noteq> []"
  shows "front_groups g \<noteq> []"
proof
  assume none: "front_groups g = []"
  let ?E = "edges (cstr_order g)"
  have "wf ?E" using assms by (simp add: wf_group_def finite_acyclic_wf)
  moreover have "fst (hd (cstr_groups g)) \<in> fst ` set (cstr_groups g)" using assms(3) by simp
  ultimately obtain z where z: "z \<in> fst ` set (cstr_groups g)"
    "\<And>y. (y, z) \<in> ?E \<Longrightarrow> y \<notin> fst ` set (cstr_groups g)" by (metis wfE_min)
  have "\<not> has_pred (cstr_order g) z"
    using z assms(1) by (fastforce simp: has_pred_edges wf_group_def)
  with z(1) none show False by (auto simp: front_groups_def filter_empty_conv)
qed

definition earlier :: "nat list list \<Rightarrow> nat \<Rightarrow> nat \<Rightarrow> bool" where
  "earlier bs x y \<longleftrightarrow> (\<exists>i j. i < j \<and> j < length bs \<and> x \<in> set (bs ! i) \<and> y \<in> set (bs ! j))"

lemma earlier_Cons:
  "earlier bs x y \<Longrightarrow> earlier (b # bs) x y"
  "x \<in> set b \<Longrightarrow> y \<in> set (concat bs) \<Longrightarrow> earlier (b # bs) x y"
proof -
  assume "earlier bs x y"
  then obtain i j where "i < j" "j < length bs" "x \<in> set (bs ! i)" "y \<in> set (bs ! j)"
    by (auto simp: earlier_def)
  then show "earlier (b # bs) x y" unfolding earlier_def
    by (intro exI [of _ "Suc i"] exI [of _ "Suc j"]) simp
next
  assume "x \<in> set b" "y \<in> set (concat bs)"
  then obtain ys where "ys \<in> set bs" "y \<in> set ys" by auto
  then obtain j where "j < length bs" "y \<in> set (bs ! j)" by (metis in_set_conv_nth)
  with \<open>x \<in> set b\<close> show "earlier (b # bs) x y" unfolding earlier_def
    by (intro exI [of _ 0] exI [of _ "Suc j"]) simp
qed

lemma mset_concat_filter:
  "mset (concat (map snd (filter P xs))) + mset (concat (map snd (filter (\<lambda>x. \<not> P x) xs))) =
   mset (concat (map snd xs))"
  by (induction xs) auto

lemma drain_acyclic:
  assumes "wf_group g" "acyclic (edges (cstr_order g))" "length (cstr_groups g) < n"
  shows "\<exists>bs. drain hsh ts n g = Inr bs \<and> mset (concat bs) = mset (concat (map snd (cstr_groups g))) \<and>
    (\<forall>a b xs ys x y. (a, b) \<in> edges (cstr_order g) \<longrightarrow> (a, xs) \<in> set (cstr_groups g) \<longrightarrow>
       (b, ys) \<in> set (cstr_groups g) \<longrightarrow> x \<in> set xs \<longrightarrow> y \<in> set ys \<longrightarrow> earlier bs x y)"
  using assms
proof (induction n arbitrary: g)
  case (Suc n)
  show ?case
  proof (cases "cstr_groups g = []")
    case True
    then have "front_groups g = []" by (simp add: front_groups_def)
    with True show ?thesis using Suc.prems(1) by (simp add: tasks_in_parallel_ready)
  next
    case False
    have f: "front_groups g \<noteq> []" using front_exists Suc.prems False by blast
    have ne: "concat (map snd (front_groups g)) \<noteq> []"
      using front_member [OF f] Suc.prems(1) by (fastforce simp: wf_group_def)
    have "acyclic (edges (cstr_order (rest_group g)))"
      using Suc.prems(2) by (rule acyclic_subset) (auto simp: rest_edges)
    moreover have "length (cstr_groups (rest_group g)) < n" using rest_length [OF f] Suc.prems(3) by simp
    ultimately obtain bs where bs: "drain hsh ts n (rest_group g) = Inr bs"
      "mset (concat bs) = mset (concat (map snd (cstr_groups (rest_group g))))"
      "\<And>a b xs ys x y. (a, b) \<in> edges (cstr_order (rest_group g)) \<Longrightarrow> (a, xs) \<in> set (cstr_groups (rest_group g)) \<Longrightarrow>
       (b, ys) \<in> set (cstr_groups (rest_group g)) \<Longrightarrow> x \<in> set xs \<Longrightarrow> y \<in> set ys \<Longrightarrow> earlier bs x y"
      using Suc.IH [OF rest_wf [OF Suc.prems(1)]] by blast
    let ?bs = "concat (map snd (front_groups g)) # bs"
    have "drain hsh ts (Suc n) g = Inr ?bs"
      using f ne bs(1) Suc.prems(1) by (simp add: tasks_in_parallel_ready)
    moreover have "mset (concat ?bs) = mset (concat (map snd (cstr_groups g)))"
      using mset_concat_filter [of "\<lambda>(u, xs). \<not> has_pred (cstr_order g) u" "cstr_groups g"] bs(2)
      by (simp add: front_groups_def rest_group_def case_prod_unfold)
    moreover have "earlier ?bs x y"
      if e: "(a, b) \<in> edges (cstr_order g)" "(a, xs) \<in> set (cstr_groups g)" "(b, ys) \<in> set (cstr_groups g)"
        "x \<in> set xs" "y \<in> set ys" for a b xs ys x y
    proof -
      have b: "(b, ys) \<in> set (cstr_groups (rest_group g))"
        using e pred_not_front [OF e(1)] by (force simp: rest_groups)
      then have y: "y \<in> set (concat bs)"
      proof -
        have "y \<in> set (concat (map snd (cstr_groups (rest_group g))))" using b e(5) by force
        then show ?thesis using bs(2) by (metis set_mset_mset)
      qed
      show ?thesis
      proof (cases "a \<in> fst ` set (front_groups g)")
        case True
        then obtain xs' where "(a, xs') \<in> set (front_groups g)" by auto
        moreover have "xs' = xs"
          using calculation e(2) Suc.prems(1) by (auto simp: wf_group_def front_groups_def dest: eq_key_imp_eq_value)
        ultimately have "x \<in> set (concat (map snd (front_groups g)))" using e(4) by force
        then show ?thesis using y by (rule earlier_Cons(2))
      next
        case False
        then have "(a, b) \<in> edges (cstr_order (rest_group g))" "(a, xs) \<in> set (cstr_groups (rest_group g))"
          using e by (force simp: rest_edges rest_groups)+
        then show ?thesis using bs(3) b e(4,5) earlier_Cons(1) by blast
      qed
    qed
    ultimately show ?thesis by blast
  qed
qed simp

lemma cycle_survives:
  assumes "\<not> acyclic (edges (cstr_order g))"
  shows "\<not> acyclic (edges (cstr_order (rest_group g)))"
proof -
  obtain x where x: "(x, x) \<in> (edges (cstr_order g))\<^sup>+" using assms by (auto simp: acyclic_def)
  then have "x \<notin> fst ` set (front_groups g)"
    by (metis pred_not_front tranclD2)
  have "(x, y) \<in> (edges (cstr_order (rest_group g)))\<^sup>+" if "(x, y) \<in> (edges (cstr_order g))\<^sup>+" for y
    using that
  proof (induction rule: trancl_induct)
    case (base y)
    then show ?case using \<open>x \<notin> fst ` set (front_groups g)\<close> by (auto simp: rest_edges)
  next
    case (step y z)
    have "y \<notin> fst ` set (front_groups g)" using step.hyps(1) by (metis pred_not_front tranclD2)
    then have "(y, z) \<in> edges (cstr_order (rest_group g))" using step.hyps(2) by (auto simp: rest_edges)
    with step.IH show ?case by (rule trancl_into_trancl)
  qed
  with x show ?thesis by (auto simp: acyclic_def)
qed

lemma drain_cyclic:
  assumes "wf_group g" "\<not> acyclic (edges (cstr_order g))" "length (cstr_groups g) < n"
  shows "drain hsh ts n g = Inl circular"
  using assms
proof (induction n arbitrary: g)
  case (Suc n)
  obtain x y where "(x, y) \<in> edges (cstr_order g)"
    using Suc.prems(2) by (metis acyclic_def tranclD)
  then have ne: "cstr_groups g \<noteq> []" using Suc.prems(1) by (auto simp: wf_group_def)
  show ?case
  proof (cases "front_groups g = []")
    case True
    then show ?thesis using ne Suc.prems(1) by (simp add: tasks_in_parallel_ready)
  next
    case False
    then have "concat (map snd (front_groups g)) \<noteq> []"
      using front_member [OF False] Suc.prems(1) by (fastforce simp: wf_group_def)
    moreover have "drain hsh ts n (rest_group g) = Inl circular"
      using Suc.prems rest_length [OF False] rest_wf cycle_survives by (intro Suc.IH) auto
    ultimately show ?thesis using False Suc.prems(1) by (simp add: tasks_in_parallel_ready)
  qed
qed simp

subsection \<open>Preparing a group\<close>

definition grouped :: "(nat \<Rightarrow> int) \<Rightarrow> nat list \<Rightarrow> (int \<times> nat list) list \<Rightarrow> bool" where
  "grouped key ts d \<longleftrightarrow> distinct (map fst d) \<and> mset (concat (map snd d)) = mset ts \<and>
     (\<forall>(k, xs) \<in> set d. xs \<noteq> [] \<and> (\<forall>x \<in> set xs. key x = k))"

lemma dict_append_keys: "fst ` set (dict_append k x d) = insert k (fst ` set d)"
  by (induction k x d rule: dict_append.induct) auto

lemma dict_append_distinct: "distinct (map fst d) \<Longrightarrow> distinct (map fst (dict_append k x d))"
proof (induction k x d rule: dict_append.induct)
  case (2 k x k' xs d)
  then show ?case using dict_append_keys [of k x d] by auto
qed simp

lemma dict_append_mset: "mset (concat (map snd (dict_append k x d))) = add_mset x (mset (concat (map snd d)))"
  by (induction k x d rule: dict_append.induct) auto

lemma dict_append_values:
  "\<forall>(k, xs) \<in> set d. xs \<noteq> [] \<and> (\<forall>y \<in> set xs. key y = k) \<Longrightarrow>
   \<forall>(k, xs) \<in> set (dict_append (key x) x d). xs \<noteq> [] \<and> (\<forall>y \<in> set xs. key y = k)"
  by (induction "key x" x d rule: dict_append.induct) auto

lemma grouped_fold:
  "grouped key ts d \<Longrightarrow> grouped key (ts @ xs) (fold (\<lambda>x d. dict_append (key x) x d) xs d)"
proof (induction xs arbitrary: ts d)
  case (Cons x xs)
  have "grouped key (ts @ [x]) (dict_append (key x) x d)"
    using Cons.prems dict_append_values [of d key x]
    by (simp add: grouped_def dict_append_distinct dict_append_mset)
  from Cons.IH [OF this] show ?case by simp
qed simp

lemma edges_add: "edges (dict_add a b d) = insert (a, b) (edges d)"
  by (induction a b d rule: dict_add.induct) (auto simp: edges_def)

definition pair_edges :: "tasks \<Rightarrow> int \<times> nat list \<Rightarrow> int \<times> nat list \<Rightarrow> (int \<times> int) set" where
  "pair_edges ts p q =
     (let v = compare_tasks (ts (hd (snd p))) (ts (hd (snd q)))
      in if v > 0 then {(fst p, fst q)} else if v < 0 then {(fst q, fst p)} else {})"

lemma order_pair_edges:
  "edges (cstr_order (order_pair ts p q g)) = pair_edges ts p q \<union> edges (cstr_order g)"
  "cstr_groups (order_pair ts p q g) = cstr_groups g" "g_ready (order_pair ts p q g) = g_ready g"
  by (auto simp: order_pair_def pair_edges_def Let_def set_order_def edges_add)

lemma fold_order_pair:
  "edges (cstr_order (fold (order_pair ts p) qs g)) = (\<Union>q \<in> set qs. pair_edges ts p q) \<union> edges (cstr_order g) \<and>
   cstr_groups (fold (order_pair ts p) qs g) = cstr_groups g \<and>
   g_ready (fold (order_pair ts p) qs g) = g_ready g"
  by (induction qs arbitrary: g) (auto simp: order_pair_edges)

lemma order_pairs_edges:
  "edges (cstr_order (order_pairs ts ps g)) =
     {e. \<exists>i j. i < j \<and> j < length ps \<and> e \<in> pair_edges ts (ps ! i) (ps ! j)} \<union> edges (cstr_order g) \<and>
   cstr_groups (order_pairs ts ps g) = cstr_groups g \<and> g_ready (order_pairs ts ps g) = g_ready g"
proof (induction ps arbitrary: g)
  case (Cons p ps)
  have "{e. \<exists>i j. i < j \<and> j < length (p # ps) \<and> e \<in> pair_edges ts ((p # ps) ! i) ((p # ps) ! j)} =
      {e. \<exists>i j. i < j \<and> j < length ps \<and> e \<in> pair_edges ts (ps ! i) (ps ! j)} \<union>
      (\<Union>q \<in> set ps. pair_edges ts p q)" (is "?l = ?r")
  proof
    show "?l \<subseteq> ?r"
    proof
      fix e assume "e \<in> ?l"
      then obtain i j where ij: "i < j" "j < length (p # ps)" "e \<in> pair_edges ts ((p # ps) ! i) ((p # ps) ! j)"
        by blast
      then obtain j' where j: "j = Suc j'" by (cases j) auto
      show "e \<in> ?r" using ij j by (cases i) auto
    qed
    show "?r \<subseteq> ?l"
    proof
      fix e assume "e \<in> ?r"
      then consider i j where "i < j" "j < length ps" "e \<in> pair_edges ts (ps ! i) (ps ! j)"
        | j where "j < length ps" "e \<in> pair_edges ts p (ps ! j)" by (auto simp: in_set_conv_nth)
      then show "e \<in> ?l"
      proof cases
        case 1 then show ?thesis by (intro CollectI exI [of _ "Suc i"] exI [of _ "Suc j"]) simp
      next
        case 2 then show ?thesis by (intro CollectI exI [of _ 0] exI [of _ "Suc j"]) simp
      qed
    qed
  qed
  then show ?case using Cons fold_order_pair [of ts p ps g] by auto
qed simp

lemma prepare_groups:
  "grouped (\<lambda>x. hash_constraints hsh (ts x)) (g_tasks g) (cstr_groups (prepare hsh ts g))"
  using grouped_fold [of "\<lambda>x. hash_constraints hsh (ts x)" "[]" "[]" "g_tasks g"]
    order_pairs_edges [of ts "cstr_groups (make_cstr_groups hsh ts (g\<lparr>g_ready := True\<rparr>))"]
  by (simp add: prepare_def extract_constraints_def make_cstr_groups_def grouped_def)

lemma prepare_edges:
  assumes "cstr_order g = []"
  shows "edges (cstr_order (prepare hsh ts g)) =
    {e. \<exists>i j. i < j \<and> j < length (cstr_groups (prepare hsh ts g)) \<and>
       e \<in> pair_edges ts (cstr_groups (prepare hsh ts g) ! i) (cstr_groups (prepare hsh ts g) ! j)}"
  using order_pairs_edges [of ts "cstr_groups (make_cstr_groups hsh ts (g\<lparr>g_ready := True\<rparr>))"] assms
  by (simp add: prepare_def extract_constraints_def make_cstr_groups_def edges_def)

lemma prepare_wf:
  assumes "cstr_order g = []"
  shows "wf_group (prepare hsh ts g)"
proof -
  let ?g = "prepare hsh ts g"
  have gr: "grouped (\<lambda>x. hash_constraints hsh (ts x)) (g_tasks g) (cstr_groups ?g)" by (rule prepare_groups)
  have sub: "edges (cstr_order ?g) \<subseteq> fst ` set (cstr_groups ?g) \<times> fst ` set (cstr_groups ?g)"
    unfolding prepare_edges [OF assms] by (auto simp: pair_edges_def Let_def split: if_splits)
  have "g_ready ?g"
    using order_pairs_edges by (simp add: prepare_def extract_constraints_def make_cstr_groups_def)
  moreover have "finite (edges (cstr_order ?g))" using sub by (rule finite_subset) simp
  ultimately show ?thesis using gr sub by (auto simp: wf_group_def grouped_def)
qed

lemma drain_prepare:
  assumes "\<not> g_ready g" "0 < n" "cstr_order g = []"
  shows "drain hsh ts n g = drain hsh ts n (prepare hsh ts g)"
proof -
  have "g_ready (prepare hsh ts g)" using prepare_wf [OF assms(3)] by (simp add: wf_group_def)
  then have "tasks_in_parallel hsh ts g = tasks_in_parallel hsh ts (prepare hsh ts g)"
    using assms(1) by (simp add: tasks_in_parallel_def ensure_ready_def)
  then show ?thesis using assms(2) by (cases n) auto
qed

lemma groups_le_tasks:
  assumes "grouped key ts d"
  shows "length d \<le> length ts"
proof -
  have "\<forall>(k, xs) \<in> set d. xs \<noteq> [] \<Longrightarrow> length d \<le> length (concat (map snd d))"
  proof (induction d)
    case (Cons p d)
    then show ?case by (cases p; cases "snd p") auto
  qed simp
  moreover have "length (concat (map snd d)) = length ts" using assms by (metis grouped_def size_mset)
  moreover have "\<forall>(k, xs) \<in> set d. xs \<noteq> []" using assms by (auto simp: grouped_def)
  ultimately show ?thesis by metis
qed

lemma same_hash_compare:
  assumes "inj_on hsh (cstr_of ` A)" "{t, t', u, u'} \<subseteq> A"
    and "hash_constraints hsh t = hash_constraints hsh t'" "hash_constraints hsh u = hash_constraints hsh u'"
  shows "compare_tasks t u = compare_tasks t' u'"
proof -
  have "cstr_of t = cstr_of t'" "cstr_of u = cstr_of u'"
    using assms by (auto simp: hash_constraints_def inj_on_def)
  then show ?thesis by (simp add: compare_tasks_def compare_exts_def compare_partial_def cstr_of_def)
qed

lemma task_in_group:
  assumes "grouped key ts d" "x \<in> set ts"
  shows "\<exists>i < length d. x \<in> set (snd (d ! i)) \<and> fst (d ! i) = key x \<and> key (hd (snd (d ! i))) = key x \<and>
    hd (snd (d ! i)) \<in> set ts"
proof -
  have "x \<in> set (concat (map snd d))" using assms by (metis grouped_def set_mset_mset)
  then obtain k xs where kx: "(k, xs) \<in> set d" "x \<in> set xs" by force
  then obtain i where "i < length d" "d ! i = (k, xs)" by (metis in_set_conv_nth)
  moreover have "xs \<noteq> []" "key x = k" "key (hd xs) = k" using kx assms by (auto simp: grouped_def)
  moreover have "hd xs \<in> set (concat (map snd d))" using kx \<open>xs \<noteq> []\<close> by force
  then have "hd xs \<in> set ts" using assms(1) by (metis grouped_def set_mset_mset)
  ultimately show ?thesis using kx by (intro exI [of _ i]) simp
qed

lemma ordered_edge:
  assumes "inj_on hsh (cstr_of ` ts ` set (g_tasks g))" "cstr_order g = []" "x \<in> set (g_tasks g)" "y \<in> set (g_tasks g)"
    and "compare_tasks (ts x) (ts y) > 0" "compare_tasks (ts y) (ts x) < 0"
  shows "(hash_constraints hsh (ts x), hash_constraints hsh (ts y)) \<in> edges (cstr_order (prepare hsh ts g))"
proof -
  let ?d = "cstr_groups (prepare hsh ts g)" and ?key = "\<lambda>x. hash_constraints hsh (ts x)"
  obtain i where i: "i < length ?d" "fst (?d ! i) = ?key x" "?key (hd (snd (?d ! i))) = ?key x"
    "hd (snd (?d ! i)) \<in> set (g_tasks g)"
    using task_in_group [OF prepare_groups assms(3)] by blast
  obtain j where j: "j < length ?d" "fst (?d ! j) = ?key y" "?key (hd (snd (?d ! j))) = ?key y"
    "hd (snd (?d ! j)) \<in> set (g_tasks g)"
    using task_in_group [OF prepare_groups assms(4)] by blast
  have xy: "compare_tasks (ts (hd (snd (?d ! i)))) (ts (hd (snd (?d ! j)))) > 0"
    "compare_tasks (ts (hd (snd (?d ! j)))) (ts (hd (snd (?d ! i)))) < 0"
    using same_hash_compare [OF assms(1) _ i(3) j(3)] same_hash_compare [OF assms(1) _ j(3) i(3)] assms(3-6) i(4) j(4)
    by auto
  then have "i \<noteq> j" by auto
  then consider "i < j" | "j < i" by linarith
  then show ?thesis
  proof cases
    case 1
    then show ?thesis unfolding prepare_edges [OF assms(2)] using i j xy
      by (intro CollectI exI [of _ i] exI [of _ j]) (simp add: pair_edges_def Let_def)
  next
    case 2
    then show ?thesis unfolding prepare_edges [OF assms(2)] using i j xy
      by (intro CollectI exI [of _ j] exI [of _ i]) (simp add: pair_edges_def Let_def)
  qed
qed

subsection \<open>Properties\<close>

text \<open>C16: when the constraints of a group of tasks are acyclic, the group hands out each of its tasks
  exactly once, in sets such that a task is in an earlier set than every task it has to precede, by
  file extensions or by the attributes \<open>before\<close> and \<open>after\<close>; when they are cyclic the scheduler raises
  the error about the circular order. Either takes at most one call per task and one more.\<close>

theorem task_sets_respect_order:
  assumes "inj_on hsh (cstr_of ` ts ` set (g_tasks g))"
    and "cstr_order g = []" "\<not> g_ready g" "length (g_tasks g) < n"
  shows "if acyclic (edges (cstr_order (prepare hsh ts g)))
    then \<exists>bs. drain hsh ts n g = Inr bs \<and> mset (concat bs) = mset (g_tasks g) \<and>
      (\<forall>x \<in> set (g_tasks g). \<forall>y \<in> set (g_tasks g).
         compare_tasks (ts x) (ts y) > 0 \<and> compare_tasks (ts y) (ts x) < 0 \<longrightarrow> earlier bs x y)
    else drain hsh ts n g = Inl circular"
proof -
  let ?g = "prepare hsh ts g"
  have gr: "grouped (\<lambda>x. hash_constraints hsh (ts x)) (g_tasks g) (cstr_groups ?g)" by (rule prepare_groups)
  have len: "length (cstr_groups ?g) < n" using groups_le_tasks [OF gr] assms(4) by simp
  have start: "drain hsh ts n g = drain hsh ts n ?g" using assms by (intro drain_prepare) auto
  show ?thesis
  proof (cases "acyclic (edges (cstr_order ?g))")
    case True
    obtain bs where bs: "drain hsh ts n ?g = Inr bs"
      "mset (concat bs) = mset (concat (map snd (cstr_groups ?g)))"
      "\<And>a b xs ys x y. (a, b) \<in> edges (cstr_order ?g) \<Longrightarrow> (a, xs) \<in> set (cstr_groups ?g) \<Longrightarrow>
         (b, ys) \<in> set (cstr_groups ?g) \<Longrightarrow> x \<in> set xs \<Longrightarrow> y \<in> set ys \<Longrightarrow> earlier bs x y"
      using drain_acyclic [OF prepare_wf [OF assms(2)] True len] by blast
    have "earlier bs x y" if "x \<in> set (g_tasks g)" "y \<in> set (g_tasks g)"
      "compare_tasks (ts x) (ts y) > 0" "compare_tasks (ts y) (ts x) < 0" for x y
    proof -
      note xy = that
      have e: "(hash_constraints hsh (ts x), hash_constraints hsh (ts y)) \<in> edges (cstr_order ?g)"
        using ordered_edge [OF assms(1,2) xy] .
      obtain i j where "i < length (cstr_groups ?g)" "x \<in> set (snd (cstr_groups ?g ! i))"
        "fst (cstr_groups ?g ! i) = hash_constraints hsh (ts x)" "j < length (cstr_groups ?g)"
        "y \<in> set (snd (cstr_groups ?g ! j))" "fst (cstr_groups ?g ! j) = hash_constraints hsh (ts y)"
        using task_in_group [OF gr xy(1)] task_in_group [OF gr xy(2)] by blast
      then show ?thesis using bs(3) [OF e] by (metis nth_mem prod.collapse)
    qed
    then show ?thesis using True start bs(1,2) gr by (auto simp: grouped_def)
  next
    case False
    then show ?thesis using start drain_cyclic [OF prepare_wf [OF assms(2)] False len] by simp
  qed
qed

definition sample_tasks :: tasks where
  "sample_tasks n =
     (if n = 0 then \<lparr>t_class = ''link'', t_before = [], t_after = [''cc''], t_ext_in = [], t_ext_out = [],
        t_maxjobs = 1, t_run_after = []\<rparr>
      else \<lparr>t_class = ''cc'', t_before = [], t_after = [], t_ext_in = [], t_ext_out = [],
        t_maxjobs = 4, t_run_after = []\<rparr>)"

theorem task_sets_respect_order_witness:
  "drain (\<lambda>c. if fst c = ''link'' then 0 else 1) sample_tasks 4 (TaskGroup\<lparr>g_tasks := [0, 1, 2]\<rparr>) = Inr [[1, 2], [0]] \<and>
   earlier [[1, 2], [0]] 2 0"
proof -
  let ?h = "\<lambda>c :: cstr. if fst c = ''link'' then 0 else (1 :: int)"
  let ?g = "TaskGroup\<lparr>g_tasks := [0, 1, 2]\<rparr>"
  have inj: "inj_on ?h (cstr_of ` sample_tasks ` set (g_tasks ?g))"
    by (simp add: inj_on_def cstr_of_def sample_tasks_def)
  have fresh: "cstr_order ?g = []" "\<not> g_ready ?g" "length (g_tasks ?g) < 4" by (simp_all add: TaskGroup_def)
  have p: "cstr_order (prepare ?h sample_tasks ?g) = [(1, {0})]"
    by (simp add: prepare_def make_cstr_groups_def extract_constraints_def TaskGroup_def hash_constraints_def cstr_of_def
        sample_tasks_def order_pair_def compare_tasks_def compare_exts_def compare_partial_def set_order_def Let_def)
  have "edges (cstr_order (prepare ?h sample_tasks ?g)) = {(1, 0)}" unfolding p by (auto simp: edges_def)
  then have ac: "acyclic (edges (cstr_order (prepare ?h sample_tasks ?g)))"
    by (simp add: wf_acyclic)
  have d: "drain ?h sample_tasks 4 ?g = Inr [[1, 2], [0]]" by code_simp
  have "compare_tasks (sample_tasks 2) (sample_tasks 0) > 0" "compare_tasks (sample_tasks 0) (sample_tasks 2) < 0"
    by (simp_all add: compare_tasks_def compare_exts_def compare_partial_def sample_tasks_def)
  with task_sets_respect_order [OF inj fresh] ac d show ?thesis by simp
qed

lemma split_by_max_spec:
  assumes "split_by_max ts xs maxjobs ret remaining = (j, ret', rem')"
    and "\<forall>x \<in> set ret. t_maxjobs (ts x) = maxjobs" "\<forall>x \<in> set remaining. t_maxjobs (ts x) > maxjobs"
  shows "mset ret' + mset rem' = mset ret + mset remaining + mset xs \<and> j \<le> maxjobs \<and>
    (\<forall>x \<in> set ret'. t_maxjobs (ts x) = j) \<and> (\<forall>x \<in> set rem'. t_maxjobs (ts x) > j) \<and>
    (\<forall>x \<in> set xs. j \<le> t_maxjobs (ts x)) \<and> (ret \<noteq> [] \<or> (\<exists>x \<in> set xs. t_maxjobs (ts x) \<le> maxjobs) \<longrightarrow> ret' \<noteq> [])"
  using assms
proof (induction xs arbitrary: maxjobs ret remaining)
  case (Cons t rest)
  consider (more) "t_maxjobs (ts t) > maxjobs" | (less) "t_maxjobs (ts t) < maxjobs" | (same) "t_maxjobs (ts t) = maxjobs"
    by linarith
  then show ?case
  proof cases
    case more
    have r: "split_by_max ts rest maxjobs ret (remaining @ [t]) = (j, ret', rem')"
      using Cons.prems(1) more by simp
    have "\<forall>x \<in> set (remaining @ [t]). t_maxjobs (ts x) > maxjobs" using Cons.prems(3) more by simp
    from Cons.IH [OF r Cons.prems(2) this] more show ?thesis by auto
  next
    case less
    have r: "split_by_max ts rest (t_maxjobs (ts t)) [t] (remaining @ ret) = (j, ret', rem')"
      using Cons.prems(1) less by simp
    have "\<forall>x \<in> set (remaining @ ret). t_maxjobs (ts x) > t_maxjobs (ts t)"
      using Cons.prems(2,3) less by force
    from Cons.IH [OF r _ this] less show ?thesis by auto
  next
    case same
    have r: "split_by_max ts rest maxjobs (ret @ [t]) remaining = (j, ret', rem')"
      using Cons.prems(1) same by simp
    have "\<forall>x \<in> set (ret @ [t]). t_maxjobs (ts x) = maxjobs" using Cons.prems(2) same by simp
    from Cons.IH [OF r this Cons.prems(3)] same show ?thesis by auto
  qed
qed auto

text \<open>In job-control mode a call returns the waiting tasks with the smallest limit on parallel jobs,
  together with that limit, and keeps exactly the others for later calls.\<close>

theorem tasks_by_max_jobs_minimal:
  assumes "g_ready g" "temp_tasks g \<noteq> []" "\<forall>x \<in> set (temp_tasks g). t_maxjobs (ts x) \<le> MAXJOBS"
  shows "\<exists>j ret g'. tasks_by_max_jobs hsh ts g = Inr (Some (j, ret), g') \<and> ret \<noteq> [] \<and>
    mset ret + mset (temp_tasks g') = mset (temp_tasks g) \<and>
    (\<forall>x \<in> set ret. t_maxjobs (ts x) = j) \<and> (\<forall>x \<in> set (temp_tasks g'). t_maxjobs (ts x) > j)"
proof -
  obtain j ret rem where s: "split_by_max ts (temp_tasks g) MAXJOBS [] [] = (j, ret, rem)"
    by (metis prod_cases3)
  have "tasks_by_max_jobs hsh ts g = Inr (Some (j, ret), g\<lparr>temp_tasks := rem\<rparr>)"
    using assms(1,2) s by (simp add: tasks_by_max_jobs_def ensure_ready_def)
  moreover have "ret \<noteq> []" "mset ret + mset rem = mset (temp_tasks g)"
    "\<forall>x \<in> set ret. t_maxjobs (ts x) = j" "\<forall>x \<in> set rem. t_maxjobs (ts x) > j"
    using split_by_max_spec [OF s] assms(2,3) by (auto simp: neq_Nil_conv)
  ultimately show ?thesis by (intro exI [of _ j] exI [of _ ret] exI [of _ "g\<lparr>temp_tasks := rem\<rparr>"]) simp
qed

theorem tasks_by_max_jobs_minimal_witness:
  "\<exists>j ret g'. tasks_by_max_jobs (\<lambda>c. 0) sample_tasks (TaskGroup\<lparr>g_ready := True, temp_tasks := [1, 0, 2]\<rparr>) =
     Inr (Some (j, ret), g') \<and> (\<forall>x \<in> set ret. t_maxjobs (sample_tasks x) = j)"
proof -
  let ?g = "TaskGroup\<lparr>g_ready := True, temp_tasks := [1, 0, 2]\<rparr>"
  have "g_ready ?g" "temp_tasks ?g \<noteq> []" "\<forall>x \<in> set (temp_tasks ?g). t_maxjobs (sample_tasks x) \<le> MAXJOBS"
    by (simp_all add: sample_tasks_def MAXJOBS_def)
  from tasks_by_max_jobs_minimal [OF this] show ?thesis by metis
qed

end
