(* ===== verification/WafRunner.thy ===== *)
theory WafRunner
  imports WafGroups
begin

section \<open>Waf: the parallel scheduler\<close>

text \<open>
  \<open>Parallel\<close> and \<open>TaskConsumer\<close> of \<open>src/tools/wafadmin/Runner.py\<close>. The main thread runs \<open>Parallel.start\<close> and the
  consumer threads \<open>TaskConsumer.loop\<close>; they share the queue \<open>ready\<close>, the queue \<open>out\<close> and the flags \<open>stop\<close> and
  \<open>error\<close>. A step of the main thread is one pass of a loop or one blocking read of \<open>out\<close>; a step of a
  consumer takes a task, looks at \<open>stop\<close>, or runs the task and returns it. What a task does is an input of
  the step: the verdict of \<open>runnable_status\<close> beyond its test of \<open>run_after\<close>, and the outcome of the run. The
  consumers exist from the start; in the source they are created with the first task to run, which
  cannot be observed.
\<close>

datatype hasrun = NOT_RUN | MISSING | CRASHED | EXCEPTION | SKIPPED | SUCCESS

datatype verdict = SkipMe | RunMe | RaisesError

datatype outcome =
    RunRaises              \<comment> \<open>\<open>call_run\<close> or \<open>display\<close> raises\<close>
  | RunFails               \<comment> \<open>a return code other than 0\<close>
  | PostRunMissing         \<comment> \<open>\<open>post_run\<close> marks an output as missing and raises \<open>WafError\<close>\<close>
  | PostRunRaises
  | RunOk

definition GAP :: nat where "GAP = 15"

record params =
  p_algo :: algo
  p_hash :: "cstr \<Rightarrow> int"
  p_numjobs :: nat
  p_keep :: bool                       \<comment> \<open>\<open>Options.options.keep\<close>\<close>
  p_is_install :: bool
  p_install :: "nat \<Rightarrow> install_attr"
  p_more_tasks :: "nat \<Rightarrow> nat list"     \<comment> \<open>the attribute \<open>more_tasks\<close>\<close>

datatype main_pc =
    LoopTop          \<comment> \<open>\<open>while not self.stop\<close>\<close>
  | RefillWait       \<comment> \<open>the first loop of \<open>refill_task_list\<close>\<close>
  | RefillLoop       \<comment> \<open>\<open>while not self.outstanding\<close>\<close>
  | RefillSet        \<comment> \<open>behind the \<open>get_out\<close> of that loop\<close>
  | Next             \<comment> \<open>\<open>get_next\<close> and what follows\<close>
  | CollectOut          \<comment> \<open>\<open>while self.error and self.count\<close>\<close>
  | Returned
  | RaisedMain py_error

datatype consumer = Idle | Got nat | Busy nat

record parallel =
  r_tasks :: tasks
  r_hasrun :: "nat \<Rightarrow> hasrun"
  mgr :: manager
  outstanding :: "nat list"
  frozen :: "nat list"
  r_maxjobs :: int
  r_count :: int
  processed :: nat
  r_total :: nat
  stop :: bool
  r_error :: bool
  ready :: "nat list"
  outq :: "nat list"
  consumers :: "consumer list"
  mpc :: main_pc

definition Parallel :: "params \<Rightarrow> tasks \<Rightarrow> (nat \<Rightarrow> hasrun) \<Rightarrow> manager \<Rightarrow> parallel" where
  "Parallel P ts hr m =
     \<lparr>r_tasks = ts, r_hasrun = hr, mgr = m\<lparr>current_group := 0\<rparr>, outstanding = [], frozen = [],
      r_maxjobs = MAXJOBS, r_count = 0, processed = 1, r_total = manager_total m, stop = False,
      r_error = False, ready = [], outq = [], consumers = replicate (p_numjobs P) Idle, mpc = LoopTop\<rparr>"

definition finish :: "params \<Rightarrow> nat \<Rightarrow> parallel \<Rightarrow> parallel" where
  "finish P t s = s\<lparr>mgr := add_finished (p_is_install P) (p_install P) t (mgr s)\<rparr>"

definition error_handler :: "params \<Rightarrow> parallel \<Rightarrow> parallel" where
  "error_handler P s = (if p_keep P then s else s\<lparr>stop := True\<rparr>)\<lparr>r_error := True\<rparr>"

text \<open>\<open>get_out\<close>; it blocks while \<open>out\<close> is empty.\<close>

definition get_out :: "params \<Rightarrow> parallel \<Rightarrow> parallel option" where
  "get_out P s =
     (case outq s of
        [] \<Rightarrow> None
      | ret # rest \<Rightarrow>
          let s = finish P ret (s\<lparr>outq := rest\<rparr>);
              s = (if \<not> stop s \<and> p_more_tasks P ret \<noteq> []
                   then s\<lparr>outstanding := outstanding s @ p_more_tasks P ret,
                          r_total := r_total s + length (p_more_tasks P ret)\<rparr>
                   else s)
          in Some (s\<lparr>r_count := r_count s - 1\<rparr>))"

definition postpone :: "bool \<Rightarrow> nat \<Rightarrow> parallel \<Rightarrow> parallel" where
  "postpone coin t s =
     (if coin then s\<lparr>frozen := t # frozen s\<rparr> else s\<lparr>frozen := frozen s @ [t]\<rparr>)"

definition set_hasrun :: "nat \<Rightarrow> hasrun \<Rightarrow> parallel \<Rightarrow> parallel" where
  "set_hasrun t h s = s\<lparr>r_hasrun := (r_hasrun s)(t := h)\<rparr>"

text \<open>The test of \<open>run_after\<close> in \<open>Task.runnable_status\<close>.\<close>

definition ask_later :: "parallel \<Rightarrow> nat \<Rightarrow> bool" where
  "ask_later s t \<longleftrightarrow> (\<exists>x \<in> set (t_run_after (r_tasks s t)). r_hasrun s x = NOT_RUN)"

text \<open>The body of the main loop behind \<open>refill_task_list\<close>.\<close>

definition consider_task :: "params \<Rightarrow> verdict \<Rightarrow> bool \<Rightarrow> nat \<Rightarrow> parallel \<Rightarrow> parallel" where
  "consider_task P v coin t s =
     (if r_hasrun s t \<noteq> NOT_RUN then finish P t (s\<lparr>processed := processed s + 1\<rparr>)
      else if ask_later s t then postpone coin t s
      else (case v of
              RaisesError \<Rightarrow>
                (if stop s \<and> \<not> p_keep P then finish P t (set_hasrun t SKIPPED (s\<lparr>processed := processed s + 1\<rparr>))
                 else set_hasrun t EXCEPTION (finish P t (error_handler P (s\<lparr>processed := processed s + 1\<rparr>))))
            | SkipMe \<Rightarrow> finish P t (set_hasrun t SKIPPED (s\<lparr>processed := processed s + 1\<rparr>))
            | RunMe \<Rightarrow>
                s\<lparr>r_count := r_count s + 1, ready := ready s @ [t], processed := processed s + 1\<rparr>))"

definition main_step :: "params \<Rightarrow> verdict \<Rightarrow> bool \<Rightarrow> parallel \<Rightarrow> parallel option" where
  "main_step P v coin s =
     (case mpc s of
        LoopTop \<Rightarrow> Some (s\<lparr>mpc := if stop s then CollectOut else RefillWait\<rparr>)
      | RefillWait \<Rightarrow>
          (if r_count s > int (p_numjobs P + GAP) \<or> r_count s \<ge> r_maxjobs s then get_out P s
           else Some (s\<lparr>mpc := RefillLoop\<rparr>))
      | RefillLoop \<Rightarrow>
          (if outstanding s \<noteq> [] then Some (s\<lparr>mpc := Next\<rparr>)
           else if r_count s \<noteq> 0 then map_option (\<lambda>s. s\<lparr>mpc := RefillSet\<rparr>) (get_out P s)
           else Some (s\<lparr>mpc := RefillSet\<rparr>))
      | RefillSet \<Rightarrow>
          (if frozen s \<noteq> [] then
             Some (s\<lparr>outstanding := outstanding s @ frozen s, frozen := [], mpc := RefillLoop\<rparr>)
           else if r_count s = 0 then
             (case manager_next_set (p_algo P) (p_hash P) (r_tasks s) (mgr s) of
                Inl e \<Rightarrow> Some (s\<lparr>mpc := RaisedMain e\<rparr>)
              | Inr (r, ts, m) \<Rightarrow>
                  let s = s\<lparr>r_tasks := ts, mgr := m\<rparr>;
                      s = (case r of
                             None \<Rightarrow> s
                           | Some (jobs, tmp) \<Rightarrow>
                               s\<lparr>r_maxjobs := jobs, outstanding := outstanding s @ tmp\<rparr>)
                  in Some (s\<lparr>mpc := Next\<rparr>))
           else Some (s\<lparr>mpc := RefillLoop\<rparr>))
      | Next \<Rightarrow>
          (case outstanding s of
             [] \<Rightarrow> Some (s\<lparr>mpc := if r_count s \<noteq> 0 then LoopTop else CollectOut\<rparr>)
           | t # rest \<Rightarrow>
               Some ((consider_task P v coin t (s\<lparr>outstanding := rest\<rparr>))\<lparr>mpc := LoopTop\<rparr>))
      | CollectOut \<Rightarrow>
          (if r_error s \<and> r_count s \<noteq> 0 then get_out P s
           else Some (s\<lparr>mpc := if r_count s = 0 \<or> stop s then Returned else RaisedMain AssertionError\<rparr>))
      | Returned \<Rightarrow> None
      | RaisedMain e \<Rightarrow> None)"

text \<open>A step of consumer \<open>i\<close>.\<close>

definition put_out :: "nat \<Rightarrow> nat \<Rightarrow> parallel \<Rightarrow> parallel" where
  "put_out i t s = s\<lparr>outq := outq s @ [t], consumers := (consumers s)[i := Idle]\<rparr>"

definition run_result :: "outcome \<Rightarrow> hasrun" where
  "run_result r =
     (case r of RunRaises \<Rightarrow> EXCEPTION | RunFails \<Rightarrow> CRASHED | PostRunMissing \<Rightarrow> MISSING
      | PostRunRaises \<Rightarrow> EXCEPTION | RunOk \<Rightarrow> SUCCESS)"

definition consumer_step :: "params \<Rightarrow> outcome \<Rightarrow> nat \<Rightarrow> parallel \<Rightarrow> parallel option" where
  "consumer_step P r i s =
     (case consumers s ! i of
        Idle \<Rightarrow>
          (case ready s of
             [] \<Rightarrow> None
           | t # rest \<Rightarrow> Some (s\<lparr>ready := rest, consumers := (consumers s)[i := Got t]\<rparr>))
      | Got t \<Rightarrow>
          Some (if stop s then put_out i t s else s\<lparr>consumers := (consumers s)[i := Busy t]\<rparr>)
      | Busy t \<Rightarrow>
          let s = set_hasrun t (run_result r) s;
              s = (if run_result r \<noteq> SUCCESS then error_handler P s else s)
          in Some (put_out i t s))"

text \<open>An execution. \<open>got\<close> lists the tasks received from the manager and \<open>extra\<close> those that finished tasks
  have added through \<open>more_tasks\<close>.\<close>

definition fetched :: "params \<Rightarrow> parallel \<Rightarrow> nat list" where
  "fetched P s =
     (if mpc s = RefillSet \<and> frozen s = [] \<and> r_count s = 0 then
        (case manager_next_set (p_algo P) (p_hash P) (r_tasks s) (mgr s) of
           Inr (Some (jobs, tmp), ts, m) \<Rightarrow> tmp
         | _ \<Rightarrow> [])
      else [])"

definition reads_out :: "params \<Rightarrow> parallel \<Rightarrow> bool" where
  "reads_out P s \<longleftrightarrow>
     (case mpc s of
        RefillWait \<Rightarrow> r_count s > int (p_numjobs P + GAP) \<or> r_count s \<ge> r_maxjobs s
      | RefillLoop \<Rightarrow> outstanding s = [] \<and> r_count s \<noteq> 0
      | CollectOut \<Rightarrow> r_error s \<and> r_count s \<noteq> 0
      | _ \<Rightarrow> False)"

definition added :: "params \<Rightarrow> parallel \<Rightarrow> nat list" where
  "added P s = (if reads_out P s \<and> \<not> stop s then p_more_tasks P (hd (outq s)) else [])"

inductive schedule :: "params \<Rightarrow> parallel \<Rightarrow> nat list \<Rightarrow> nat list \<Rightarrow> parallel \<Rightarrow> bool" for P s0 where
  begin_run: "schedule P s0 [] [] s0"
| main: "schedule P s0 got extra s \<Longrightarrow> main_step P v coin s = Some s' \<Longrightarrow>
    schedule P s0 (got @ fetched P s) (extra @ added P s) s'"
| work: "schedule P s0 got extra s \<Longrightarrow> i < length (consumers s) \<Longrightarrow> consumer_step P r i s = Some s' \<Longrightarrow>
    schedule P s0 got extra s'"

subsection \<open>Accounting of tasks\<close>

fun held1 :: "consumer \<Rightarrow> nat list" where
  "held1 Idle = []"
| "held1 (Got t) = [t]"
| "held1 (Busy t) = [t]"

definition held :: "parallel \<Rightarrow> nat list" where
  "held s = concat (map held1 (consumers s))"

text \<open>The tasks that \<open>count\<close> is meant to count.\<close>

definition abroad :: "parallel \<Rightarrow> nat multiset" where
  "abroad s = mset (ready s) + mset (held s) + mset (outq s)"

definition all_tasks :: "parallel \<Rightarrow> nat multiset" where
  "all_tasks s = mset (outstanding s) + mset (frozen s) + abroad s + mset (tasks_done (mgr s))"

lemma held_update:
  "i < length cs \<Longrightarrow>
   mset (concat (map held1 (cs[i := c]))) + mset (held1 (cs ! i)) = mset (concat (map held1 cs)) + mset (held1 c)"
proof (induction cs arbitrary: i)
  case (Cons a cs)
  then show ?case by (cases i) (auto simp: ac_simps)
qed simp

lemma finish_fields [simp]:
  "r_tasks (finish P t s) = r_tasks s" "r_hasrun (finish P t s) = r_hasrun s"
  "outstanding (finish P t s) = outstanding s" "frozen (finish P t s) = frozen s"
  "r_maxjobs (finish P t s) = r_maxjobs s" "r_count (finish P t s) = r_count s"
  "stop (finish P t s) = stop s" "r_error (finish P t s) = r_error s" "ready (finish P t s) = ready s"
  "outq (finish P t s) = outq s" "consumers (finish P t s) = consumers s" "mpc (finish P t s) = mpc s"
  "tasks_done (mgr (finish P t s)) = tasks_done (mgr s) @ [t]" "groups (mgr (finish P t s)) = groups (mgr s)"
  "current_group (mgr (finish P t s)) = current_group (mgr s)"
  by (simp_all add: finish_def add_finished_def Let_def)

lemma error_handler_fields [simp]:
  "r_tasks (error_handler P s) = r_tasks s" "r_hasrun (error_handler P s) = r_hasrun s"
  "outstanding (error_handler P s) = outstanding s" "frozen (error_handler P s) = frozen s"
  "r_count (error_handler P s) = r_count s" "ready (error_handler P s) = ready s"
  "outq (error_handler P s) = outq s" "consumers (error_handler P s) = consumers s"
  "mpc (error_handler P s) = mpc s" "mgr (error_handler P s) = mgr s"
  "stop (error_handler P s) \<longleftrightarrow> stop s \<or> \<not> p_keep P"
  by (simp_all add: error_handler_def)

lemma set_hasrun_fields [simp]:
  "r_tasks (set_hasrun t h s) = r_tasks s" "r_hasrun (set_hasrun t h s) = (r_hasrun s)(t := h)"
  "outstanding (set_hasrun t h s) = outstanding s" "frozen (set_hasrun t h s) = frozen s"
  "r_count (set_hasrun t h s) = r_count s" "stop (set_hasrun t h s) = stop s"
  "ready (set_hasrun t h s) = ready s" "outq (set_hasrun t h s) = outq s"
  "consumers (set_hasrun t h s) = consumers s" "mpc (set_hasrun t h s) = mpc s"
  "mgr (set_hasrun t h s) = mgr s"
  by (simp_all add: set_hasrun_def)

lemma get_out_SomeD:
  assumes "get_out P s = Some s'"
  shows "outq s \<noteq> []" "outq s' = tl (outq s)" "r_count s' = r_count s - 1" "frozen s' = frozen s"
    "outstanding s' = outstanding s @ (if stop s then [] else p_more_tasks P (hd (outq s)))"
    "tasks_done (mgr s') = tasks_done (mgr s) @ [hd (outq s)]" "ready s' = ready s"
    "consumers s' = consumers s" "mpc s' = mpc s" "stop s' = stop s" "r_tasks s' = r_tasks s"
    "r_hasrun s' = r_hasrun s" "groups (mgr s') = groups (mgr s)"
    "current_group (mgr s') = current_group (mgr s)"
  using assms by (auto simp: get_out_def Let_def split: list.splits if_splits)


definition with_current :: "manager \<Rightarrow> group \<Rightarrow> manager" where
  "with_current m g = m\<lparr>groups := (groups m)[current_group m := g]\<rparr>"

definition next_group :: "manager \<Rightarrow> group \<Rightarrow> manager" where
  "next_group m g =
     (with_current m g)\<lparr>installed := installed m @ post_funs g, current_group := current_group m + 1\<rparr>"

lemma manager_next_set_step:
  "manager_next_set a h ts m =
     (if current_group m < length (groups m) then
        (case group_next_set a h ts (groups m ! current_group m) of
           Inl e \<Rightarrow> Inl e
         | Inr (Some x, ts', g) \<Rightarrow> Inr (Some x, ts', with_current m g)
         | Inr (None, ts', g) \<Rightarrow> manager_next_set a h ts' (next_group m g))
      else Inr (None, ts, m))"
  by (subst manager_next_set.simps)
    (simp add: rbind_def with_current_def next_group_def Let_def split: sum.split prod.split option.split)

lemma manager_next_set_cases [consumes 1, case_names exhausted found skipped]:
  assumes "manager_next_set a h ts m = Inr (r, ts', m')"
    and "\<And>ts m. current_group m \<ge> length (groups m) \<Longrightarrow> Q ts m None ts m"
    and "\<And>ts m x us g. current_group m < length (groups m) \<Longrightarrow>
      group_next_set a h ts (groups m ! current_group m) = Inr (Some x, us, g) \<Longrightarrow>
      Q ts m (Some x) us (with_current m g)"
    and "\<And>ts m us g r ts' m'. current_group m < length (groups m) \<Longrightarrow>
      group_next_set a h ts (groups m ! current_group m) = Inr (None, us, g) \<Longrightarrow>
      Q us (next_group m g) r ts' m' \<Longrightarrow> Q ts m r ts' m'"
  shows "Q ts m r ts' m'"
  using assms(1)
proof (induction "length (groups m) - current_group m" arbitrary: ts m r ts' m' rule: less_induct)
  case less
  show ?case
  proof (cases "current_group m < length (groups m)")
    case True
    with less.prems obtain x us g where
      g: "group_next_set a h ts (groups m ! current_group m) = Inr (x, us, g)"
      by (subst (asm) manager_next_set_step) (auto split: sum.splits)
    show ?thesis
    proof (cases x)
      case None
      then have "manager_next_set a h us (next_group m g) = Inr (r, ts', m')"
        using less.prems True g by (subst (asm) manager_next_set_step) simp
      moreover have "length (groups (next_group m g)) - current_group (next_group m g) <
          length (groups m) - current_group m"
        using True by (simp add: next_group_def with_current_def)
      ultimately have "Q us (next_group m g) r ts' m'" by (rule less.hyps [rotated])
      then show ?thesis using assms(4) True g None by blast
    next
      case (Some y)
      then have "r = Some y" "ts' = us" "m' = with_current m g"
        using less.prems True g by (auto simp: manager_next_set_step [of a h ts m])
      then show ?thesis using assms(3) [OF True, of ts y us g] g Some by simp
    qed
  next
    case False
    then show ?thesis using less.prems assms(2) by (subst (asm) manager_next_set_step) auto
  qed
qed

lemma manager_next_set_done:
  "manager_next_set a h ts m = Inr (r, ts', m') \<Longrightarrow> tasks_done m' = tasks_done m"
  by (induction rule: manager_next_set_cases) (simp_all add: with_current_def next_group_def)

lemma postpone_fields [simp]:
  "r_tasks (postpone c t s) = r_tasks s" "r_hasrun (postpone c t s) = r_hasrun s"
  "outstanding (postpone c t s) = outstanding s" "mset (frozen (postpone c t s)) = add_mset t (mset (frozen s))"
  "r_count (postpone c t s) = r_count s" "stop (postpone c t s) = stop s"
  "ready (postpone c t s) = ready s" "outq (postpone c t s) = outq s"
  "consumers (postpone c t s) = consumers s" "mpc (postpone c t s) = mpc s" "mgr (postpone c t s) = mgr s"
  by (simp_all add: postpone_def)

lemma consider_task_accounting:
  "all_tasks (consider_task P v coin t s) = add_mset t (all_tasks s)"
  "r_count (consider_task P v coin t s) - int (size (abroad (consider_task P v coin t s))) =
   r_count s - int (size (abroad s))"
  by (auto simp: consider_task_def all_tasks_def abroad_def held_def split: verdict.split)

lemma get_out_accounting:
  assumes "get_out P s = Some s'"
  shows "r_count s' - int (size (abroad s')) = r_count s - int (size (abroad s))"
    "all_tasks s' = all_tasks s + mset (if stop s then [] else p_more_tasks P (hd (outq s)))"
proof -
  obtain t q where q: "outq s = t # q" using get_out_SomeD(1) [OF assms] by (cases "outq s") auto
  show "r_count s' - int (size (abroad s')) = r_count s - int (size (abroad s))"
    "all_tasks s' = all_tasks s + mset (if stop s then [] else p_more_tasks P (hd (outq s)))"
    using get_out_SomeD [OF assms] q by (simp_all add: abroad_def all_tasks_def held_def)
qed

lemma mpc_update_accounting [simp]:
  "abroad (s\<lparr>mpc := c\<rparr>) = abroad s" "all_tasks (s\<lparr>mpc := c\<rparr>) = all_tasks s"
  by (simp_all add: abroad_def all_tasks_def held_def)

lemma main_step_accounting:
  assumes "main_step P v coin s = Some s'"
  shows "r_count s' - int (size (abroad s')) = r_count s - int (size (abroad s))"
    "all_tasks s' = all_tasks s + mset (fetched P s) + mset (added P s)"
proof -
  have "r_count s' - int (size (abroad s')) = r_count s - int (size (abroad s)) \<and>
    all_tasks s' = all_tasks s + mset (fetched P s) + mset (added P s)"
  proof (cases "mpc s")
    case RefillWait
    then show ?thesis using assms get_out_accounting
      by (auto simp: main_step_def fetched_def added_def reads_out_def split: if_splits)
  next
    case RefillLoop
    then show ?thesis using assms get_out_accounting
      by (fastforce simp: main_step_def fetched_def added_def reads_out_def split: if_splits)
  next
    case RefillSet
    then show ?thesis using assms manager_next_set_done
      by (fastforce simp: main_step_def fetched_def added_def reads_out_def Let_def all_tasks_def abroad_def held_def
          split: if_splits sum.splits prod.splits option.splits)
  next
    case Next
    show ?thesis
    proof (cases "outstanding s")
      case (Cons t ts)
      have "all_tasks (s\<lparr>outstanding := ts\<rparr>) + {#t#} = all_tasks s" "abroad (s\<lparr>outstanding := ts\<rparr>) = abroad s"
        using Cons by (simp_all add: all_tasks_def abroad_def held_def)
      then show ?thesis
        using assms Next Cons consider_task_accounting [of P v coin t "s\<lparr>outstanding := ts\<rparr>"]
        by (auto simp: main_step_def fetched_def added_def reads_out_def)
    qed (use assms Next in \<open>auto simp: main_step_def fetched_def added_def reads_out_def\<close>)
  next
    case CollectOut
    then show ?thesis using assms get_out_accounting
      by (auto simp: main_step_def fetched_def added_def reads_out_def split: if_splits)
  qed (use assms in \<open>auto simp: main_step_def fetched_def added_def reads_out_def\<close>)
  then show "r_count s' - int (size (abroad s')) = r_count s - int (size (abroad s))"
    "all_tasks s' = all_tasks s + mset (fetched P s) + mset (added P s)" by blast+
qed

lemma consumer_step_accounting:
  assumes "consumer_step P r i s = Some s'" "i < length (consumers s)"
  shows "abroad s' = abroad s" "all_tasks s' = all_tasks s" "r_count s' = r_count s" "mpc s' = mpc s"
    "length (consumers s') = length (consumers s)" "stop s \<Longrightarrow> stop s'" "outstanding s' = outstanding s"
    "frozen s' = frozen s" "mgr s' = mgr s" "r_tasks s' = r_tasks s"
proof -
  show ab: "abroad s' = abroad s"
    using assms(1) held_update [OF assms(2), of Idle] held_update [OF assms(2), of "Got (hd (ready s))"]
      held_update [OF assms(2), of "Busy (hd (held1 (consumers s ! i)))"]
    by (auto simp: consumer_step_def put_out_def abroad_def held_def Let_def
        split: consumer.splits list.splits if_splits)
  show o: "outstanding s' = outstanding s" and f: "frozen s' = frozen s" and m: "mgr s' = mgr s"
    "r_count s' = r_count s" "mpc s' = mpc s" "length (consumers s') = length (consumers s)" "stop s \<Longrightarrow> stop s'"
    "r_tasks s' = r_tasks s"
    using assms by (auto simp: consumer_step_def put_out_def Let_def split: consumer.splits list.splits if_splits)
  show "all_tasks s' = all_tasks s" using ab o f m by (simp add: all_tasks_def)
qed

subsection \<open>The tasks the manager still holds\<close>

definition waiting :: "group \<Rightarrow> nat list" where
  "waiting g = (if g_ready g then concat (map snd (cstr_groups g)) else g_tasks g)"

definition pending :: "algo \<Rightarrow> group \<Rightarrow> nat list" where
  "pending a g =
     (case a of
        NORMAL \<Rightarrow> waiting g
      | JOBCONTROL \<Rightarrow> temp_tasks g @ waiting g
      | MAXPARALLEL \<Rightarrow> if g_done g then [] else g_tasks g)"

definition manager_pending :: "algo \<Rightarrow> manager \<Rightarrow> nat multiset" where
  "manager_pending a m = mset (concat (map (pending a) (drop (current_group m) (groups m))))"

definition set_of :: "(int \<times> nat list) option \<Rightarrow> nat list" where
  "set_of r = (case r of None \<Rightarrow> [] | Some (jobs, tmp) \<Rightarrow> tmp)"

lemma order_pair_fields:
  "g_tasks (order_pair ts p q g) = g_tasks g" "temp_tasks (order_pair ts p q g) = temp_tasks g"
  "g_done (order_pair ts p q g) = g_done g"
  by (simp_all add: order_pair_def set_order_def Let_def)

lemma fold_order_pair_fields:
  "g_tasks (fold (order_pair ts p) qs g) = g_tasks g" "temp_tasks (fold (order_pair ts p) qs g) = temp_tasks g"
  "g_done (fold (order_pair ts p) qs g) = g_done g"
  by (induction qs arbitrary: g) (simp_all add: order_pair_fields)

lemma order_pairs_fields:
  "g_tasks (order_pairs ts ps g) = g_tasks g" "temp_tasks (order_pairs ts ps g) = temp_tasks g"
  "g_done (order_pairs ts ps g) = g_done g"
  by (induction ps arbitrary: g) (simp_all add: fold_order_pair_fields)

lemma prepare_fields:
  "g_ready (prepare h ts g) = True" "g_tasks (prepare h ts g) = g_tasks g"
  "temp_tasks (prepare h ts g) = temp_tasks g" "g_done (prepare h ts g) = g_done g"
  "mset (concat (map snd (cstr_groups (prepare h ts g)))) = mset (g_tasks g)"
  using prepare_groups [of h ts g] order_pairs_fields order_pairs_edges
  by (simp_all add: grouped_def prepare_def extract_constraints_def make_cstr_groups_def)

lemma ensure_ready_fields [simp]:
  "g_ready (ensure_ready h ts g)" "g_tasks (ensure_ready h ts g) = g_tasks g"
  "temp_tasks (ensure_ready h ts g) = temp_tasks g" "g_done (ensure_ready h ts g) = g_done g"
  "mset (concat (map snd (cstr_groups (ensure_ready h ts g)))) = mset (waiting g)"
  by (simp_all add: ensure_ready_def prepare_fields waiting_def)

lemma tasks_in_parallel_waiting:
  assumes "tasks_in_parallel h ts g = Inr (xs, g')"
  shows "mset (waiting g) = mset xs + mset (waiting g')" "temp_tasks g' = temp_tasks g"
    "xs = [] \<Longrightarrow> waiting g' = []"
proof -
  let ?g = "ensure_ready h ts g"
  let ?p = "\<lambda>(u, ys). has_pred (cstr_order ?g) u"
  have split: "mset (concat (map snd (cstr_groups ?g))) =
      mset (concat (map snd (filter (\<lambda>x. \<not> ?p x) (cstr_groups ?g)))) +
      mset (concat (map snd (filter ?p (cstr_groups ?g))))"
    using mset_concat_filter [of "\<lambda>x. \<not> ?p x" "cstr_groups ?g"] by simp
  show "mset (waiting g) = mset xs + mset (waiting g')" "temp_tasks g' = temp_tasks g"
    "xs = [] \<Longrightarrow> waiting g' = []"
    using assms split by (auto simp: tasks_in_parallel_def Let_def waiting_def case_prod_unfold split: if_splits)
qed


lemma tasks_by_max_jobs_pending:
  assumes "tasks_by_max_jobs h ts g = Inr (r, g')" "\<And>t. t_maxjobs (ts t) \<le> MAXJOBS"
  shows "mset (temp_tasks g @ waiting g) = mset (set_of r) + mset (temp_tasks g' @ waiting g') \<and>
    (r = None \<longrightarrow> temp_tasks g' @ waiting g' = []) \<and> (\<forall>j xs. r = Some (j, xs) \<longrightarrow> xs \<noteq> [])"
proof -
  let ?g = "ensure_ready h ts g"
  obtain tmp g1 where t: "(if temp_tasks ?g = [] then tasks_in_parallel h ts ?g else Inr (temp_tasks ?g, ?g)) = Inr (tmp, g1)"
    using assms(1) by (auto simp: tasks_by_max_jobs_def Let_def)
  have w: "mset (waiting ?g) = mset (waiting g)" by (simp add: waiting_def ensure_ready_def prepare_fields)
  have t1: "mset (temp_tasks g) + mset (waiting g) = mset tmp + mset (waiting g1)"
    using t w tasks_in_parallel_waiting(1) [of h ts ?g tmp g1] by (auto split: if_splits)
  have t2: "tmp = [] \<Longrightarrow> waiting g1 = []"
    using t tasks_in_parallel_waiting(3) [of h ts ?g tmp g1] by (auto split: if_splits)
  obtain j ret rem where s: "split_by_max ts tmp MAXJOBS [] [] = (j, ret, rem)" by (metis prod_cases3)
  have r: "(r, g') = (if tmp = [] then (None, g1\<lparr>temp_tasks := []\<rparr>) else (Some (j, ret), g1\<lparr>temp_tasks := rem\<rparr>))"
    using assms(1) t s by (auto simp: tasks_by_max_jobs_def Let_def)
  have sp: "mset ret + mset rem = mset tmp" "tmp \<noteq> [] \<Longrightarrow> ret \<noteq> []"
    using split_by_max_spec [OF s] assms(2) by (auto simp: neq_Nil_conv)
  show ?thesis
    using r t1 t2 sp by (auto simp: set_of_def waiting_def union_assoc [symmetric] split: if_splits)
qed

lemma group_next_set_pending:
  assumes "group_next_set a h ts g = Inr (r, ts', g')" "a = JOBCONTROL \<Longrightarrow> \<forall>t. t_maxjobs (ts t) \<le> MAXJOBS"
  shows "mset (pending a g) = mset (set_of r) + mset (pending a g') \<and> (r = None \<longrightarrow> pending a g' = []) \<and>
    (\<forall>j xs. r = Some (j, xs) \<longrightarrow> xs \<noteq> [])"
proof (cases a)
  case NORMAL
  then obtain xs where t: "tasks_in_parallel h ts g = Inr (xs, g')" "r = (if xs = [] then None else Some (MAXJOBS, xs))"
    using assms(1) by (auto simp: group_next_set_def)
  show ?thesis using tasks_in_parallel_waiting [OF t(1)] t(2) NORMAL by (auto simp: pending_def set_of_def)
next
  case JOBCONTROL
  then obtain r' where t: "tasks_by_max_jobs h ts g = Inr (r', g')"
    "r = (case r' of None \<Rightarrow> None | Some (j, xs) \<Rightarrow> if xs = [] then None else Some (j, xs))"
    using assms(1) by (auto simp: group_next_set_def)
  show ?thesis using tasks_by_max_jobs_pending [OF t(1)] t(2) assms(2) JOBCONTROL
    by (cases r') (auto simp: pending_def set_of_def)
next
  case MAXPARALLEL
  then show ?thesis using assms(1)
    by (auto simp: group_next_set_def tasks_with_inner_constraints_def pending_def set_of_def Let_def split: if_splits)
qed

lemma group_next_set_tasks:
  "group_next_set a h ts g = Inr (r, ts', g') \<Longrightarrow> a \<noteq> MAXPARALLEL \<Longrightarrow> ts' = ts"
  by (cases a) (auto simp: group_next_set_def)

lemma manager_pending_unfold:
  "current_group m < length (groups m) \<Longrightarrow>
   manager_pending a m = mset (pending a (groups m ! current_group m)) +
     mset (concat (map (pending a) (drop (Suc (current_group m)) (groups m))))"
  by (simp add: manager_pending_def Cons_nth_drop_Suc [symmetric])

lemma manager_pending_next:
  "manager_pending a (next_group m g) = mset (concat (map (pending a) (drop (Suc (current_group m)) (groups m))))"
  by (simp add: manager_pending_def next_group_def with_current_def)

lemma manager_next_set_pending:
  assumes "manager_next_set a h ts m = Inr (r, ts', m')"
  shows "(a = JOBCONTROL \<longrightarrow> ts' = ts) \<and>
    ((a = JOBCONTROL \<longrightarrow> (\<forall>t. t_maxjobs (ts t) \<le> MAXJOBS)) \<longrightarrow>
       manager_pending a m = mset (set_of r) + manager_pending a m' \<and> (r = None \<longrightarrow> manager_pending a m' = {#}) \<and>
       (\<forall>j xs. r = Some (j, xs) \<longrightarrow> xs \<noteq> []))"
  using assms
proof (induction rule: manager_next_set_cases)
  case (exhausted ts m)
  then show ?case by (simp add: set_of_def manager_pending_def)
next
  case (found ts m x us g)
  then show ?case
    using group_next_set_pending [OF found(2)] group_next_set_tasks [OF found(2)]
    by (auto simp: manager_pending_unfold with_current_def)
next
  case (skipped ts m us g r ts' m')
  have "manager_pending a m = manager_pending a (next_group m g)"
    if "a = JOBCONTROL \<longrightarrow> (\<forall>t. t_maxjobs (ts t) \<le> MAXJOBS)"
    using group_next_set_pending [OF skipped(2)] skipped(1) that
    by (auto simp: manager_pending_unfold manager_pending_next set_of_def)
  then show ?case using skipped group_next_set_tasks [OF skipped(2)] by auto
qed

subsection \<open>Invariants of an execution\<close>

lemma Parallel_fields [simp]:
  "r_tasks (Parallel P ts hr m) = ts" "r_hasrun (Parallel P ts hr m) = hr"
  "mgr (Parallel P ts hr m) = m\<lparr>current_group := 0\<rparr>" "outstanding (Parallel P ts hr m) = []"
  "frozen (Parallel P ts hr m) = []" "r_count (Parallel P ts hr m) = 0" "stop (Parallel P ts hr m) = False"
  "ready (Parallel P ts hr m) = []" "outq (Parallel P ts hr m) = []"
  "consumers (Parallel P ts hr m) = replicate (p_numjobs P) Idle" "mpc (Parallel P ts hr m) = LoopTop"
  by (simp_all add: Parallel_def)

lemma abroad_Parallel [simp]: "abroad (Parallel P ts hr m) = {#}"
proof -
  have "concat (map held1 (replicate n Idle)) = []" for n by (induction n) simp_all
  then show ?thesis by (simp add: abroad_def held_def)
qed

lemma schedule_accounting:
  assumes "schedule P (Parallel P ts hr m) got extra s"
  shows "r_count s = int (size (abroad s)) \<and>
    all_tasks s = mset got + mset extra + mset (tasks_done m) \<and> length (consumers s) = p_numjobs P"
  using assms
proof (induction rule: schedule.induct)
  case begin_run
  show ?case by (simp add: all_tasks_def)
next
  case (main got extra s v coin s')
  have "length (consumers s') = length (consumers s)" using main.hyps(2) get_out_SomeD(8)
    by (auto simp: main_step_def consider_task_def Let_def split: main_pc.splits if_splits list.splits verdict.splits
        sum.splits option.splits prod.splits)
  then show ?case using main.IH main_step_accounting [OF main.hyps(2)] by (simp add: ac_simps)
next
  case (work got extra s i r s')
  then show ?case using consumer_step_accounting [OF work.hyps(3,2)] by simp
qed

lemma group_next_set_error: "group_next_set a h ts g = Inl e \<Longrightarrow> e = circular"
  by (cases a)
    (auto simp: group_next_set_def tasks_in_parallel_def tasks_by_max_jobs_def Let_def
      split: if_splits prod.splits)

lemma manager_next_set_error: "manager_next_set a h ts m = Inl e \<Longrightarrow> e = circular"
proof (induction "length (groups m) - current_group m" arbitrary: ts m rule: less_induct)
  case less
  have *: "length (groups (next_group m g)) - current_group (next_group m g) < length (groups m) - current_group m"
    if "current_group m < length (groups m)" for g using that by (simp add: next_group_def with_current_def)
  show ?case
    using less.prems less.hyps [OF *] group_next_set_error
    by (subst (asm) manager_next_set_step) (auto split: if_splits sum.splits prod.splits option.splits)
qed

text \<open>What holds of the loops' positions: behind the loops nothing is left unless the build was stopped.\<close>

definition at_end :: "algo \<Rightarrow> parallel \<Rightarrow> bool" where
  "at_end a s \<longleftrightarrow> outstanding s = [] \<and> frozen s = [] \<and> r_count s = 0 \<and> manager_pending a (mgr s) = {#}"

definition position_inv :: "params \<Rightarrow> parallel \<Rightarrow> bool" where
  "position_inv P s \<longleftrightarrow>
     (mpc s = Next \<and> outstanding s = [] \<longrightarrow> at_end (p_algo P) s) \<and>
     (mpc s \<in> {CollectOut, Returned} \<and> \<not> stop s \<longrightarrow> at_end (p_algo P) s) \<and>
     (\<forall>e. mpc s = RaisedMain e \<longrightarrow> e = circular)"

lemma manager_pending_finish [simp]: "manager_pending a (mgr (finish P t s)) = manager_pending a (mgr s)"
  by (simp add: manager_pending_def)

lemma manager_pending_get_out:
  "get_out P s = Some s' \<Longrightarrow> manager_pending a (mgr s') = manager_pending a (mgr s)"
  by (simp add: manager_pending_def get_out_SomeD)

lemma consider_task_fields:
  "mgr (consider_task P v coin t s) = mgr s \<or> mgr (consider_task P v coin t s) = mgr (finish P t s)"
  "r_tasks (consider_task P v coin t s) = r_tasks s"
  by (auto simp: consider_task_def finish_def postpone_def error_handler_def set_hasrun_def split: verdict.split)

lemma manager_pending_consider:
  "manager_pending a (mgr (consider_task P v coin t s)) = manager_pending a (mgr s)"
  using consider_task_fields(1) [of P v coin t s] by auto

definition jobs_ok :: "params \<Rightarrow> tasks \<Rightarrow> bool" where
  "jobs_ok P ts \<longleftrightarrow> (p_algo P = JOBCONTROL \<longrightarrow> (\<forall>t. t_maxjobs (ts t) \<le> MAXJOBS))"

lemma fetch_step:
  assumes "mpc s = RefillSet" "main_step P v coin s = Some s'" "frozen s = []" "r_count s = 0" "jobs_ok P (r_tasks s)"
  shows "manager_pending (p_algo P) (mgr s) = mset (fetched P s) + manager_pending (p_algo P) (mgr s')"
    "jobs_ok P (r_tasks s')" "mpc s' \<in> {Next} \<union> RaisedMain ` {circular}"
    "outstanding s' = outstanding s @ fetched P s" "frozen s' = []" "r_count s' = 0"
    "fetched P s = [] \<Longrightarrow> mpc s' = Next \<Longrightarrow> manager_pending (p_algo P) (mgr s') = {#}"
proof -
  have "manager_pending (p_algo P) (mgr s) = mset (fetched P s) + manager_pending (p_algo P) (mgr s') \<and>
    jobs_ok P (r_tasks s') \<and> mpc s' \<in> {Next} \<union> RaisedMain ` {circular} \<and>
    outstanding s' = outstanding s @ fetched P s \<and> frozen s' = [] \<and> r_count s' = 0 \<and>
    (fetched P s = [] \<longrightarrow> mpc s' = Next \<longrightarrow> manager_pending (p_algo P) (mgr s') = {#})"
  proof (cases "manager_next_set (p_algo P) (p_hash P) (r_tasks s) (mgr s)")
    case (Inl e)
    then show ?thesis using assms manager_next_set_error [OF Inl] by (auto simp: main_step_def fetched_def)
  next
    case (Inr x)
    obtain r ts m where x: "x = (r, ts, m)" by (cases x)
    note p = manager_next_set_pending [OF Inr [unfolded x]]
    have f: "fetched P s = set_of r"
      using assms Inr x by (simp add: fetched_def set_of_def split: option.split)
    have s': "mgr s' = m" "r_tasks s' = ts" "mpc s' = Next" "outstanding s' = outstanding s @ set_of r" "frozen s' = []"
      "r_count s' = 0"
      using assms Inr x by (auto simp: main_step_def Let_def set_of_def split: option.splits)
    show ?thesis using p assms(5) unfolding s' f by (cases r) (auto simp: jobs_ok_def set_of_def)
  qed
  then show "manager_pending (p_algo P) (mgr s) = mset (fetched P s) + manager_pending (p_algo P) (mgr s')"
    "jobs_ok P (r_tasks s')" "mpc s' \<in> {Next} \<union> RaisedMain ` {circular}"
    "outstanding s' = outstanding s @ fetched P s" "frozen s' = []" "r_count s' = 0"
    "fetched P s = [] \<Longrightarrow> mpc s' = Next \<Longrightarrow> manager_pending (p_algo P) (mgr s') = {#}" by auto
qed

text \<open>Every step of the main thread but the reception of a set leaves the manager's tasks as they are.\<close>

lemma other_step:
  assumes "main_step P v coin s = Some s'" "\<not> (mpc s = RefillSet \<and> frozen s = [] \<and> r_count s = 0)"
  shows "manager_pending a (mgr s') = manager_pending a (mgr s)" "r_tasks s' = r_tasks s" "fetched P s = []"
proof -
  show "manager_pending a (mgr s') = manager_pending a (mgr s)" "r_tasks s' = r_tasks s"
    using assms manager_pending_get_out get_out_SomeD(11)
    by (auto simp: main_step_def manager_pending_consider consider_task_fields(2)
        split: main_pc.splits if_splits list.splits)
  show "fetched P s = []" using assms(2) by (auto simp: fetched_def)
qed

lemma position_step:
  assumes "main_step P v coin s = Some s'" "position_inv P s" "jobs_ok P (r_tasks s)"
  shows "position_inv P s'"
proof (cases "mpc s = RefillSet \<and> frozen s = [] \<and> r_count s = 0")
  case True
  then show ?thesis using fetch_step [OF _ assms(1) _ _ assms(3)] by (auto simp: position_inv_def at_end_def)
next
  case False
  show ?thesis
  proof (cases "mpc s")
    case CollectOut
    then show ?thesis using assms(1,2) get_out_SomeD(9,10)
      by (auto simp: main_step_def position_inv_def at_end_def split: if_splits)
  next
    case Next
    then show ?thesis using assms(1,2)
      by (auto simp: main_step_def position_inv_def at_end_def split: list.splits if_splits)
  qed (use assms(1,2) False get_out_SomeD(9) in \<open>auto simp: main_step_def position_inv_def split: if_splits\<close>)
qed

lemma schedule_position:
  assumes "schedule P (Parallel P ts hr m) got extra s" "jobs_ok P ts"
  shows "position_inv P s \<and> jobs_ok P (r_tasks s) \<and>
    mset got + manager_pending (p_algo P) (mgr s) = manager_pending (p_algo P) (m\<lparr>current_group := 0\<rparr>)"
  using assms
proof (induction rule: schedule.induct)
  case begin_run
  then show ?case by (simp add: position_inv_def)
next
  case (main got extra s v coin s')
  then have i: "position_inv P s" "jobs_ok P (r_tasks s)"
    "mset got + manager_pending (p_algo P) (mgr s) = manager_pending (p_algo P) (m\<lparr>current_group := 0\<rparr>)" by auto
  show ?case
  proof (cases "mpc s = RefillSet \<and> frozen s = [] \<and> r_count s = 0")
    case True
    then show ?thesis using i fetch_step(1,2) [OF _ main.hyps(2) _ _ i(2)] position_step [OF main.hyps(2) i(1,2)]
      by (simp add: ac_simps)
  next
    case False
    then show ?thesis using i other_step [OF main.hyps(2)] position_step [OF main.hyps(2) i(1,2)] by simp
  qed
next
  case (work got extra s i r s')
  then show ?case using consumer_step_accounting [OF work.hyps(3,2)] by (auto simp: position_inv_def at_end_def)
qed

subsection \<open>Order of execution and progress\<close>

definition predecessors_run :: "parallel \<Rightarrow> nat \<Rightarrow> bool" where
  "predecessors_run s t \<longleftrightarrow> (\<forall>x \<in> set (t_run_after (r_tasks s t)). r_hasrun s x \<noteq> NOT_RUN)"

lemma run_result_run [simp]: "run_result r \<noteq> NOT_RUN"
  by (cases r) (simp_all add: run_result_def)

lemma consider_task_hasrun:
  "r_hasrun s x \<noteq> NOT_RUN \<Longrightarrow> r_hasrun (consider_task P v coin t s) x \<noteq> NOT_RUN"
  by (auto simp: consider_task_def split: verdict.split)

lemma consider_task_abroad:
  "u \<in># abroad (consider_task P v coin t s) \<Longrightarrow> u \<in># abroad s \<or> u = t \<and> \<not> ask_later s t \<and> r_hasrun s t = NOT_RUN"
  by (auto simp: consider_task_def abroad_def held_def split: verdict.splits if_splits)

lemma main_step_hasrun:
  assumes "main_step P v coin s = Some s'" "r_hasrun s x \<noteq> NOT_RUN"
  shows "r_hasrun s' x \<noteq> NOT_RUN"
proof (cases "mpc s")
  case RefillSet
  then show ?thesis using assms
    by (auto simp: main_step_def Let_def split: if_splits sum.splits prod.splits option.splits)
qed (use assms get_out_SomeD(12) consider_task_hasrun [of "s\<lparr>outstanding := tl (outstanding s)\<rparr>" x] in
    \<open>auto simp: main_step_def split: if_splits list.splits\<close>)

lemma get_out_abroad: "get_out P s = Some s' \<Longrightarrow> t \<in># abroad s' \<Longrightarrow> t \<in># abroad s"
  by (auto simp: abroad_def held_def get_out_SomeD(2,7,8) dest: list.set_sel(2) [OF get_out_SomeD(1)])

lemma maxjobs_kept [simp]:
  "r_maxjobs (error_handler P s) = r_maxjobs s" "r_maxjobs (set_hasrun t h s) = r_maxjobs s"
  "r_maxjobs (postpone c t s) = r_maxjobs s" "r_maxjobs (consider_task P v c t s) = r_maxjobs s"
  "get_out P s = Some s' \<Longrightarrow> r_maxjobs s' = r_maxjobs s"
  by (auto simp: error_handler_def set_hasrun_def postpone_def consider_task_def finish_def get_out_def Let_def
      split: verdict.split list.splits)

lemma main_step_predecessors:
  assumes "main_step P v coin s = Some s'" "r_count s = int (size (abroad s))"
    "\<forall>t \<in># abroad s. predecessors_run s t" "t \<in># abroad s'"
    "r_count s' = int (size (abroad s'))" 
  shows "predecessors_run s' t"
proof (cases "mpc s = RefillSet \<and> frozen s = [] \<and> r_count s = 0")
  case True
  then have "r_count s' = 0" using assms(1)
    by (auto simp: main_step_def Let_def split: sum.splits prod.splits option.splits)
  then show ?thesis using assms(4,5) by simp
next
  case False
  note tasks = other_step(2) [OF assms(1) False]
  have sub: "t \<in># abroad s \<or> mpc s = Next \<and> \<not> ask_later s t"
  proof (cases "mpc s")
    case Next
    show ?thesis
    proof (cases "outstanding s")
      case (Cons u us)
      have "abroad (s\<lparr>outstanding := us\<rparr>) = abroad s" "ask_later (s\<lparr>outstanding := us\<rparr>) u = ask_later s u"
        by (simp_all add: abroad_def held_def ask_later_def)
      then show ?thesis
        using assms(1,4) Next Cons consider_task_abroad [of t P v coin u "s\<lparr>outstanding := us\<rparr>"]
        by (auto simp: main_step_def)
    qed (use assms Next in \<open>auto simp: main_step_def split: if_splits\<close>)
  next
    case RefillSet
    then have "abroad s' = abroad s"
      using assms(1) False by (auto simp: main_step_def abroad_def held_def split: if_splits)
    then show ?thesis using assms(4) by simp
  qed (use assms(1,4) get_out_abroad in \<open>auto simp: main_step_def split: if_splits\<close>)
  then have "predecessors_run s t" using assms(3) by (auto simp: predecessors_run_def ask_later_def)
  then show ?thesis using tasks main_step_hasrun [OF assms(1)] by (simp add: predecessors_run_def)
qed

lemma schedule_predecessors:
  assumes "schedule P (Parallel P ts hr m) got extra s"
  shows "\<forall>t \<in># abroad s. predecessors_run s t"
  using assms
proof (induction rule: schedule.induct)
  case (main got extra s v coin s')
  then show ?case
    using main_step_predecessors schedule_accounting schedule.main [OF main.hyps] by blast
next
  case (work got extra s i r s')
  have "r_hasrun s x \<noteq> NOT_RUN \<Longrightarrow> r_hasrun s' x \<noteq> NOT_RUN" for x
    using work.hyps(3) by (auto simp: consumer_step_def put_out_def Let_def split: consumer.splits list.splits if_splits)
  then show ?case
    using work.IH consumer_step_accounting [OF work.hyps(3,2)] by (auto simp: predecessors_run_def)
qed simp




definition jobs_pos :: "params \<Rightarrow> tasks \<Rightarrow> bool" where
  "jobs_pos P ts \<longleftrightarrow> (p_algo P = JOBCONTROL \<longrightarrow> (\<forall>t. 0 < t_maxjobs (ts t)))"




subsection \<open>Concrete executions\<close>

datatype move = Main verdict bool | Work nat outcome

fun play :: "params \<Rightarrow> move list \<Rightarrow> nat list \<times> nat list \<times> parallel \<Rightarrow> (nat list \<times> nat list \<times> parallel) option" where
  "play P [] x = Some x"
| "play P (Main v c # ms) (got, extra, s) =
     (case main_step P v c s of
        None \<Rightarrow> None
      | Some s' \<Rightarrow> play P ms (got @ fetched P s, extra @ added P s, s'))"
| "play P (Work i r # ms) (got, extra, s) =
     (if i < length (consumers s) then
        (case consumer_step P r i s of None \<Rightarrow> None | Some s' \<Rightarrow> play P ms (got, extra, s'))
      else None)"

lemma play_schedule:
  "play P ms (got, extra, s) = Some (got', extra', s') \<Longrightarrow> schedule P s0 got extra s \<Longrightarrow> schedule P s0 got' extra' s'"
proof (induction ms arbitrary: got extra s)
  case (Cons m ms)
  show ?case
  proof (cases m)
    case (Main v c)
    then obtain t where t: "main_step P v c s = Some t"
      "play P ms (got @ fetched P s, extra @ added P s, t) = Some (got', extra', s')"
      using Cons.prems(1) by (auto split: option.splits)
    show ?thesis by (rule Cons.IH [OF t(2) schedule.main [OF Cons.prems(2) t(1)]])
  next
    case (Work i r)
    then obtain t where t: "i < length (consumers s)" "consumer_step P r i s = Some t"
      "play P ms (got, extra, t) = Some (got', extra', s')"
      using Cons.prems(1) by (auto split: option.splits if_splits)
    show ?thesis by (rule Cons.IH [OF t(3) schedule.work [OF Cons.prems(2) t(1,2)]])
  qed
qed simp

definition demo_tasks :: tasks where
  "demo_tasks t =
     (if t = 1 then \<lparr>t_class = ''link'', t_before = [], t_after = [''cxx''], t_ext_in = [], t_ext_out = [],
                     t_maxjobs = MAXJOBS, t_run_after = []\<rparr>
      else \<lparr>t_class = ''cxx'', t_before = [], t_after = [], t_ext_in = [], t_ext_out = [],
            t_maxjobs = MAXJOBS, t_run_after = if t = 3 then [0] else []\<rparr>)"

definition demo_hash :: "cstr \<Rightarrow> int" where "demo_hash c = int (length (fst c))"

definition demo_params :: "(nat \<Rightarrow> nat list) \<Rightarrow> params" where
  "demo_params mt =
     \<lparr>p_algo = NORMAL, p_hash = demo_hash, p_numjobs = 2, p_keep = False, p_is_install = False,
      p_install = (\<lambda>_. NoAttr), p_more_tasks = mt\<rparr>"

definition demo_manager :: "nat list \<Rightarrow> manager" where
  "demo_manager xs = TaskManager\<lparr>groups := [TaskGroup\<lparr>g_tasks := xs\<rparr>]\<rparr>"

definition demo_state :: "(nat \<Rightarrow> nat list) \<Rightarrow> nat list \<Rightarrow> parallel" where
  "demo_state mt xs = Parallel (demo_params mt) demo_tasks (\<lambda>_. NOT_RUN) (demo_manager xs)"

definition demo_more :: "nat \<Rightarrow> nat list" where "demo_more t = (if t = 0 then [2] else [])"

text \<open>Turns of the main thread alone.\<close>

definition mains :: "nat \<Rightarrow> move list" where "mains n = replicate n (Main RunMe False)"

text \<open>Without \<open>more_tasks\<close> nothing is outstanding when the manager is asked for the next set.\<close>

definition barrier_inv :: "parallel \<Rightarrow> bool" where
  "barrier_inv s \<longleftrightarrow> (mpc s = RefillSet \<longrightarrow> outstanding s = [])"

lemma schedule_barrier:
  assumes "schedule P s0 got extra s" "\<And>t. p_more_tasks P t = []" "mpc s0 \<noteq> RefillSet"
  shows "barrier_inv s \<and> extra = []"
  using assms
proof (induction rule: schedule.induct)
  case (main got extra s v coin s')
  have "mpc s' = RefillSet \<Longrightarrow> outstanding s' = []"
    using main.hyps(2) main.prems(1) get_out_SomeD(5,9)
    by (fastforce simp: main_step_def Let_def split: main_pc.splits if_splits list.splits sum.splits prod.splits option.splits)
  then show ?case using main by (simp add: barrier_inv_def added_def)
next
  case (work got extra s i r s')
  then show ?case using consumer_step_accounting [OF work.hyps(3,2)] by (simp add: barrier_inv_def)
qed (simp add: barrier_inv_def)

definition play_demo :: "(nat \<Rightarrow> nat list) \<Rightarrow> move list \<Rightarrow> nat list \<Rightarrow> (nat list \<times> nat list \<times> parallel) option" where
  "play_demo mt ms xs = play (demo_params mt) ms ([], [], demo_state mt xs)"

definition none :: "nat \<Rightarrow> nat list" where "none t = []"

lemma demo_run:
  assumes "case play_demo mt ms xs of None \<Rightarrow> False | Some (got, extra, s) \<Rightarrow> Q got extra s"
  obtains got extra s where
    "schedule (demo_params mt) (Parallel (demo_params mt) demo_tasks (\<lambda>_. NOT_RUN) (demo_manager xs)) got extra s"
    "Q got extra s"
proof -
  obtain got extra s where p: "play_demo mt ms xs = Some (got, extra, s)" "Q got extra s"
    using assms by (auto split: option.splits)
  have "schedule (demo_params mt) (demo_state mt xs) got extra s"
    by (rule play_schedule [OF p(1) [unfolded play_demo_def] schedule.begin_run])
  then show thesis using p(2) that by (simp add: demo_state_def)
qed

lemma demo_jobs: "jobs_ok (demo_params mt) ts" "jobs_pos (demo_params mt) ts"
  by (simp_all add: jobs_ok_def jobs_pos_def demo_params_def)

subsection \<open>Properties of the scheduler\<close>

text \<open>C1: at every moment of a build, with any interleaving of the threads, the tasks received from the
  manager, those added by finished tasks and those done before are exactly the tasks outstanding, frozen,
  in the hands of the consumers (in one of the two queues or being run) and done: none is lost and none
  handled twice. \<open>count\<close> is the number of tasks in the hands of the consumers.\<close>

theorem schedule_conserves_tasks:
  assumes "schedule P (Parallel P ts hr m) got extra s"
  shows "r_count s = int (length (ready s) + length (held s) + length (outq s)) \<and>
    mset (outstanding s) + mset (frozen s) + mset (ready s) + mset (held s) + mset (outq s) +
      mset (tasks_done (mgr s)) = mset got + mset extra + mset (tasks_done m)"
  using schedule_accounting [OF assms] by (simp add: all_tasks_def abroad_def ac_simps)

theorem schedule_conserves_tasks_witness:
  "\<exists>got extra s. held s = [2] \<and> tasks_done (mgr s) = [0, 1] \<and> got = [0, 1] \<and> extra = [2] \<and>
     r_count s = int (length (ready s) + length (held s) + length (outq s)) \<and>
     mset (outstanding s) + mset (frozen s) + mset (ready s) + mset (held s) + mset (outq s) +
       mset (tasks_done (mgr s)) = mset got + mset extra"
proof -
  have "case play_demo demo_more
      (mains 7 @ replicate 3 (Work 0 RunOk) @ mains 9 @ replicate 2 (Work 0 RunOk) @ replicate 3 (Work 1 RunOk) @ mains 1)
      [0, 1] of
      None \<Rightarrow> False
    | Some (got, extra, s) \<Rightarrow> held s = [2] \<and> tasks_done (mgr s) = [0, 1] \<and> got = [0, 1] \<and> extra = [2]"
    by code_simp
  then obtain got extra s where s:
    "schedule (demo_params demo_more)
       (Parallel (demo_params demo_more) demo_tasks (\<lambda>_. NOT_RUN) (demo_manager [0, 1])) got extra s"
    "held s = [2] \<and> tasks_done (mgr s) = [0, 1] \<and> got = [0, 1] \<and> extra = [2]" by (rule demo_run)
  show ?thesis using schedule_conserves_tasks [OF s(1)] s(2)
    by (intro exI [of _ got] exI [of _ extra] exI [of _ s]) (simp add: demo_manager_def TaskManager_def)
qed

text \<open>C3: a task in the hands of the consumers never waits for another one: all tasks it has to run after
  have run (or were skipped or have failed).\<close>

theorem run_after_respected:
  assumes "schedule P (Parallel P ts hr m) got extra s" "t \<in> set (ready s) \<union> set (held s) \<union> set (outq s)"
    "x \<in> set (t_run_after (r_tasks s t))"
  shows "r_hasrun s x \<noteq> NOT_RUN"
  using schedule_predecessors [OF assms(1)] assms(2,3) by (auto simp: predecessors_run_def abroad_def)

theorem run_after_respected_witness:
  "\<exists>s :: parallel. 3 \<in> set (ready s) \<and> 0 \<in> set (t_run_after (r_tasks s 3)) \<and> r_hasrun s 0 \<noteq> NOT_RUN"
proof -
  have "case play_demo none (mains 11 @ replicate 3 (Work 0 RunOk) @ mains 4) [0, 3] of
      None \<Rightarrow> False
    | Some (got, extra, s) \<Rightarrow> 3 \<in> set (ready s) \<and> 0 \<in> set (t_run_after (r_tasks s 3))"
    by code_simp
  then obtain got extra s where s:
    "schedule (demo_params none)
       (Parallel (demo_params none) demo_tasks (\<lambda>_. NOT_RUN) (demo_manager [0, 3])) got extra s"
    "3 \<in> set (ready s) \<and> 0 \<in> set (t_run_after (r_tasks s 3))" by (rule demo_run)
  show ?thesis using run_after_respected [OF s(1), of 3 0] s(2) by (intro exI [of _ s]) simp
qed

text \<open>C2: a build that returns without having been stopped has handled every task: those of all groups and
  those added while it ran, each once, and the assertion at the end of \<open>start\<close> holds.\<close>

theorem build_handles_all:
  assumes "schedule P (Parallel P ts hr m) got extra s" "jobs_ok P ts" "\<not> stop s"
    "mpc s = Returned \<or> mpc s = RaisedMain AssertionError"
  shows "mpc s = Returned \<and>
    mset (tasks_done (mgr s)) =
      mset (tasks_done m) + mset (concat (map (pending (p_algo P)) (groups m))) + mset extra"
proof -
  note p = schedule_position [OF assms(1,2)] and acc = schedule_accounting [OF assms(1)]
  have r: "mpc s = Returned" using p assms(4) by (auto simp: position_inv_def circular_def)
  then have e: "at_end (p_algo P) s" using p assms(3) by (auto simp: position_inv_def)
  then have "mset (tasks_done (mgr s)) = mset got + mset extra + mset (tasks_done m)"
    using acc by (simp add: all_tasks_def at_end_def)
  moreover have "mset got = manager_pending (p_algo P) (m\<lparr>current_group := 0\<rparr>)" using p e by (simp add: at_end_def)
  ultimately show ?thesis using r by (simp add: manager_pending_def)
qed

theorem build_handles_all_witness:
  "\<exists>s :: parallel. mpc s = Returned \<and> \<not> stop s \<and> mset (tasks_done (mgr s)) = {#0#}"
proof -
  have "case play_demo none (mains 7 @ replicate 3 (Work 0 RunOk) @ mains 4) [0] of
      None \<Rightarrow> False
    | Some (got, extra, s) \<Rightarrow> mpc s = Returned \<and> \<not> stop s \<and> extra = []"
    by code_simp
  then obtain got extra s where s:
    "schedule (demo_params none)
       (Parallel (demo_params none) demo_tasks (\<lambda>_. NOT_RUN) (demo_manager [0])) got extra s"
    "mpc s = Returned \<and> \<not> stop s \<and> extra = []" by (rule demo_run)
  show ?thesis using build_handles_all [OF s(1) demo_jobs(1)] s(2)
    by (intro exI [of _ s])
      (simp add: demo_manager_def TaskManager_def TaskGroup_def pending_def waiting_def demo_params_def)
qed



text \<open>Unless tasks add new ones, a set of tasks is requested only when all tasks received before are done.\<close>

theorem sets_do_not_overlap:
  assumes "schedule P (Parallel P ts hr m) got extra s" "\<And>t. p_more_tasks P t = []"
    "mpc s = RefillSet" "frozen s = []" "r_count s = 0"
  shows "mset (tasks_done (mgr s)) = mset got + mset (tasks_done m)"
  using schedule_barrier [OF assms(1,2)] schedule_accounting [OF assms(1)] assms(3-5)
  by (auto simp: barrier_inv_def all_tasks_def)

theorem sets_do_not_overlap_witness:
  "\<exists>s :: parallel. mpc s = RefillSet \<and> mset (tasks_done (mgr s)) = {#0#}"
proof -
  have "case play_demo none (mains 7 @ replicate 3 (Work 0 RunOk) @ mains 1) [0] of
      None \<Rightarrow> False
    | Some (got, extra, s) \<Rightarrow> mpc s = RefillSet \<and> frozen s = [] \<and> r_count s = 0 \<and> got = [0]"
    by code_simp
  then obtain got extra s where s:
    "schedule (demo_params none)
       (Parallel (demo_params none) demo_tasks (\<lambda>_. NOT_RUN) (demo_manager [0])) got extra s"
    "mpc s = RefillSet \<and> frozen s = [] \<and> r_count s = 0 \<and> got = [0]" by (rule demo_run)
  have "p_more_tasks (demo_params none) t = []" for t by (simp add: demo_params_def none_def)
  from sets_do_not_overlap [OF s(1) this] s(2) show ?thesis
    by (intro exI [of _ s]) (simp add: demo_manager_def TaskManager_def)
qed

text \<open>With \<open>more_tasks\<close> it is otherwise: the task 1 is a link that comes after every task of class \<open>cxx\<close>, and it
  is done while the \<open>cxx\<close> task 2, added by task 0, still runs. \<open>refill_task_list\<close> asks the manager for the
  next set behind \<open>get_out\<close> without looking at \<open>outstanding\<close> again.\<close>

lemma added_task_overtaken:
  "\<exists>got extra s.
     schedule (demo_params demo_more)
       (Parallel (demo_params demo_more) demo_tasks (\<lambda>_. NOT_RUN) (demo_manager [0, 1])) got extra s \<and>
     1 \<in> set (tasks_done (mgr s)) \<and> 2 \<in> set extra \<and> 2 \<in> set (held s) \<and>
     compare_partial (demo_tasks 1) (demo_tasks 2) = -1"
proof -
  have "case play_demo demo_more
      (mains 7 @ replicate 3 (Work 0 RunOk) @ mains 9 @ replicate 2 (Work 0 RunOk) @ replicate 3 (Work 1 RunOk) @ mains 1)
      [0, 1] of
      None \<Rightarrow> False
    | Some (got, extra, s) \<Rightarrow> 1 \<in> set (tasks_done (mgr s)) \<and> 2 \<in> set extra \<and> 2 \<in> set (held s)"
    by code_simp
  then obtain got extra s where
    "schedule (demo_params demo_more)
       (Parallel (demo_params demo_more) demo_tasks (\<lambda>_. NOT_RUN) (demo_manager [0, 1])) got extra s"
    "1 \<in> set (tasks_done (mgr s)) \<and> 2 \<in> set extra \<and> 2 \<in> set (held s)" by (rule demo_run)
  moreover have "compare_partial (demo_tasks 1) (demo_tasks 2) = -1"
    by (simp add: compare_partial_def demo_tasks_def)
  ultimately show ?thesis by blast
qed

end
