(* ===== verification/WafEnv.thy ===== *)
theory WafEnv
  imports PyPrelude "HOL-Library.AList" "HOL-Library.List_Lexorder" "HOL-Library.Char_ord"
begin

section \<open>Waf: environments\<close>

text \<open>
  \<open>Environment\<close> of \<open>src/tools/wafadmin/Environment.py\<close>. Environments and lists are objects that may be shared, so
  the model has a store: environments and lists are numbers, and a \<open>world\<close> says what they hold. \<open>copy\<close> is the
  only operation that sets \<open>parent\<close>, so a parent is older than its child; the recursion along the parents
  tests it. A value is a string, a number, \<open>None\<close>, a truth value or a list of these.
\<close>

datatype atom = AStr string | AInt int | ANone | ABool bool

datatype val = VAtom atom | VList nat

text \<open>What a value holds, for a given store.\<close>

datatype content = CAtom atom | CList "atom list"

record env =
  table :: "(string \<times> val) list"
  parent :: "nat option"

record world =
  envs :: "env list"
  lists :: "atom list list"

definition VARIANT :: string where "VARIANT = ''_VARIANT_''"
definition DEFAULT :: string where "DEFAULT = ''default''"

definition deref :: "world \<Rightarrow> val \<Rightarrow> content" where
  "deref w v = (case v of VAtom x \<Rightarrow> CAtom x | VList a \<Rightarrow> CList (lists w ! a))"

definition alloc :: "atom list \<Rightarrow> world \<Rightarrow> nat \<times> world" where
  "alloc xs w = (length (lists w), w\<lparr>lists := lists w @ [xs]\<rparr>)"

definition set_list :: "nat \<Rightarrow> atom list \<Rightarrow> world \<Rightarrow> world" where
  "set_list a xs w = w\<lparr>lists := (lists w)[a := xs]\<rparr>"

definition set_table :: "nat \<Rightarrow> (string \<times> val) list \<Rightarrow> world \<Rightarrow> world" where
  "set_table e t w = w\<lparr>envs := (envs w)[e := (envs w ! e)\<lparr>table := t\<rparr>]\<rparr>"

subsection \<open>Reading and writing variables\<close>

definition new_env :: "world \<Rightarrow> nat \<times> world" where
  "new_env w = (length (envs w), w\<lparr>envs := envs w @ [\<lparr>table = [], parent = None\<rparr>]\<rparr>)"

definition derive :: "nat \<Rightarrow> world \<Rightarrow> nat \<times> world" where
  "derive e w = (length (envs w), w\<lparr>envs := envs w @ [\<lparr>table = [], parent = Some e\<rparr>]\<rparr>)"

function env_contains :: "world \<Rightarrow> nat \<Rightarrow> string \<Rightarrow> bool" where
  "env_contains w e key =
     (if map_of (table (envs w ! e)) key \<noteq> None then True
      else case parent (envs w ! e) of
             None \<Rightarrow> False
           | Some p \<Rightarrow> if p < e then env_contains w p key else False)"
  by pat_completeness auto
termination by (relation "measure (\<lambda>(w, e, key). e)") auto

text \<open>\<open>__getitem__\<close>; \<open>None\<close> stands for the new empty list of the handler of \<open>AttributeError\<close>.\<close>

function getitem :: "world \<Rightarrow> nat \<Rightarrow> string \<Rightarrow> val option"
  and getitem_up :: "world \<Rightarrow> nat \<Rightarrow> string \<Rightarrow> val option" where
  "getitem w e key =
     (case map_of (table (envs w ! e)) key of
        Some v \<Rightarrow> if v = VAtom ANone then getitem_up w e key else Some v
      | None \<Rightarrow> getitem_up w e key)"
| "getitem_up w e key =
     (case parent (envs w ! e) of
        None \<Rightarrow> None
      | Some p \<Rightarrow> if p < e then getitem w p key else None)"
  by pat_completeness auto
termination
  by (relation "measure (\<lambda>x. case x of Inl (w, e, key) \<Rightarrow> 2 * e + 1 | Inr (w, e, key) \<Rightarrow> 2 * e)") auto

declare env_contains.simps [simp del] getitem.simps [simp del] getitem_up.simps [simp del]

definition env_get :: "world \<Rightarrow> nat \<Rightarrow> string \<Rightarrow> content" where
  "env_get w e key = (case getitem w e key of None \<Rightarrow> CList [] | Some v \<Rightarrow> deref w v)"

definition setitem :: "nat \<Rightarrow> string \<Rightarrow> val \<Rightarrow> world \<Rightarrow> world" where
  "setitem e key v w = set_table e (AList.update key v (table (envs w ! e))) w"

definition delitem :: "nat \<Rightarrow> string \<Rightarrow> world \<Rightarrow> world res" where
  "delitem e key w =
     (if map_of (table (envs w ! e)) key = None then Inl KeyError
      else Inr (set_table e (AList.delete key (table (envs w ! e))) w))"

definition env_pop :: "nat \<Rightarrow> string \<Rightarrow> val option \<Rightarrow> world \<Rightarrow> (val \<times> world) res" where
  "env_pop e key dflt w =
     (case map_of (table (envs w ! e)) key of
        Some v \<Rightarrow> Inr (v, set_table e (AList.delete key (table (envs w ! e))) w)
      | None \<Rightarrow> (case dflt of None \<Rightarrow> Inl KeyError | Some d \<Rightarrow> Inr (d, w)))"

definition set_variant :: "nat \<Rightarrow> string \<Rightarrow> world \<Rightarrow> world" where
  "set_variant e name w = setitem e VARIANT (VAtom (AStr name)) w"

definition env_variant :: "world \<Rightarrow> nat \<Rightarrow> content" where
  "env_variant w e = (case getitem w e VARIANT of None \<Rightarrow> CAtom (AStr DEFAULT) | Some v \<Rightarrow> deref w v)"

text \<open>\<open>get_flat\<close>: \<open>' '.join\<close> takes strings only.\<close>

fun flat_items :: "atom list \<Rightarrow> string list res" where
  "flat_items [] = Inr []"
| "flat_items (x # xs) =
     (case x of AStr s \<Rightarrow> rbind (flat_items xs) (\<lambda>ys. Inr (s # ys)) | _ \<Rightarrow> Inl TypeError)"

definition get_flat :: "world \<Rightarrow> nat \<Rightarrow> string \<Rightarrow> string res" where
  "get_flat w e key =
     (case env_get w e key of
        CAtom (AStr s) \<Rightarrow> Inr s
      | CAtom _ \<Rightarrow> Inl TypeError
      | CList xs \<Rightarrow> rbind (flat_items xs) (\<lambda>ys. Inr (py_join '' '' ys)))"

subsection \<open>Lists\<close>

definition list_for_modification :: "nat \<Rightarrow> string \<Rightarrow> world \<Rightarrow> nat \<times> world" where
  "list_for_modification e key w =
     (case map_of (table (envs w ! e)) key of
        Some (VList a) \<Rightarrow> (a, w)
      | Some (VAtom x) \<Rightarrow> (let (a, w) = alloc [x] w in (a, setitem e key (VList a) w))
      | None \<Rightarrow>
          let (a, w) = alloc (case getitem_up w e key of
                                None \<Rightarrow> []
                              | Some (VList b) \<Rightarrow> lists w ! b
                              | Some (VAtom x) \<Rightarrow> [x]) w
          in (a, setitem e key (VList a) w))"

definition items :: "world \<Rightarrow> val \<Rightarrow> atom list" where
  "items w v = (case v of VList b \<Rightarrow> lists w ! b | VAtom x \<Rightarrow> [x])"

definition append_value :: "nat \<Rightarrow> string \<Rightarrow> val \<Rightarrow> world \<Rightarrow> world" where
  "append_value e var value w =
     (let (a, w) = list_for_modification e var w
      in set_list a (lists w ! a @ items w value) w)"

definition prepend_value :: "nat \<Rightarrow> string \<Rightarrow> val \<Rightarrow> world \<Rightarrow> world" where
  "prepend_value e var value w =
     (let (a, w) = list_for_modification e var w
      in case value of
           VList b \<Rightarrow> (let (c, w') = alloc (lists w ! b @ lists w ! a) w in setitem e var (VList c) w')
         | VAtom x \<Rightarrow> set_list a (x # lists w ! a) w)"

definition add_unique :: "atom \<Rightarrow> atom list \<Rightarrow> atom list" where
  "add_unique x xs = (if x \<in> set xs then xs else xs @ [x])"

definition append_unique :: "nat \<Rightarrow> string \<Rightarrow> val \<Rightarrow> world \<Rightarrow> world" where
  "append_unique e var value w =
     (let (a, w) = list_for_modification e var w
      in set_list a (fold add_unique (items w value) (lists w ! a)) w)"

subsection \<open>Merging, detaching, storing\<close>

definition dict_update :: "(string \<times> 'v) list \<Rightarrow> (string \<times> 'v) list \<Rightarrow> (string \<times> 'v) list" where
  "dict_update tbl new = fold (\<lambda>(k, v). AList.update k v) new tbl"

function get_merged_dict :: "world \<Rightarrow> nat \<Rightarrow> (string \<times> val) list" where
  "get_merged_dict w e =
     dict_update
       (case parent (envs w ! e) of
          None \<Rightarrow> []
        | Some p \<Rightarrow> if p < e then get_merged_dict w p else [])
       (table (envs w ! e))"
  by pat_completeness auto
termination by (relation "measure (\<lambda>(w, e). e)") auto

declare get_merged_dict.simps [simp del]

fun deepcopy :: "(string \<times> val) list \<Rightarrow> world \<Rightarrow> (string \<times> val) list \<times> world" where
  "deepcopy [] w = ([], w)"
| "deepcopy ((k, VAtom x) # t) w = (let (t', w') = deepcopy t w in ((k, VAtom x) # t', w'))"
| "deepcopy ((k, VList a) # t) w =
     (let (b, w1) = alloc (lists w ! a) w; (t', w') = deepcopy t w1 in ((k, VList b) # t', w'))"

definition detach :: "nat \<Rightarrow> world \<Rightarrow> world" where
  "detach e w =
     (case parent (envs w ! e) of
        None \<Rightarrow> w
      | Some p \<Rightarrow>
          let (t, w) = deepcopy (get_merged_dict w e) w
          in w\<lparr>envs := (envs w)[e := \<lparr>table = t, parent = None\<rparr>]\<rparr>)"

definition update :: "nat \<Rightarrow> (string \<times> val) list \<Rightarrow> world \<Rightarrow> world" where
  "update e d w = fold (\<lambda>(k, v). setitem e k v) d w"

definition truth :: "content \<Rightarrow> bool" where
  "truth c =
     (case c of
        CAtom (AStr s) \<Rightarrow> s \<noteq> []
      | CAtom (AInt n) \<Rightarrow> n \<noteq> 0
      | CAtom ANone \<Rightarrow> False
      | CAtom (ABool b) \<Rightarrow> b
      | CList xs \<Rightarrow> xs \<noteq> [])"

definition get_destdir :: "world \<Rightarrow> nat \<Rightarrow> string \<Rightarrow> string" where
  "get_destdir w e destdir = (if truth (env_get w e ''NOINSTALL'') then [] else destdir)"

text \<open>\<open>repr\<close> of the values.\<close>

definition hex_digit :: "nat \<Rightarrow> char" where
  "hex_digit d = (if d < 10 then char_of (48 + d) else char_of (87 + d))"

definition repr_quote :: "string \<Rightarrow> char" where
  "repr_quote s = (if CHR 0x27 \<in> set s \<and> CHR 0x22 \<notin> set s then CHR 0x22 else CHR 0x27)"

definition repr_char :: "char \<Rightarrow> char \<Rightarrow> string" where
  "repr_char q c =
     (if c = q \<or> c = CHR 0x5C then [CHR 0x5C, c]
      else if c = CHR 0x09 then [CHR 0x5C, CHR ''t'']
      else if c = CHR 0x0A then [CHR 0x5C, CHR ''n'']
      else if c = CHR 0x0D then [CHR 0x5C, CHR ''r'']
      else if ord c < 32 \<or> ord c \<ge> 127 then [CHR 0x5C, CHR ''x'', hex_digit (ord c div 16), hex_digit (ord c mod 16)]
      else [c])"

definition repr_str :: "string \<Rightarrow> string" where
  "repr_str s = (let q = repr_quote s in [q] @ concat (map (repr_char q) s) @ [q])"

definition repr_int :: "int \<Rightarrow> string" where
  "repr_int n = (if n < 0 then CHR ''-'' # py_str_nat (nat (- n)) else py_str_nat (nat n))"

definition repr_atom :: "atom \<Rightarrow> string" where
  "repr_atom x =
     (case x of
        AStr s \<Rightarrow> repr_str s
      | AInt n \<Rightarrow> repr_int n
      | ANone \<Rightarrow> ''None''
      | ABool b \<Rightarrow> if b then ''True'' else ''False'')"

definition repr :: "content \<Rightarrow> string" where
  "repr c =
     (case c of
        CAtom x \<Rightarrow> repr_atom x
      | CList xs \<Rightarrow> ''['' @ py_join '', '' (map repr_atom xs) @ '']'')"

definition env_str :: "world \<Rightarrow> nat \<Rightarrow> string" where
  "env_str w e =
     (let keys = sort (remdups (map fst (get_merged_dict w e)))
      in py_join [CHR 0x0A] (map (\<lambda>k. repr_str k @ '' '' @ repr (env_get w e k)) keys))"

text \<open>The text \<open>store\<close> writes.\<close>

definition store :: "world \<Rightarrow> nat \<Rightarrow> string" where
  "store w e =
     (let merged = get_merged_dict w e;
          keys = sort (remdups (map fst merged))
      in concat (map (\<lambda>k. k @ '' = '' @ repr (deref w (the (map_of merged k))) @ [CHR 0x0A]) keys))"

text \<open>\<open>eval\<close> of the literals that \<open>repr\<close> writes; anything else is outside of the model.\<close>

definition hex_val :: "char \<Rightarrow> nat option" where
  "hex_val c =
     (if py_isdigit c then Some (ord c - 48)
      else if 97 \<le> ord c \<and> ord c \<le> 102 then Some (ord c - 87)
      else if 65 \<le> ord c \<and> ord c \<le> 70 then Some (ord c - 55)
      else None)"

text \<open>The rest of a string literal, behind its opening quote.\<close>

fun eval_str :: "char \<Rightarrow> string \<Rightarrow> (string \<times> string) option" where
  "eval_str q [] = None"
| "eval_str q (c # cs) =
     (if c = q then Some ([], cs)
      else if c = CHR 0x0A then None
      else if c = CHR 0x5C then
        (case cs of
           [] \<Rightarrow> None
         | d # ds \<Rightarrow>
             if d = CHR ''x'' then
               (case ds of
                  h # l # r \<Rightarrow>
                    (case (hex_val h, hex_val l) of
                       (Some m, Some n) \<Rightarrow> map_option (\<lambda>(s, r). (char_of (16 * m + n) # s, r)) (eval_str q r)
                     | _ \<Rightarrow> None)
                | _ \<Rightarrow> None)
             else if d = CHR ''n'' then map_option (\<lambda>(s, r). (CHR 0x0A # s, r)) (eval_str q ds)
             else if d = CHR ''t'' then map_option (\<lambda>(s, r). (CHR 0x09 # s, r)) (eval_str q ds)
             else if d = CHR ''r'' then map_option (\<lambda>(s, r). (CHR 0x0D # s, r)) (eval_str q ds)
             else if d = CHR 0x5C \<or> d = CHR 0x27 \<or> d = CHR 0x22
             then map_option (\<lambda>(s, r). (d # s, r)) (eval_str q ds)
             else None)
      else map_option (\<lambda>(s, r). (c # s, r)) (eval_str q cs))"

definition eval_nat :: "string \<Rightarrow> (nat \<times> string) option" where
  "eval_nat s = (if takeWhile py_isdigit s = [] then None
                 else Some (digits_val (takeWhile py_isdigit s), dropWhile py_isdigit s))"

definition eval_atom :: "string \<Rightarrow> (atom \<times> string) option" where
  "eval_atom s =
     (case s of
        [] \<Rightarrow> None
      | c # cs \<Rightarrow>
          if c = CHR 0x27 \<or> c = CHR 0x22 then map_option (\<lambda>(t, r). (AStr t, r)) (eval_str c cs)
          else if c = CHR ''-'' then map_option (\<lambda>(n, r). (AInt (- int n), r)) (eval_nat cs)
          else if py_isdigit c then map_option (\<lambda>(n, r). (AInt (int n), r)) (eval_nat s)
          else if py_startswith s ''None'' then Some (ANone, drop 4 s)
          else if py_startswith s ''True'' then Some (ABool True, drop 4 s)
          else if py_startswith s ''False'' then Some (ABool False, drop 5 s)
          else None)"

text \<open>The items of a list behind the first one; the fuel is the length of the text.\<close>

fun eval_items :: "nat \<Rightarrow> string \<Rightarrow> atom list option" where
  "eval_items 0 s = None"
| "eval_items (Suc n) s =
     (case eval_atom s of
        None \<Rightarrow> None
      | Some (x, r) \<Rightarrow>
          if r = '']'' then Some [x]
          else if py_startswith r '', '' then map_option ((#) x) (eval_items n (drop 2 r))
          else None)"

definition py_eval :: "string \<Rightarrow> content option" where
  "py_eval s =
     (if s = ''[]'' then Some (CList [])
      else if py_startswith s ''['' then map_option CList (eval_items (length s) (drop 1 s))
      else (case eval_atom s of Some (x, []) \<Rightarrow> Some (CAtom x) | _ \<Rightarrow> None))"

text \<open>
  \<open>load\<close>. The expression \<open>re_imp\<close> matches at the start of a line: some \<open>#\<close>, a name without \<open>#\<close> and \<open>=\<close>
  (which may hold line ends), a space, an equals sign, a space, and the rest of the line. The name has no
  equals sign, so it ends before the first one.
\<close>

definition match_entry :: "string \<Rightarrow> (string \<times> string \<times> string) option" where
  "match_entry s =
     (let t = dropWhile (\<lambda>c. c = CHR ''#'') s;
          k = takeWhile (\<lambda>c. c \<noteq> CHR ''='') t;
          r = dropWhile (\<lambda>c. c \<noteq> CHR ''='') t
      in if k \<noteq> [] \<and> last k = CHR '' '' \<and> CHR ''#'' \<notin> set (butlast k) \<and> py_startswith r ''= ''
         then Some (butlast k, takeWhile (\<lambda>c. c \<noteq> CHR 0x0A) (drop 2 r), dropWhile (\<lambda>c. c \<noteq> CHR 0x0A) (drop 2 r))
         else None)"

lemma match_entry_shorter: "match_entry s = Some (k, v, r) \<Longrightarrow> length r < length s"
proof -
  assume a: "match_entry s = Some (k, v, r)"
  let ?t = "dropWhile (\<lambda>c. c = CHR ''#'') s"
  let ?r = "dropWhile (\<lambda>c. c \<noteq> CHR ''='') ?t"
  have "r = dropWhile (\<lambda>c. c \<noteq> CHR 0x0A) (drop 2 ?r)" "py_startswith ?r ''= ''"
    using a by (auto simp: match_entry_def Let_def split: if_splits)
  moreover have "2 \<le> length ?r" using calculation(2) by (cases ?r; cases "tl ?r") (auto simp: py_startswith_def)
  ultimately have "length r < length ?r" using length_dropWhile_le [of "\<lambda>c. c \<noteq> CHR 0x0A" "drop 2 ?r"] by simp
  also have "\<dots> \<le> length s" by (meson length_dropWhile_le le_trans)
  finally show ?thesis .
qed

definition next_line :: "string \<Rightarrow> string" where
  "next_line s = drop 1 (dropWhile (\<lambda>c. c \<noteq> CHR 0x0A) s)"

lemma next_line_le: "length (next_line s) \<le> length s - 1 \<or> s = []"
  using length_dropWhile_le [of "\<lambda>c. c \<noteq> CHR 0x0A" s] by (cases s) (auto simp: next_line_def)

function load_entries :: "string \<Rightarrow> (string \<times> string) list" where
  "load_entries s =
     (if s = [] then []
      else case match_entry s of
             Some (k, v, r) \<Rightarrow> (k, v) # load_entries (next_line r)
           | None \<Rightarrow> load_entries (next_line s))"
  by pat_completeness auto
termination
proof (relation "measure length")
  fix s k v r x y
  assume "match_entry s = Some x" "(k, y) = x" "(v, r) = y" "s \<noteq> []"
  then have "length r < length s" by (auto intro: match_entry_shorter)
  then show "(next_line r, s) \<in> measure length" using next_line_le [of r] by (auto simp: next_line_def)
next
  fix s :: string assume "s \<noteq> []"
  then show "(next_line s, s) \<in> measure length" using next_line_le [of s] by (cases s) auto
qed simp

declare load_entries.simps [simp del]

fun set_content :: "nat \<Rightarrow> string \<Rightarrow> content \<Rightarrow> world \<Rightarrow> world" where
  "set_content e k (CAtom x) w = setitem e k (VAtom x) w"
| "set_content e k (CList xs) w = (let (a, w) = alloc xs w in setitem e k (VList a) w)"

fun load_all :: "nat \<Rightarrow> (string \<times> string) list \<Rightarrow> world \<Rightarrow> world res" where
  "load_all e [] w = Inr w"
| "load_all e ((k, v) # es) w =
     (case py_eval v of
        None \<Rightarrow> Inl Unmodelled
      | Some c \<Rightarrow> load_all e es (set_content e k c w))"

definition load :: "nat \<Rightarrow> string \<Rightarrow> world \<Rightarrow> world res" where
  "load e code w = load_all e (load_entries code) w"

subsection \<open>Storing and loading\<close>

lemma ord_div: "ord c div 16 < 16"
  using ord_less [of c] by (simp add: div_less_iff_less_mult)

lemma hex_val_digit: "d < 16 \<Longrightarrow> hex_val (hex_digit d) = Some d"
  by (auto simp: hex_val_def hex_digit_def py_isdigit_def)

lemma eval_repr_char:
  assumes "q = CHR 0x27 \<or> q = CHR 0x22"
  shows "eval_str q (repr_char q c @ r) = map_option (\<lambda>(s, t). (c # s, t)) (eval_str q r)"
proof -
  have "16 * (ord c div 16) + ord c mod 16 = ord c" by simp
  moreover have "ord c div 16 < 16" by (rule ord_div)
  moreover have "q \<noteq> CHR 0x5C" "q \<noteq> CHR ''x''" "q \<noteq> CHR ''n''" "q \<noteq> CHR ''t''" "q \<noteq> CHR ''r''" using assms by auto
  ultimately show ?thesis using assms by (auto simp: repr_char_def hex_val_digit)
qed

lemma eval_repr_str:
  assumes "q = CHR 0x27 \<or> q = CHR 0x22"
  shows "eval_str q (concat (map (repr_char q) s) @ q # r) = Some (s, r)"
  by (induction s) (simp_all add: eval_repr_char [OF assms])

lemma eval_nat_str:
  assumes "r = [] \<or> \<not> py_isdigit (hd r)"
  shows "eval_nat (py_str_nat n @ r) = Some (n, r)"
proof -
  have "takeWhile py_isdigit (py_str_nat n @ r) = py_str_nat n"
    using assms py_str_nat_digits [of n] by (cases r) (auto simp: takeWhile_append takeWhile_eq_all_conv)
  moreover have "dropWhile py_isdigit (py_str_nat n @ r) = r"
    using assms py_str_nat_digits [of n] by (cases r) (auto simp: dropWhile_append)
  ultimately show ?thesis by (simp add: eval_nat_def)
qed

lemma repr_quote_cases: "repr_quote s = CHR 0x27 \<or> repr_quote s = CHR 0x22"
  by (simp add: repr_quote_def)

lemma py_str_nat_hd: "py_isdigit (hd (py_str_nat n))"
  using py_str_nat_digits [of n] by (cases "py_str_nat n") auto

lemma eval_repr_atom:
  assumes "r = [] \<or> \<not> py_isdigit (hd r)"
  shows "eval_atom (repr_atom x @ r) = Some (x, r)"
proof (cases x)
  case (AStr s)
  then show ?thesis using eval_repr_str [OF repr_quote_cases [of s], of s r] repr_quote_cases [of s]
    by (simp add: eval_atom_def repr_atom_def repr_str_def Let_def)
next
  case (AInt n)
  show ?thesis
  proof (cases "n < 0")
    case True
    then show ?thesis using AInt eval_nat_str [OF assms] by (simp add: eval_atom_def repr_atom_def repr_int_def)
  next
    case False
    obtain c cs where c: "py_str_nat (nat n) = c # cs" by (cases "py_str_nat (nat n)") auto
    then have "py_isdigit c" using py_str_nat_hd [of "nat n"] by simp
    moreover have "c \<noteq> CHR 0x27 \<and> c \<noteq> CHR 0x22 \<and> c \<noteq> CHR ''-''" using calculation by (auto simp: py_isdigit_def ord_def)
    ultimately show ?thesis using AInt False c eval_nat_str [OF assms, of "nat n"]
      by (simp add: eval_atom_def repr_atom_def repr_int_def)
  qed
qed (auto simp: eval_atom_def repr_atom_def py_startswith_def py_isdigit_def ord_def)

lemma eval_repr_items:
  "xs \<noteq> [] \<Longrightarrow> length xs \<le> n \<Longrightarrow> eval_items n (py_join '', '' (map repr_atom xs) @ '']'') = Some xs"
proof (induction xs arbitrary: n)
  case (Cons x xs)
  obtain m where n: "n = Suc m" using Cons.prems by (cases n) auto
  have d: "\<not> py_isdigit CHR '']''" "\<not> py_isdigit CHR '',''" by (simp_all add: py_isdigit_def ord_def)
  show ?case
  proof (cases xs)
    case Nil
    then show ?thesis using n eval_repr_atom [of "'']''" x] d by simp
  next
    case (Cons y ys)
    have "eval_atom (repr_atom x @ '', '' @ py_join '', '' (map repr_atom xs) @ '']'') =
        Some (x, '', '' @ py_join '', '' (map repr_atom xs) @ '']'')"
      by (rule eval_repr_atom) (use d in simp)
    then show ?thesis using n Cons Cons.IH [of m] Cons.prems by (simp add: py_startswith_def)
  qed
qed simp

lemma repr_atom_nonempty [simp]: "repr_atom x \<noteq> []"
  by (cases x) (simp_all add: repr_atom_def repr_str_def repr_int_def Let_def)

lemma join_length: "xs \<noteq> [] \<Longrightarrow> length xs \<le> length (py_join '', '' (map repr_atom xs))"
proof (induction xs)
  case (Cons x xs)
  then show ?case by (cases xs) (auto simp: Suc_le_eq)
qed simp

lemma repr_atom_not_bracket: "\<not> py_startswith (repr_atom x) ''[''"
proof (cases x)
  case (AInt n)
  have "hd (py_str_nat m) \<noteq> CHR ''[''" for m using py_str_nat_hd [of m] by (auto simp: py_isdigit_def ord_def)
  from this [of "nat n"] show ?thesis using AInt
    by (cases "py_str_nat (nat n)") (auto simp: repr_atom_def repr_int_def py_startswith_def)
qed (auto simp: repr_atom_def repr_str_def repr_quote_def Let_def py_startswith_def)

lemma py_eval_repr: "py_eval (repr c) = Some c"
proof (cases c)
  case (CAtom x)
  then have "repr c \<noteq> ''[]''" "\<not> py_startswith (repr c) ''[''"
    using repr_atom_not_bracket [of x] by (auto simp: repr_def py_startswith_def)
  then show ?thesis using CAtom eval_repr_atom [of "[]" x] by (simp add: py_eval_def repr_def)
next
  case (CList xs)
  show ?thesis
  proof (cases "xs = []")
    case False
    have ne: "py_join '', '' (map repr_atom xs) \<noteq> []" using join_length [OF False] False by auto
    have "eval_items (length (repr c)) (py_join '', '' (map repr_atom xs) @ '']'') = Some xs"
      by (rule eval_repr_items [OF False]) (use CList join_length [OF False] in \<open>simp add: repr_def\<close>)
    then show ?thesis using CList ne by (simp add: py_eval_def repr_def py_startswith_def)
  qed (use CList in \<open>simp add: py_eval_def repr_def\<close>)
qed

lemma hex_digit_printable: "d < 16 \<Longrightarrow> hex_digit d \<noteq> CHR 0x0A"
proof
  assume "d < 16" "hex_digit d = CHR 0x0A"
  then have "hex_val CHR 0x0A = Some d" using hex_val_digit [of d] by simp
  then show False by (simp add: hex_val_def py_isdigit_def ord_def)
qed

lemma repr_char_no_newline: "q \<noteq> CHR 0x0A \<Longrightarrow> CHR 0x0A \<notin> set (repr_char q c)"
  using hex_digit_printable [of "ord c div 16"] hex_digit_printable [of "ord c mod 16"] ord_div [of c]
  by (auto simp: repr_char_def)

lemma repr_atom_no_newline: "CHR 0x0A \<notin> set (repr_atom x)"
proof (cases x)
  case (AStr s)
  have "repr_quote s \<noteq> CHR 0x0A" by (simp add: repr_quote_def)
  then show ?thesis using AStr repr_char_no_newline [of "repr_quote s"] by (auto simp: repr_atom_def repr_str_def Let_def)
next
  case (AInt n)
  have "CHR 0x0A \<notin> set (py_str_nat m)" for m using py_str_nat_digits [of m] by (force simp: py_isdigit_def ord_def)
  then show ?thesis using AInt by (auto simp: repr_atom_def repr_int_def)
qed (auto simp: repr_atom_def)

lemma join_no_newline: "(\<And>x. x \<in> set xs \<Longrightarrow> CHR 0x0A \<notin> set x) \<Longrightarrow> CHR 0x0A \<notin> set (py_join '', '' xs)"
  by (induction "'', ''" xs rule: py_join.induct) auto

lemma repr_no_newline: "CHR 0x0A \<notin> set (repr c)"
proof (cases c)
  case (CList xs)
  have "CHR 0x0A \<notin> set (py_join '', '' (map repr_atom xs))"
    by (rule join_no_newline) (auto simp: repr_atom_no_newline)
  then show ?thesis using CList by (simp add: repr_def)
qed (simp add: repr_def repr_atom_no_newline)

lemma match_entry_line:
  assumes "CHR ''#'' \<notin> set k" "CHR ''='' \<notin> set k" "CHR 0x0A \<notin> set v"
  shows "match_entry (k @ '' = '' @ v @ CHR 0x0A # r) = Some (k, v, CHR 0x0A # r)"
proof -
  let ?s = "k @ '' = '' @ v @ CHR 0x0A # r"
  have h: "dropWhile (\<lambda>c. c = CHR ''#'') ?s = ?s" using assms(1) by (cases k) auto
  have t: "takeWhile (\<lambda>c. c \<noteq> CHR ''='') ?s = k @ '' ''" "dropWhile (\<lambda>c. c \<noteq> CHR ''='') ?s = ''= '' @ v @ CHR 0x0A # r"
    using assms(2) by (auto simp: takeWhile_append dropWhile_append)
  have v: "takeWhile (\<lambda>c. c \<noteq> CHR 0x0A) (v @ CHR 0x0A # r) = v" "dropWhile (\<lambda>c. c \<noteq> CHR 0x0A) (v @ CHR 0x0A # r) = CHR 0x0A # r"
    using assms(3) by (auto simp: takeWhile_append dropWhile_append)
  show ?thesis unfolding match_entry_def Let_def h t using assms v by (simp add: py_startswith_def)
qed

lemma load_entries_lines:
  assumes "\<And>k v. (k, v) \<in> set kvs \<Longrightarrow> CHR ''#'' \<notin> set k \<and> CHR ''='' \<notin> set k \<and> CHR 0x0A \<notin> set v"
  shows "load_entries (concat (map (\<lambda>(k, v). k @ '' = '' @ v @ [CHR 0x0A]) kvs)) = kvs"
  using assms
proof (induction kvs)
  case Nil
  show ?case by (simp add: load_entries.simps)
next
  case (Cons kv kvs)
  obtain k v where kv: "kv = (k, v)" by (cases kv)
  have "match_entry (k @ '' = '' @ v @ CHR 0x0A # concat (map (\<lambda>(k, v). k @ '' = '' @ v @ [CHR 0x0A]) kvs)) =
      Some (k, v, CHR 0x0A # concat (map (\<lambda>(k, v). k @ '' = '' @ v @ [CHR 0x0A]) kvs))"
    by (rule match_entry_line) (use Cons.prems kv in auto)
  moreover have "load_entries (concat (map (\<lambda>(k, v). k @ '' = '' @ v @ [CHR 0x0A]) kvs)) = kvs"
    by (rule Cons.IH) (use Cons.prems in auto)
  ultimately show ?case using kv by (subst load_entries.simps) (simp add: next_line_def)
qed

text \<open>The table of an environment, with the lists it holds.\<close>

definition table_content :: "world \<Rightarrow> nat \<Rightarrow> string \<Rightarrow> content option" where
  "table_content w e k = map_option (deref w) (map_of (table (envs w ! e)) k)"

definition valid_table :: "world \<Rightarrow> nat \<Rightarrow> bool" where
  "valid_table w e \<longleftrightarrow> (\<forall>k a. map_of (table (envs w ! e)) k = Some (VList a) \<longrightarrow> a < length (lists w))"

lemma setitem_table:
  assumes "e < length (envs w)"
  shows "map_of (table (envs (setitem e k v w) ! i)) j =
    (if i = e \<and> j = k then Some v else map_of (table (envs w ! i)) j)"
    "lists (setitem e k v w) = lists w" "length (envs (setitem e k v w)) = length (envs w)"
    "parent (envs (setitem e k v w) ! i) = parent (envs w ! i)"
  using assms by (auto simp: setitem_def set_table_def nth_list_update update_conv')

lemma set_content_table:
  assumes "e < length (envs w)" "valid_table w e"
  shows "table_content (set_content e k c w) e j = (if j = k then Some c else table_content w e j)"
    "valid_table (set_content e k c w) e" "length (envs (set_content e k c w)) = length (envs w)"
proof -
  have "table_content (set_content e k c w) e j = (if j = k then Some c else table_content w e j) \<and>
    valid_table (set_content e k c w) e \<and> length (envs (set_content e k c w)) = length (envs w)"
  proof (cases c)
    case (CAtom x)
    have "deref (setitem e k (VAtom x) w) = deref w"
      using setitem_table(2) [OF assms(1)] by (auto simp: deref_def fun_eq_iff split: val.split)
    then show ?thesis using assms CAtom
      by (auto simp: table_content_def valid_table_def setitem_table deref_def split: if_splits)
  next
    case (CList xs)
    let ?w = "w\<lparr>lists := lists w @ [xs]\<rparr>"
    have "e < length (envs ?w)" using assms by simp
    note st = setitem_table [OF this]
    have "map_option (deref (setitem e k (VList (length (lists w))) ?w)) (map_of (table (envs w ! e)) j) = table_content w e j"
      using assms(2) st(2)
      by (cases "map_of (table (envs w ! e)) j") (auto simp: table_content_def deref_def valid_table_def nth_append split: val.splits)
    then show ?thesis using assms(2) CList st
      by (auto simp: table_content_def valid_table_def alloc_def deref_def less_Suc_eq split: if_splits)
  qed
  then show "table_content (set_content e k c w) e j = (if j = k then Some c else table_content w e j)"
    "valid_table (set_content e k c w) e" "length (envs (set_content e k c w)) = length (envs w)" by auto
qed

lemma load_all_table:
  assumes "e < length (envs w)" "valid_table w e" "distinct (map fst kcs)"
  shows "\<exists>w'. load_all e (map (\<lambda>(k, c). (k, repr c)) kcs) w = Inr w' \<and>
    (\<forall>k. table_content w' e k = (case map_of kcs k of Some c \<Rightarrow> Some c | None \<Rightarrow> table_content w e k))"
  using assms
proof (induction kcs arbitrary: w)
  case (Cons kc kcs)
  obtain k c where kc: "kc = (k, c)" by (cases kc)
  note sc = set_content_table [OF Cons.prems(1,2), of k c]
  have "e < length (envs (set_content e k c w))" "valid_table (set_content e k c w) e" "distinct (map fst kcs)"
    using sc Cons.prems by auto
  from Cons.IH [OF this] obtain w' where w': "load_all e (map (\<lambda>(k, c). (k, repr c)) kcs) (set_content e k c w) = Inr w'"
    "\<And>j. table_content w' e j = (case map_of kcs j of Some c \<Rightarrow> Some c | None \<Rightarrow> table_content (set_content e k c w) e j)"
    by blast
  have "map_of kcs k = None" using Cons.prems(3) kc by (simp add: map_of_eq_None_iff)
  then show ?case using w' sc(1) kc py_eval_repr by (intro exI [of _ w']) (auto split: option.split)
qed simp

lemma map_of_map_keys: "map_of (map (\<lambda>k. (k, f k)) ks) k = (if k \<in> set ks then Some (f k) else None)"
  by (induction ks) auto

text \<open>C36: an environment that is stored in a file and loaded into an empty one has the same variables with the
  same values (names with an equals sign or a hash sign apart, which the file format cannot express).\<close>

theorem store_load:
  assumes "\<And>k. k \<in> fst ` set (get_merged_dict w e) \<Longrightarrow> CHR ''#'' \<notin> set k \<and> CHR ''='' \<notin> set k"
    "e' < length (envs w')" "table (envs w' ! e') = []"
  shows "\<exists>w''. load e' (store w e) w' = Inr w'' \<and>
    (\<forall>k. table_content w'' e' k = map_option (deref w) (map_of (get_merged_dict w e) k))"
proof -
  let ?m = "get_merged_dict w e"
  let ?ks = "sort (remdups (map fst ?m))"
  let ?c = "\<lambda>k. deref w (the (map_of ?m k))"
  let ?kcs = "map (\<lambda>k. (k, ?c k)) ?ks"
  have st: "store w e = concat (map (\<lambda>(k, v). k @ '' = '' @ v @ [CHR 0x0A]) (map (\<lambda>(k, c). (k, repr c)) ?kcs))"
    by (simp add: store_def Let_def comp_def)
  have "load_entries (store w e) = map (\<lambda>(k, c). (k, repr c)) ?kcs" unfolding st
    by (rule load_entries_lines) (use assms(1) repr_no_newline in auto)
  moreover have "valid_table w' e'" using assms(3) by (simp add: valid_table_def)
  moreover have "distinct (map fst ?kcs)" by (simp add: comp_def)
  ultimately obtain w'' where w: "load e' (store w e) w' = Inr w''"
    "\<And>k. table_content w'' e' k = (case map_of ?kcs k of Some c \<Rightarrow> Some c | None \<Rightarrow> table_content w' e' k)"
    using load_all_table [OF assms(2), of ?kcs] by (auto simp: load_def)
  have "table_content w'' e' k = map_option (deref w) (map_of ?m k)" for k
  proof (cases "map_of ?m k")
    case None
    then show ?thesis using w(2) assms(3) by (auto simp: map_of_map_keys table_content_def map_of_eq_None_iff)
  next
    case (Some v)
    then have "k \<in> set ?ks" by (force dest: map_of_SomeD)
    then show ?thesis using w(2) Some by (simp add: map_of_map_keys)
  qed
  with w(1) show ?thesis by blast
qed

theorem store_load_witness:
  "\<exists>w''. load 0 (store \<lparr>envs = [\<lparr>table = [(''CXX'', VList 0), (''N'', VAtom (AInt (-3)))], parent = None\<rparr>],
       lists = [[AStr ''g++'', AStr [CHR 0x27, CHR 0x0A]]]\<rparr> 0) \<lparr>envs = [\<lparr>table = [], parent = None\<rparr>], lists = []\<rparr> = Inr w'' \<and>
     table_content w'' 0 ''CXX'' = Some (CList [AStr ''g++'', AStr [CHR 0x27, CHR 0x0A]]) \<and>
     table_content w'' 0 ''N'' = Some (CAtom (AInt (-3)))"
proof -
  let ?w = "\<lparr>envs = [\<lparr>table = [(''CXX'', VList 0), (''N'', VAtom (AInt (-3)))], parent = None\<rparr>],
       lists = [[AStr ''g++'', AStr [CHR 0x27, CHR 0x0A]]]\<rparr>"
  have m: "get_merged_dict ?w 0 = [(''CXX'', VList 0), (''N'', VAtom (AInt (-3)))]" by code_simp
  have "\<exists>w''. load 0 (store ?w 0) \<lparr>envs = [\<lparr>table = [], parent = None\<rparr>], lists = []\<rparr> = Inr w'' \<and>
    (\<forall>k. table_content w'' 0 k = map_option (deref ?w) (map_of (get_merged_dict ?w 0) k))"
    by (rule store_load) (auto simp: m)
  then show ?thesis by (auto simp: m deref_def)
qed

subsection \<open>Locality of changes\<close>

text \<open>The environment and its ancestors.\<close>

function chain :: "world \<Rightarrow> nat \<Rightarrow> nat list" where
  "chain w e = e # (case parent (envs w ! e) of None \<Rightarrow> [] | Some p \<Rightarrow> if p < e then chain w p else [])"
  by pat_completeness auto
termination by (relation "measure (\<lambda>(w, e). e)") auto

declare chain.simps [simp del]

definition owns :: "world \<Rightarrow> nat \<Rightarrow> nat \<Rightarrow> bool" where
  "owns w e a \<longleftrightarrow> (\<exists>k. map_of (table (envs w ! e)) k = Some (VList a))"

text \<open>Every list belongs to one environment, and to one of its variables.\<close>

definition wf_world :: "world \<Rightarrow> bool" where
  "wf_world w \<longleftrightarrow>
     (\<forall>e < length (envs w). valid_table w e \<and> (\<forall>p. parent (envs w ! e) = Some p \<longrightarrow> p < e)) \<and>
     (\<forall>e1 < length (envs w). \<forall>e2 < length (envs w). \<forall>k1 k2 a.
        map_of (table (envs w ! e1)) k1 = Some (VList a) \<longrightarrow>
        map_of (table (envs w ! e2)) k2 = Some (VList a) \<longrightarrow> e1 = e2 \<and> k1 = k2)"

text \<open>A change of \<open>w\<close> to \<open>w'\<close> that concerns only environment \<open>e\<close> and the lists it owns.\<close>

definition local_to :: "nat \<Rightarrow> world \<Rightarrow> world \<Rightarrow> bool" where
  "local_to e w w' \<longleftrightarrow>
     length (envs w') = length (envs w) \<and> length (lists w) \<le> length (lists w') \<and>
     (\<forall>i. i \<noteq> e \<longrightarrow> envs w' ! i = envs w ! i) \<and> parent (envs w' ! e) = parent (envs w ! e) \<and>
     (\<forall>a < length (lists w). \<not> owns w e a \<longrightarrow> lists w' ! a = lists w ! a \<and> \<not> owns w' e a)"

lemma local_refl [simp]: "local_to e w w"
  by (simp add: local_to_def)

lemma local_trans:
  assumes "local_to e w1 w2" "local_to e w2 w3"
  shows "local_to e w1 w3"
  using assms by (auto simp: local_to_def)

lemma setitem_envs:
  "i \<noteq> e \<Longrightarrow> envs (setitem e k v w) ! i = envs w ! i"
  by (simp add: setitem_def set_table_def)

lemma setitem_local:
  assumes "e < length (envs w)" "\<And>a. v = VList a \<Longrightarrow> owns w e a \<or> length (lists w) \<le> a"
  shows "local_to e w (setitem e k v w)"
  using assms setitem_table [OF assms(1), of k v] setitem_envs [of _ e k v w]
  by (auto simp: local_to_def owns_def split: if_splits)

lemma set_list_local:
  assumes "owns w e a" shows "local_to e w (set_list a xs w)"
proof -
  have "(lists w)[a := xs] ! b = lists w ! b" if "\<not> owns w e b" for b
    using assms that by (metis nth_list_update_neq)
  then show ?thesis by (simp add: local_to_def set_list_def owns_def)
qed

lemma alloc_local: "local_to e w (snd (alloc xs w))"
  by (simp add: local_to_def alloc_def nth_append owns_def)

lemma chain_up: "parent (envs w ! i) = Some p \<Longrightarrow> p < i \<Longrightarrow> set (chain w p) \<subseteq> set (chain w i)"
  by (subst (2) chain.simps) auto

lemma chain_self [simp]: "i \<in> set (chain w i)"
  by (subst chain.simps) simp

lemma local_getitem:
  assumes "local_to e w w'" "e \<notin> set (chain w i)"
  shows "getitem w' i k = getitem w i k"
  using assms(2)
proof (induction i rule: less_induct)
  case (less i)
  have i: "envs w' ! i = envs w ! i" using assms(1) less.prems chain_self by (metis local_to_def)
  have "getitem_up w' i k = getitem_up w i k"
    using i less chain_up [of w i] by (subst (1 2) getitem_up.simps) (auto split: option.split)
  then show ?case using i by (subst (1 2) getitem.simps) (simp split: option.split)
qed

lemma getitem_owner:
  assumes "getitem w i k = Some (VList a)"
  shows "\<exists>j \<in> set (chain w i). owns w j a"
  using assms
proof (induction i rule: less_induct)
  case (less i)
  show ?case
  proof (cases "map_of (table (envs w ! i)) k = Some (VList a)")
    case True
    then show ?thesis by (intro bexI [of _ i]) (auto simp: owns_def)
  next
    case False
    then have "getitem_up w i k = Some (VList a)"
      using less.prems by (subst (asm) getitem.simps) (auto split: option.splits if_splits)
    then obtain p where p: "parent (envs w ! i) = Some p" "p < i" "getitem w p k = Some (VList a)"
      by (subst (asm) getitem_up.simps) (auto split: option.splits if_splits)
    then show ?thesis using less.IH [OF p(2,3)] chain_up [OF p(1,2)] by blast
  qed
qed

lemma getitem_not_None: "getitem w i k \<noteq> Some (VAtom ANone)"
proof (induction i rule: less_induct)
  case (less i)
  have "getitem_up w i k \<noteq> Some (VAtom ANone)"
    using less by (subst getitem_up.simps) (auto split: option.split)
  then show ?case by (subst getitem.simps) (auto split: option.split)
qed

lemma chain_below:
  assumes "wf_world w" "i < length (envs w)" "j \<in> set (chain w i)"
  shows "j < length (envs w)"
  using assms(2,3)
proof (induction i rule: less_induct)
  case (less i)
  then show ?case by (subst (asm) (2) chain.simps) (auto split: option.splits if_splits)
qed

text \<open>A change that is local to \<open>e\<close> is not seen through an environment that does not have \<open>e\<close> as an ancestor.\<close>

lemma local_env_get:
  assumes "local_to e w w'" "wf_world w" "e < length (envs w)" "i < length (envs w)" "e \<notin> set (chain w i)"
  shows "env_get w' i k = env_get w i k"
proof -
  have g: "getitem w' i k = getitem w i k" by (rule local_getitem [OF assms(1,5)])
  have "lists w' ! a = lists w ! a" if a: "getitem w i k = Some (VList a)" for a
  proof -
    obtain j where j: "j \<in> set (chain w i)" "owns w j a" using getitem_owner [OF a] by blast
    then have l: "j < length (envs w)" "j \<noteq> e" using chain_below [OF assms(2,4)] assms(5) by auto
    obtain k' where k': "map_of (table (envs w ! j)) k' = Some (VList a)" using j(2) by (auto simp: owns_def)
    have "a < length (lists w)" using k' l(1) assms(2) by (auto simp: wf_world_def valid_table_def)
    moreover have "\<not> owns w e a" using k' l assms(2,3) by (fastforce simp: wf_world_def owns_def)
    ultimately show ?thesis using assms(1) by (simp add: local_to_def)
  qed
  then show ?thesis using g by (auto simp: env_get_def deref_def split: option.split val.split)
qed

lemma local_chain:
  assumes "local_to e w w'"
  shows "chain w' i = chain w i"
proof (induction i rule: less_induct)
  case (less i)
  have "parent (envs w' ! i) = parent (envs w ! i)" using assms by (cases "i = e") (auto simp: local_to_def)
  then show ?case using less by (subst (1 2) chain.simps) (auto split: option.split)
qed

lemma wf_alloc:
  assumes "wf_world w"
  shows "wf_world (snd (alloc xs w))" "i < length (envs w) \<Longrightarrow> \<not> owns (snd (alloc xs w)) i (length (lists w))"
  using assms by (auto simp: wf_world_def alloc_def valid_table_def owns_def less_Suc_eq)

lemma wf_setitem:
  assumes "wf_world w" "e < length (envs w)"
    "\<And>a. v = VList a \<Longrightarrow> a < length (lists w) \<and> (\<forall>i < length (envs w). \<not> owns w i a)"
  shows "wf_world (setitem e k v w)"
proof -
  note st = setitem_table [OF assms(2), of k v]
  show ?thesis unfolding wf_world_def valid_table_def st
    using assms by (auto simp: wf_world_def valid_table_def owns_def split: if_splits)
qed

lemma wf_set_list: "wf_world w \<Longrightarrow> wf_world (set_list a xs w)"
  by (simp add: wf_world_def set_list_def valid_table_def)

definition current_items :: "world \<Rightarrow> nat \<Rightarrow> string \<Rightarrow> atom list" where
  "current_items w e k =
     (case map_of (table (envs w ! e)) k of
        Some v \<Rightarrow> items w v
      | None \<Rightarrow> (case getitem_up w e k of None \<Rightarrow> [] | Some v \<Rightarrow> items w v))"

lemma list_for_modification_spec:
  assumes "list_for_modification e k w = (a, w')" "wf_world w" "e < length (envs w)"
  shows "wf_world w'" "local_to e w w'" "map_of (table (envs w' ! e)) k = Some (VList a)" "a < length (lists w')"
    "lists w' ! a = current_items w e k" "b < length (lists w) \<Longrightarrow> lists w' ! b = lists w ! b"
    "length (envs w') = length (envs w)"
proof -
  have new: "wf_world w' \<and> local_to e w w' \<and> map_of (table (envs w' ! e)) k = Some (VList a) \<and> a < length (lists w') \<and>
    lists w' ! a = xs \<and> (b < length (lists w) \<longrightarrow> lists w' ! b = lists w ! b) \<and> length (envs w') = length (envs w)"
    if n: "(a, w') = (length (lists w), setitem e k (VList (length (lists w))) (snd (alloc xs w)))" for xs
  proof -
    let ?w = "snd (alloc xs w)"
    have e: "e < length (envs ?w)" using assms(3) by (simp add: alloc_def)
    have u: "\<not> owns ?w i (length (lists w))" if "i < length (envs w)" for i using wf_alloc(2) [OF assms(2) that] .
    have "wf_world w'" using n wf_setitem [OF wf_alloc(1) [OF assms(2)] e] u by (auto simp: alloc_def)
    moreover have "local_to e w w'"
      using n setitem_envs [of _ e] setitem_table [OF e] by (auto simp: local_to_def owns_def alloc_def nth_append split: if_splits)
    ultimately show ?thesis using n setitem_table [OF e] by (auto simp: alloc_def nth_append)
  qed
  have "wf_world w' \<and> local_to e w w' \<and> map_of (table (envs w' ! e)) k = Some (VList a) \<and> a < length (lists w') \<and>
    lists w' ! a = current_items w e k \<and> (b < length (lists w) \<longrightarrow> lists w' ! b = lists w ! b) \<and>
    length (envs w') = length (envs w)"
  proof (cases "map_of (table (envs w ! e)) k")
    case None
    then show ?thesis using assms(1) new [of "current_items w e k"]
      by (auto simp: list_for_modification_def alloc_def current_items_def items_def split: option.splits val.splits)
  next
    case (Some v)
    show ?thesis
    proof (cases v)
      case (VList c)
      then show ?thesis using Some assms
        by (auto simp: list_for_modification_def current_items_def items_def wf_world_def valid_table_def)
    next
      case (VAtom x)
      then show ?thesis using Some assms(1) new [of "[x]"]
        by (auto simp: list_for_modification_def alloc_def current_items_def items_def)
    qed
  qed
  then show "wf_world w'" "local_to e w w'" "map_of (table (envs w' ! e)) k = Some (VList a)" "a < length (lists w')"
    "lists w' ! a = current_items w e k" "b < length (lists w) \<Longrightarrow> lists w' ! b = lists w ! b"
    "length (envs w') = length (envs w)" by auto
qed

text \<open>The operations that change a variable in place.\<close>

datatype env_op = Append string val | Prepend string val | Unique string val

fun run_op :: "nat \<Rightarrow> env_op \<Rightarrow> world \<Rightarrow> world" where
  "run_op e (Append var v) w = append_value e var v w"
| "run_op e (Prepend var v) w = prepend_value e var v w"
| "run_op e (Unique var v) w = append_unique e var v w"

fun op_var :: "env_op \<Rightarrow> string" where
  "op_var (Append var v) = var"
| "op_var (Prepend var v) = var"
| "op_var (Unique var v) = var"

fun op_val :: "env_op \<Rightarrow> val" where
  "op_val (Append var v) = v"
| "op_val (Prepend var v) = v"
| "op_val (Unique var v) = v"

text \<open>What they do to the list, as functions on lists.\<close>

fun op_list :: "env_op \<Rightarrow> atom list \<Rightarrow> atom list \<Rightarrow> atom list" where
  "op_list (Append var v) new old = old @ new"
| "op_list (Prepend var v) new old = new @ old"
| "op_list (Unique var v) new old = fold add_unique new old"

lemma op_in_place:
  assumes "wf_world w" "map_of (table (envs w ! e)) k = Some (VList a)" "a < length (lists w)"
  shows "wf_world (set_list a xs w)" "local_to e w (set_list a xs w)"
    "map_of (table (envs (set_list a xs w) ! e)) k = Some (VList a)" "lists (set_list a xs w) ! a = xs"
  using assms wf_set_list set_list_local [of w e a xs]
  by (auto simp: owns_def) (simp_all add: set_list_def)

lemma run_op_spec:
  assumes "wf_world w" "e < length (envs w)" "\<And>b. op_val op = VList b \<Longrightarrow> b < length (lists w)"
  shows "wf_world (run_op e op w) \<and> local_to e w (run_op e op w) \<and>
    (\<exists>a. map_of (table (envs (run_op e op w) ! e)) (op_var op) = Some (VList a) \<and>
       lists (run_op e op w) ! a = op_list op (items w (op_val op)) (current_items w e (op_var op)))"
proof -
  obtain a w1 where m: "list_for_modification e (op_var op) w = (a, w1)" by fastforce
  note spec = list_for_modification_spec [OF m assms(1,2)]
  have it: "items w1 (op_val op) = items w (op_val op)"
    using assms(3) spec(6) by (auto simp: items_def split: val.split)
  note place = op_in_place [OF spec(1,3,4)] and tr = local_trans [OF spec(2)]
  show ?thesis
  proof (cases op)
    case (Append var v)
    then show ?thesis using m it spec(5) place(1,3,4) tr [OF place(2)]
      by (intro conjI exI [of _ a]) (auto simp: append_value_def)
  next
    case (Unique var v)
    then show ?thesis using m it spec(5) place(1,3,4) tr [OF place(2)]
      by (intro conjI exI [of _ a]) (auto simp: append_unique_def)
  next
    case (Prepend var v)
    show ?thesis
    proof (cases v)
      case (VAtom x)
      then show ?thesis using Prepend m spec(5) place(1,3,4) tr [OF place(2)]
        by (intro conjI exI [of _ a]) (auto simp: prepend_value_def items_def)
    next
      case (VList b)
      let ?xs = "lists w1 ! b @ lists w1 ! a"
      let ?w2 = "snd (alloc ?xs w1)"
      have e: "e < length (envs w1)" "e < length (envs ?w2)" using assms(2) spec(7) by (simp_all add: alloc_def)
      have r: "run_op e op w = setitem e var (VList (length (lists w1))) ?w2"
        using Prepend VList m by (simp add: prepend_value_def alloc_def)
      have "wf_world (run_op e op w)" unfolding r
        by (rule wf_setitem [OF wf_alloc(1) [OF spec(1)] e(2)]) (use wf_alloc(2) [OF spec(1)] in \<open>auto simp: alloc_def\<close>)
      moreover have "local_to e w1 (run_op e op w)" unfolding r
        using setitem_envs [of _ e] setitem_table [OF e(2)]
        by (auto simp: local_to_def owns_def alloc_def nth_append split: if_splits)
      moreover have "lists (run_op e op w) ! length (lists w1) = items w v @ current_items w e var"
        unfolding r setitem_table [OF e(2)] using Prepend VList spec(5) it by (simp add: alloc_def items_def)
      ultimately show ?thesis using tr setitem_table [OF e(2)] Prepend r
        by (intro conjI exI [of _ "length (lists w1)"]) auto
    qed
  qed
qed

lemma env_get_own:
  assumes "map_of (table (envs w ! e)) k = Some (VList a)"
  shows "env_get w e k = CList (lists w ! a)"
  using assms by (simp add: env_get_def getitem.simps [of w e k] deref_def)

lemma current_items_get:
  assumes "map_of (table (envs w ! e)) k \<noteq> Some (VAtom ANone)"
  shows "current_items w e k = (case env_get w e k of CList xs \<Rightarrow> xs | CAtom x \<Rightarrow> [x])"
  using assms
  by (auto simp: current_items_def env_get_def getitem.simps [of w e k] deref_def items_def split: option.split val.split)

definition run_ops :: "nat \<Rightarrow> env_op list \<Rightarrow> world \<Rightarrow> world" where
  "run_ops e ops w = fold (run_op e) ops w"

lemma run_ops_local:
  assumes "wf_world w" "e < length (envs w)" "\<And>op b. op \<in> set ops \<Longrightarrow> op_val op = VList b \<Longrightarrow> b < length (lists w)"
  shows "wf_world (run_ops e ops w) \<and> local_to e w (run_ops e ops w)"
  using assms
proof (induction ops arbitrary: w)
  case (Cons op ops)
  let ?w = "run_op e op w"
  have s: "wf_world ?w" "local_to e w ?w" using run_op_spec [OF Cons.prems(1,2), of op] Cons.prems(3) by auto
  then have "wf_world (run_ops e ops ?w) \<and> local_to e ?w (run_ops e ops ?w)"
    by (intro Cons.IH) (use Cons.prems in \<open>auto simp: local_to_def intro: less_le_trans\<close>)
  then show ?case using local_trans [OF s(2)] by (auto simp: run_ops_def)
qed (simp add: run_ops_def)



text \<open>What the operations do to the variable itself, which the environment may have inherited: its items
  followed by, preceded by, or joined without repetition with the new ones. (A variable set to \<open>None\<close> in
  the environment itself is different: it reads as the inherited value, but counts as the item \<open>None\<close> here.)\<close>

theorem list_operations_correct:
  assumes "wf_world w" "e < length (envs w)" "\<And>b. op_val op = VList b \<Longrightarrow> b < length (lists w)"
    "map_of (table (envs w ! e)) (op_var op) \<noteq> Some (VAtom ANone)"
  shows "env_get (run_op e op w) e (op_var op) =
    CList (op_list op (items w (op_val op)) (case env_get w e (op_var op) of CList xs \<Rightarrow> xs | CAtom x \<Rightarrow> [x]))"
  using run_op_spec [OF assms(1-3)] env_get_own current_items_get [OF assms(4)] by metis

theorem list_operations_correct_witness:
  "env_get (run_op 1 (Unique ''L'' (VList 1))
      \<lparr>envs = [\<lparr>table = [(''L'', VList 0)], parent = None\<rparr>, \<lparr>table = [], parent = Some 0\<rparr>],
       lists = [[AStr ''a'', AStr ''b''], [AStr ''b'', AStr ''c'']]\<rparr>) 1 ''L'' =
   CList [AStr ''a'', AStr ''b'', AStr ''c'']"
proof -
  let ?w = "\<lparr>envs = [\<lparr>table = [(''L'', VList 0)], parent = None\<rparr>, \<lparr>table = [], parent = Some 0\<rparr>],
       lists = [[AStr ''a'', AStr ''b''], [AStr ''b'', AStr ''c'']]\<rparr>"
  have w: "wf_world ?w" by (auto simp: wf_world_def valid_table_def less_Suc_eq nth_Cons split: nat.splits if_splits)
  have g: "env_get ?w 1 ''L'' = CList [AStr ''a'', AStr ''b'']" by code_simp
  have "env_get (run_op 1 (Unique ''L'' (VList 1)) ?w) 1 (op_var (Unique ''L'' (VList 1))) =
      CList (op_list (Unique ''L'' (VList 1)) (items ?w (op_val (Unique ''L'' (VList 1))))
        (case env_get ?w 1 (op_var (Unique ''L'' (VList 1))) of CList xs \<Rightarrow> xs | CAtom x \<Rightarrow> [x]))"
    by (rule list_operations_correct [OF w]) auto
  then show ?thesis using g by (simp add: items_def add_unique_def)
qed

subsection \<open>Detaching\<close>

text \<open>Tables are dictionaries without the value \<open>None\<close>.\<close>

definition plain_tables :: "world \<Rightarrow> bool" where
  "plain_tables w \<longleftrightarrow>
     (\<forall>e < length (envs w). distinct (map fst (table (envs w ! e))) \<and> VAtom ANone \<notin> snd ` set (table (envs w ! e)))"

lemma dict_update_lookup:
  "distinct (map fst new) \<Longrightarrow>
   map_of (dict_update base new) k = (case map_of new k of Some v \<Rightarrow> Some v | None \<Rightarrow> map_of base k)"
proof (induction new arbitrary: base)
  case (Cons kv new)
  obtain j v where kv: "kv = (j, v)" by (cases kv)
  have ih: "map_of (dict_update (AList.update j v base) new) k =
      (case map_of new k of Some v \<Rightarrow> Some v | None \<Rightarrow> map_of (AList.update j v base) k)"
    using Cons by simp
  have j: "map_of new j = None" using Cons.prems kv by (simp add: map_of_eq_None_iff)
  have "dict_update base (kv # new) = dict_update (AList.update j v base) new" by (simp add: dict_update_def kv)
  then show ?case using ih j kv by (cases "k = j") (auto simp: update_conv' split: option.split)
qed (simp add: dict_update_def)

lemma dict_update_distinct: "distinct (map fst base) \<Longrightarrow> distinct (map fst (dict_update base new))"
  by (induction new arbitrary: base) (auto simp: dict_update_def distinct_update)

lemma merged_distinct: "distinct (map fst (get_merged_dict w e))"
proof (induction e rule: less_induct)
  case (less e)
  then show ?case by (subst get_merged_dict.simps) (auto intro!: dict_update_distinct split: option.split)
qed

lemma merged_lookup:
  assumes "wf_world w" "plain_tables w" "e < length (envs w)"
  shows "map_of (get_merged_dict w e) k = getitem w e k"
  using assms(3)
proof (induction e rule: less_induct)
  case (less e)
  have p: "distinct (map fst (table (envs w ! e)))" "map_of (table (envs w ! e)) k \<noteq> Some (VAtom ANone)"
    using assms(2) less.prems by (auto simp: plain_tables_def dest!: map_of_SomeD) force
  have u: "getitem_up w e k =
      map_of (case parent (envs w ! e) of None \<Rightarrow> [] | Some p \<Rightarrow> if p < e then get_merged_dict w p else []) k"
    using less by (subst getitem_up.simps) (auto split: option.split)
  show ?case using p u by (subst get_merged_dict.simps, subst getitem.simps) (auto simp: dict_update_lookup split: option.split)
qed

lemma deepcopy_spec:
  assumes "deepcopy t w = (t', w')" "\<forall>k a. (k, VList a) \<in> set t \<longrightarrow> a < length (lists w)"
  shows "envs w' = envs w \<and> (\<exists>ys. lists w' = lists w @ ys) \<and>
    (\<forall>k. map_option (deref w') (map_of t' k) = map_option (deref w) (map_of t k)) \<and>
    (\<forall>k b. (k, VList b) \<in> set t' \<longrightarrow> length (lists w) \<le> b \<and> b < length (lists w')) \<and>
    (\<forall>k1 k2 b. (k1, VList b) \<in> set t' \<longrightarrow> (k2, VList b) \<in> set t' \<longrightarrow> k1 = k2)"
  using assms
proof (induction t w arbitrary: t' w' rule: deepcopy.induct)
  case (1 w)
  then show ?case by auto
next
  case (2 k x t w)
  obtain t1 where t1: "deepcopy t w = (t1, w')" "t' = (k, VAtom x) # t1" using 2(2) by (auto split: prod.splits)
  have "\<forall>k a. (k, VList a) \<in> set t \<longrightarrow> a < length (lists w)" using 2(3) by auto
  from 2(1) [OF t1(1) this] show ?case unfolding t1(2) by (simp add: deref_def)
next
  case (3 k a t w)
  let ?w = "w\<lparr>lists := lists w @ [lists w ! a]\<rparr>"
  obtain t1 where t1: "deepcopy t ?w = (t1, w')" "t' = (k, VList (length (lists w))) # t1"
    using 3(2) by (auto simp: alloc_def split: prod.splits)
  have bnd: "\<And>k b. (k, VList b) \<in> set t \<Longrightarrow> b < length (lists w)" "a < length (lists w)" using 3(3) by auto
  have al: "(length (lists w), ?w) = alloc (lists w ! a) w" by (simp add: alloc_def)
  have "\<forall>k b. (k, VList b) \<in> set t \<longrightarrow> b < length (lists ?w)" using bnd(1) by (auto simp: less_SucI)
  note ih0 = 3(1) [OF al refl t1(1) this]
  have ih: "envs w' = envs ?w" "\<exists>ys. lists w' = lists ?w @ ys"
    "\<And>k. map_option (deref w') (map_of t1 k) = map_option (deref ?w) (map_of t k)"
    "\<And>k b. (k, VList b) \<in> set t1 \<Longrightarrow> length (lists ?w) \<le> b \<and> b < length (lists w')"
    "\<And>k1 k2 b. (k1, VList b) \<in> set t1 \<Longrightarrow> (k2, VList b) \<in> set t1 \<Longrightarrow> k1 = k2"
    using ih0 by auto
  have d: "map_option (deref ?w) (map_of t j) = map_option (deref w) (map_of t j)" for j
    using bnd(1) by (cases "map_of t j") (auto simp: deref_def nth_append dest!: map_of_SomeD split: val.split)
  obtain ys where ys: "lists w' = lists w @ [lists w ! a] @ ys" using ih(2) by auto
  have "map_option (deref w') (map_of t' j) = map_option (deref w) (map_of ((k, VList a) # t) j)" for j
  proof (cases "j = k")
    case True
    then show ?thesis using ys t1(2) by (simp add: deref_def nth_append)
  next
    case False
    then show ?thesis using ih(3) [of j] d [of j] t1(2) by simp
  qed
  moreover have "length (lists w) \<le> b \<and> b < length (lists w')" if "(j, VList b) \<in> set t'" for j b
    using that ih(4) [of j b] ys t1(2) by auto
  moreover have "k1 = k2" if "(k1, VList b) \<in> set t'" "(k2, VList b) \<in> set t'" for k1 k2 b
    using that ih(4) [of k1 b] ih(4) [of k2 b] ih(5) [of k1 b k2] t1(2) by auto
  ultimately show ?case using ih(1) ys by simp
qed

lemma merged_members:
  assumes "wf_world w" "plain_tables w" "e < length (envs w)" "(k, VList a) \<in> set (get_merged_dict w e)"
  shows "a < length (lists w)"
proof -
  have "getitem w e k = Some (VList a)"
    using merged_lookup [OF assms(1-3), of k] merged_distinct assms(4) by (simp add: map_of_is_SomeI)
  then obtain j where j: "j \<in> set (chain w e)" "owns w j a" using getitem_owner by blast
  then have "j < length (envs w)" using chain_below [OF assms(1,3)] by blast
  with j(2) show ?thesis using assms(1) by (auto simp: owns_def wf_world_def valid_table_def)
qed

lemma detach_spec:
  assumes "wf_world w" "plain_tables w" "e < length (envs w)" "parent (envs w ! e) = Some p"
  shows "wf_world (detach e w)" "env_get (detach e w) e k = env_get w e k" "chain (detach e w) e = [e]"
    "length (envs (detach e w)) = length (envs w)" "length (lists w) \<le> length (lists (detach e w))"
proof -
  obtain t w1 where t: "deepcopy (get_merged_dict w e) w = (t, w1)" by fastforce
  have d: "detach e w = w1\<lparr>envs := (envs w1)[e := \<lparr>table = t, parent = None\<rparr>]\<rparr>"
    using assms(4) t by (simp add: detach_def)
  have "\<forall>k a. (k, VList a) \<in> set (get_merged_dict w e) \<longrightarrow> a < length (lists w)"
    using merged_members [OF assms(1-3)] by blast
  note cp = deepcopy_spec [OF t this]
  have sp: "envs w1 = envs w" "length (lists w) \<le> length (lists w1)"
    "\<And>k. map_option (deref w1) (map_of t k) = map_option (deref w) (map_of (get_merged_dict w e) k)"
    "\<And>k b. (k, VList b) \<in> set t \<Longrightarrow> length (lists w) \<le> b \<and> b < length (lists w1)"
    "\<And>k1 k2 b. (k1, VList b) \<in> set t \<Longrightarrow> (k2, VList b) \<in> set t \<Longrightarrow> k1 = k2"
    using cp by auto
  have tab: "table (envs (detach e w) ! i) = (if i = e then t else table (envs w ! i))"
    "parent (envs (detach e w) ! i) = (if i = e then None else parent (envs w ! i))" for i
    using assms(3) sp(1) d by (auto simp: nth_list_update)
  have l: "lists (detach e w) = lists w1" "length (envs (detach e w)) = length (envs w)" using d sp(1) by simp_all
  show "length (envs (detach e w)) = length (envs w)" "length (lists w) \<le> length (lists (detach e w))"
    using l sp(2) by simp_all
  show "chain (detach e w) e = [e]" by (subst chain.simps) (simp add: tab)
  have v: "b < length (lists w)" if "map_of (table (envs w ! i)) k = Some (VList b)" "i < length (envs w)" for i k b
    using that assms(1) by (auto simp: wf_world_def valid_table_def)
  show "wf_world (detach e w)" unfolding wf_world_def
  proof (intro conjI allI impI)
    fix i assume i: "i < length (envs (detach e w))"
    show "valid_table (detach e w) i"
      using v [of i] i sp(2,4) l by (fastforce simp: valid_table_def tab dest: map_of_SomeD split: if_splits)
    fix q assume "parent (envs (detach e w) ! i) = Some q"
    then show "q < i" using i l assms(1) by (auto simp: tab wf_world_def split: if_splits)
  next
    fix e1 e2 k1 k2 b
    assume e: "e1 < length (envs (detach e w))" "e2 < length (envs (detach e w))"
      and m: "map_of (table (envs (detach e w) ! e1)) k1 = Some (VList b)"
        "map_of (table (envs (detach e w) ! e2)) k2 = Some (VList b)"
    have big: "i \<noteq> e \<Longrightarrow> b < length (lists w)" "i = e \<Longrightarrow> length (lists w) \<le> b \<and> (j, VList b) \<in> set t"
      if "map_of (table (envs (detach e w) ! i)) j = Some (VList b)" "i < length (envs w)" for i j
      using that v [of i j b] sp(4) [of j b] by (auto simp: tab dest: map_of_SomeD)
    have lt: "e1 < length (envs w)" "e2 < length (envs w)" using e l by simp_all
    have iff: "e1 = e \<longleftrightarrow> e2 = e"
      using big [OF m(1) lt(1)] big [OF m(2) lt(2)] by (metis leD)
    have "e1 = e2 \<and> k1 = k2"
    proof (cases "e1 = e")
      case True
      then show ?thesis using iff big(2) [OF m(1) lt(1)] big(2) [OF m(2) lt(2)] sp(5) [of k1 b k2] by simp
    next
      case False
      then have "map_of (table (envs w ! e1)) k1 = Some (VList b)" "map_of (table (envs w ! e2)) k2 = Some (VList b)"
        using m iff by (simp_all add: tab)
      then show ?thesis using lt assms(1) by (simp add: wf_world_def)
    qed
    then show "e1 = e2" "k1 = k2" by simp_all
  qed
  have nn: "map_of t k \<noteq> Some (VAtom ANone)"
  proof
    assume "map_of t k = Some (VAtom ANone)"
    then have "map_option (deref w) (getitem w e k) = Some (CAtom ANone)"
      using sp(3) [of k] merged_lookup [OF assms(1-3), of k] by (simp add: deref_def)
    then obtain v where "getitem w e k = Some v" "deref w v = CAtom ANone" by auto
    then have "getitem w e k = Some (VAtom ANone)" by (cases v) (simp_all add: deref_def)
    then show False using getitem_not_None by blast
  qed
  have up: "getitem_up (detach e w) e k = None" by (subst getitem_up.simps) (simp add: tab)
  have "getitem (detach e w) e k = map_of t k"
    using nn up by (subst getitem.simps) (simp add: tab split: option.split)
  moreover have "deref (detach e w) = deref w1" using l by (auto simp: deref_def fun_eq_iff split: val.split)
  ultimately show "env_get (detach e w) e k = env_get w e k"
    using sp(3) [of k] merged_lookup [OF assms(1-3), of k] by (auto simp: env_get_def split: option.splits)
qed

text \<open>Detaching an environment from the one it was copied from changes none of its variables, and
  afterwards no change to another environment is seen through it.\<close>

theorem detach_correct:
  assumes "wf_world w" "plain_tables w" "e < length (envs w)" "parent (envs w ! e) = Some p"
    "i < length (envs w)" "i \<noteq> e" "\<And>op b. op \<in> set ops \<Longrightarrow> op_val op = VList b \<Longrightarrow> b < length (lists w)"
  shows "env_get (run_ops i ops (detach e w)) e k = env_get w e k"
proof -
  note d = detach_spec [OF assms(1-4)]
  have "local_to i (detach e w) (run_ops i ops (detach e w))"
    using run_ops_local [OF d(1), of i ops] d(4,5) assms(5,7) by (metis less_le_trans)
  then have "env_get (run_ops i ops (detach e w)) e k = env_get (detach e w) e k"
    by (rule local_env_get) (use d assms(3,5,6) in auto)
  then show ?thesis using d(2) by simp
qed

theorem detach_correct_witness:
  "env_get (run_ops 0 [Append ''L'' (VAtom (AStr ''z''))]
      (detach 1 \<lparr>envs = [\<lparr>table = [(''L'', VList 0)], parent = None\<rparr>, \<lparr>table = [], parent = Some 0\<rparr>], lists = [[AStr ''a'']]\<rparr>))
      1 ''L'' = CList [AStr ''a'']"
proof -
  let ?w = "\<lparr>envs = [\<lparr>table = [(''L'', VList 0)], parent = None\<rparr>, \<lparr>table = [], parent = Some 0\<rparr>], lists = [[AStr ''a'']]\<rparr>"
  have w: "wf_world ?w" by (auto simp: wf_world_def valid_table_def less_Suc_eq nth_Cons split: nat.splits if_splits)
  have p: "plain_tables ?w" by (auto simp: plain_tables_def less_Suc_eq)
  have "env_get (run_ops 0 [Append ''L'' (VAtom (AStr ''z''))] (detach 1 ?w)) 1 ''L'' = env_get ?w 1 ''L''"
    by (rule detach_correct [OF w p, of _ 0]) auto
  also have "\<dots> = CList [AStr ''a'']" by code_simp
  finally show ?thesis .
qed

text \<open>A variable that is \<open>None\<close> in the environment itself reads as the inherited value, but \<open>get_merged_dict\<close>
  lets the \<open>None\<close> hide it: there \<open>detach\<close> changes what the variable reads as.\<close>

lemma detach_loses_hidden_value:
  "env_get \<lparr>envs = [\<lparr>table = [(''L'', VAtom (AStr ''a''))], parent = None\<rparr>, \<lparr>table = [(''L'', VAtom ANone)], parent = Some 0\<rparr>],
      lists = []\<rparr> 1 ''L'' = CAtom (AStr ''a'') \<and>
   env_get (detach 1 \<lparr>envs = [\<lparr>table = [(''L'', VAtom (AStr ''a''))], parent = None\<rparr>, \<lparr>table = [(''L'', VAtom ANone)], parent = Some 0\<rparr>],
      lists = []\<rparr>) 1 ''L'' = CList []"
  by code_simp

text \<open>A value that counts as false is returned as it is, not as an empty list.\<close>

lemma getitem_keeps_false_values:
  "env_get (setitem e k (VAtom (AStr [])) w) e k = CAtom (AStr [])" if "e < length (envs w)"
  using that setitem_table(1) [OF that]
  by (simp add: env_get_def getitem.simps [of "setitem e k (VAtom (AStr [])) w" e k] deref_def)

end
