(* ===== verification/WafNode.thy ===== *)
theory WafNode
  imports PyPrelude "HOL-Library.AList"
begin

section \<open>Waf: the tree of nodes\<close>

text \<open>
  \<open>Node\<close> of \<open>src/tools/wafadmin/Node.py\<close>, on a POSIX system (\<open>os.sep\<close> is a slash). Nodes are objects: here numbers
  into the list \<open>b_nodes\<close> of the build context, in the order of their creation. A parent exists before its
  child, which the recursions along the parents test. The type of a node is in the two low bits of its id.
  Only folders have the attribute \<open>childs\<close>.
\<close>

record node =
  n_name :: string
  n_parent :: "nat option"
  n_id :: nat
  n_childs :: "(string \<times> nat) list option"

text \<open>The variant of a node is 0 for a source and the name of the environment's variant otherwise.\<close>

datatype variant = Source | Variant string

record build =
  b_nodes :: "node list"
  id_nodes :: nat
  cache_scanned_folders :: "nat list"
  cache_dir_contents :: "(nat \<times> string list) list"
  node_sigs :: "variant \<Rightarrow> nat \<Rightarrow> string option"
  cache_node_abspath :: "variant \<Rightarrow> nat \<Rightarrow> string option"
  root :: nat
  srcnode :: nat
  bldnode :: nat
  lst_variants :: "string list"
  made_dirs :: "string list"        \<comment> \<open>the folders that \<open>makedirs\<close> was asked for\<close>

definition UNDEFINED :: nat where "UNDEFINED = 0"
definition DIR :: nat where "DIR = 1"
definition FILE :: nat where "FILE = 2"
definition BUILD :: nat where "BUILD = 3"

lemmas node_types = UNDEFINED_def DIR_def FILE_def BUILD_def

abbreviation nd :: "build \<Rightarrow> nat \<Rightarrow> node" where
  "nd b n \<equiv> b_nodes b ! n"

definition set_node :: "nat \<Rightarrow> node \<Rightarrow> build \<Rightarrow> build" where
  "set_node n x b = b\<lparr>b_nodes := (b_nodes b)[n := x]\<rparr>"

definition get_type :: "build \<Rightarrow> nat \<Rightarrow> nat" where
  "get_type b n = n_id (nd b n) mod 4"

text \<open>\<open>set_type\<close>: the operator \<open>&\<close> binds weaker than \<open>+\<close> and \<open>-\<close>, so the new id is \<open>(id + t - id) & 3\<close>.\<close>

definition set_type :: "nat \<Rightarrow> nat \<Rightarrow> build \<Rightarrow> build" where
  "set_type n t b = set_node n ((nd b n)\<lparr>n_id := (n_id (nd b n) + t - n_id (nd b n)) mod 4\<rparr>) b"

text \<open>\<open>childs.get(name, None)\<close>; a node that is no folder has no attribute \<open>childs\<close>.\<close>

definition get_child :: "build \<Rightarrow> nat \<Rightarrow> string \<Rightarrow> nat option res" where
  "get_child b n name =
     (case n_childs (nd b n) of None \<Rightarrow> Inl AttributeError | Some cs \<Rightarrow> Inr (map_of cs name))"

text \<open>The constructor.\<close>

definition exists_already :: py_error where
  "exists_already = WafError ''node exists in the parent files already''"

definition fresh_node :: "string \<Rightarrow> nat option \<Rightarrow> nat \<Rightarrow> build \<Rightarrow> node" where
  "fresh_node name par tp b =
     \<lparr>n_name = name, n_parent = par, n_id = id_nodes b + 4 + tp, n_childs = if tp = DIR then Some [] else None\<rparr>"

definition add_child :: "nat \<Rightarrow> string \<Rightarrow> nat \<Rightarrow> build \<Rightarrow> build" where
  "add_child p name c b =
     set_node p ((nd b p)\<lparr>n_childs := map_option (AList.update name c) (n_childs (nd b p))\<rparr>) b"

definition new_node :: "string \<Rightarrow> nat option \<Rightarrow> nat \<Rightarrow> build \<Rightarrow> (nat \<times> build) res" where
  "new_node name par tp b =
     (let n = length (b_nodes b);
          b1 = b\<lparr>b_nodes := b_nodes b @ [fresh_node name par tp b], id_nodes := id_nodes b + 4\<rparr>
      in case par of
           None \<Rightarrow> Inr (n, b1)
         | Some p \<Rightarrow>
             rbind (get_child b p name) (\<lambda>c.
               if c \<noteq> None then Inl exists_already else Inr (n, add_child p name n b1)))"

subsection \<open>The children\<close>

definition child_nodes :: "build \<Rightarrow> nat \<Rightarrow> nat list res" where
  "child_nodes b n =
     (case n_childs (nd b n) of None \<Rightarrow> Inl AttributeError | Some cs \<Rightarrow> Inr (map snd cs))"

definition dirs :: "build \<Rightarrow> nat \<Rightarrow> nat list res" where
  "dirs b n = rbind (child_nodes b n) (\<lambda>cs. Inr (filter (\<lambda>c. get_type b c = DIR) cs))"

definition files :: "build \<Rightarrow> nat \<Rightarrow> nat list res" where
  "files b n = rbind (child_nodes b n) (\<lambda>cs. Inr (filter (\<lambda>c. get_type b c = FILE) cs))"

definition get_typed :: "nat \<Rightarrow> build \<Rightarrow> nat \<Rightarrow> string \<Rightarrow> nat option \<Rightarrow> nat option res" where
  "get_typed tp b n name dflt =
     rbind (get_child b n name) (\<lambda>c.
       Inr (case c of None \<Rightarrow> dflt | Some m \<Rightarrow> if get_type b m \<noteq> tp then dflt else Some m))"

definition get_dir :: "build \<Rightarrow> nat \<Rightarrow> string \<Rightarrow> nat option \<Rightarrow> nat option res" where "get_dir = get_typed DIR"
definition get_file :: "build \<Rightarrow> nat \<Rightarrow> string \<Rightarrow> nat option \<Rightarrow> nat option res" where "get_file = get_typed FILE"
definition get_build :: "build \<Rightarrow> nat \<Rightarrow> string \<Rightarrow> nat option \<Rightarrow> nat option res" where "get_build = get_typed BUILD"

subsection \<open>Ancestors\<close>

function height :: "build \<Rightarrow> nat \<Rightarrow> nat" where
  "height b n = (case n_parent (nd b n) of None \<Rightarrow> 0 | Some p \<Rightarrow> if p < n then Suc (height b p) else 0)"
  by pat_completeness auto
termination by (relation "measure snd") auto

declare height.simps [simp del]

text \<open>\<open>k\<close> steps up; the root has no parent to follow.\<close>

fun up :: "build \<Rightarrow> nat \<Rightarrow> nat \<Rightarrow> nat res" where
  "up b 0 n = Inr n"
| "up b (Suc k) n = (case n_parent (nd b n) of None \<Rightarrow> Inl AttributeError | Some p \<Rightarrow> up b k p)"

fun names_up :: "build \<Rightarrow> nat \<Rightarrow> nat \<Rightarrow> string list res" where
  "names_up b 0 n = Inr []"
| "names_up b (Suc k) n =
     (case n_parent (nd b n) of
        None \<Rightarrow> (if k = 0 then Inr [n_name (nd b n)] else Inl AttributeError)
      | Some p \<Rightarrow> rbind (names_up b k p) (\<lambda>ns. Inr (n_name (nd b n) # ns)))"

text \<open>\<open>os.path.join\<close>.\<close>

definition path_join2 :: "string \<Rightarrow> string \<Rightarrow> string" where
  "path_join2 a c =
     (if py_startswith c ''/'' then c
      else if a = [] \<or> last a = CHR ''/'' then a @ c
      else a @ ''/'' @ c)"

fun path_join :: "string list \<Rightarrow> string" where
  "path_join [] = []"
| "path_join (x # xs) = foldl path_join2 x xs"

definition path_to_parent :: "build \<Rightarrow> nat \<Rightarrow> nat \<Rightarrow> string res" where
  "path_to_parent b n par =
     rbind (names_up b (height b n - height b par) n) (\<lambda>lst. Inr (path_join (rev lst)))"

text \<open>The loop of \<open>find_ancestor\<close>; the cursor may run out of parents.\<close>

function common_up :: "build \<Rightarrow> nat \<Rightarrow> nat option \<Rightarrow> nat option res" where
  "common_up b cand cursor =
     (case n_parent (nd b cand) of
        None \<Rightarrow> Inr None
      | Some p \<Rightarrow>
          (case cursor of
             None \<Rightarrow> Inl AttributeError
           | Some c \<Rightarrow>
               if n_parent (nd b c) = Some p then Inr (Some p)
               else if p < cand then common_up b p (n_parent (nd b c)) else Inl RecursionError))"
  by pat_completeness auto
termination by (relation "measure (\<lambda>(b, n, c). n)") auto

declare common_up.simps [simp del]

text \<open>\<open>find_ancestor\<close>: the deeper node climbs to the height of the other one, then both climb.\<close>

definition ancestor_from :: "build \<Rightarrow> nat \<Rightarrow> nat \<Rightarrow> nat option res" where
  "ancestor_from b n m =
     rbind (up b (height b n - height b m) n) (\<lambda>cand.
       if cand = m then Inr (Some cand) else common_up b cand (Some m))"

definition find_ancestor :: "build \<Rightarrow> nat \<Rightarrow> nat \<Rightarrow> nat option res" where
  "find_ancestor b n m = (if height b n < height b m then ancestor_from b m n else ancestor_from b n m)"

text \<open>The two loops of \<open>relpath_gen\<close>: up to the node with the id of the ancestor.\<close>

function climb :: "build \<Rightarrow> nat \<Rightarrow> nat \<Rightarrow> nat list res" where
  "climb b aid n =
     (if n_id (nd b n) = aid then Inr []
      else case n_parent (nd b n) of
             None \<Rightarrow> Inl AttributeError
           | Some p \<Rightarrow> if p < n then rbind (climb b aid p) (\<lambda>ns. Inr (n # ns)) else Inl RecursionError)"
  by pat_completeness auto
termination by (relation "measure (\<lambda>(b, a, n). n)") auto

declare climb.simps [simp del]

definition relpath_gen :: "build \<Rightarrow> nat \<Rightarrow> nat \<Rightarrow> string res" where
  "relpath_gen b n from_node =
     (if n = from_node then Inr ''.''
      else if n_parent (nd b from_node) = Some n then Inr ''..''
      else rbind (find_ancestor b n from_node) (\<lambda>anc.
        case anc of
          None \<Rightarrow> Inl AttributeError
        | Some a \<Rightarrow>
            rbind (climb b (n_id (nd b a)) n) (\<lambda>down.
              rbind (climb b (n_id (nd b a)) from_node) (\<lambda>ups.
                Inr (py_join ''/'' (rev (map (\<lambda>x. n_name (nd b x)) down @ map (\<lambda>x. ''..'') ups)))))))"

definition is_child_of :: "build \<Rightarrow> nat \<Rightarrow> nat \<Rightarrow> bool res" where
  "is_child_of b n m =
     rbind (up b (height b n - height b m) n) (\<lambda>p. Inr (n_id (nd b p) = n_id (nd b m)))"

subsection \<open>Names\<close>

text \<open>\<open>rfind\<close>, with \<open>None\<close> for -1.\<close>

fun rfind :: "char \<Rightarrow> string \<Rightarrow> nat option" where
  "rfind c [] = None"
| "rfind c (x # xs) = (case rfind c xs of Some k \<Rightarrow> Some (Suc k) | None \<Rightarrow> if x = c then Some 0 else None)"

text \<open>\<open>os.path.splitext\<close>: the last dot behind the last slash, unless only dots precede it there.\<close>

definition splitext :: "string \<Rightarrow> string \<times> string" where
  "splitext s =
     (let base = (case rfind CHR ''/'' s of None \<Rightarrow> 0 | Some k \<Rightarrow> Suc k) in
      case rfind CHR ''.'' s of
        None \<Rightarrow> (s, [])
      | Some k \<Rightarrow> if base \<le> k \<and> (\<exists>c \<in> set (drop base (take k s)). c \<noteq> CHR ''.'') then (take k s, drop k s) else (s, []))"

definition file_base :: "build \<Rightarrow> nat \<Rightarrow> string" where
  "file_base b n = fst (splitext (n_name (nd b n)))"

definition suffix :: "build \<Rightarrow> nat \<Rightarrow> string" where
  "suffix b n = (let k = (case rfind CHR ''.'' (n_name (nd b n)) of None \<Rightarrow> 0 | Some k \<Rightarrow> k) in drop k (n_name (nd b n)))"

definition change_ext_name :: "string \<Rightarrow> string \<Rightarrow> string" where
  "change_ext_name name ext = (case rfind CHR ''.'' name of Some k \<Rightarrow> take k name @ ext | None \<Rightarrow> name @ ext)"

definition node_file :: "build \<Rightarrow> nat \<Rightarrow> string" where
  "node_file b n = n_name (nd b n)"

subsection \<open>Absolute paths\<close>

text \<open>\<open>env\<close> is given by its variant. A variant with an empty name counts as none.\<close>

definition node_variant :: "build \<Rightarrow> nat \<Rightarrow> string option \<Rightarrow> variant" where
  "node_variant b n env =
     (case env of
        None \<Rightarrow> Source
      | Some v \<Rightarrow> if get_type b n = FILE then Source else Variant v)"

definition path_variant :: "build \<Rightarrow> nat \<Rightarrow> string option \<Rightarrow> variant" where
  "path_variant b n env =
     (case env of
        None \<Rightarrow> Source
      | Some v \<Rightarrow> if get_type b n \<noteq> FILE \<and> v \<noteq> [] then Variant v else Source)"

definition cached :: "variant \<Rightarrow> nat \<Rightarrow> build \<Rightarrow> string option" where
  "cached v n b =
     (case cache_node_abspath b v (n_id (nd b n)) of
        Some r \<Rightarrow> if r \<noteq> [] then Some r else None
      | None \<Rightarrow> None)"

definition remember :: "variant \<Rightarrow> nat \<Rightarrow> string \<Rightarrow> build \<Rightarrow> build" where
  "remember v n r b =
     b\<lparr>cache_node_abspath := (cache_node_abspath b)(v := (cache_node_abspath b v)(n_id (nd b n) := Some r))\<rparr>"

text \<open>\<open>abspath\<close> without an environment.\<close>

function abspath_src :: "nat \<Rightarrow> build \<Rightarrow> string \<times> build" where
  "abspath_src n b =
     (case cached Source n b of
        Some r \<Rightarrow> (r, b)
      | None \<Rightarrow>
          let (r, b') =
            (case n_parent (nd b n) of
               None \<Rightarrow> (''/'', b)
             | Some p \<Rightarrow>
                 if n_name (nd b p) = [] then (''/'' @ n_name (nd b n), b)
                 else if p < n then
                   (case abspath_src p b of (r, b') \<Rightarrow> (r @ ''/'' @ n_name (nd b n), b'))
                 else ([], b))
          in (r, remember Source n r b'))"
  by pat_completeness auto
termination by (relation "measure fst") auto

declare abspath_src.simps [simp del]

definition abspath :: "string option \<Rightarrow> nat \<Rightarrow> build \<Rightarrow> (string \<times> build) res" where
  "abspath env n b =
     (case path_variant b n env of
        Source \<Rightarrow> Inr (abspath_src n b)
      | Variant v \<Rightarrow>
          (case cached (Variant v) n b of
             Some r \<Rightarrow> Inr (r, b)
           | None \<Rightarrow>
               let (bp, b') = abspath_src (bldnode b) b in
               rbind (path_to_parent b' n (srcnode b')) (\<lambda>rel.
                 let r = py_join ''/'' [bp, v, rel] in Inr (r, remember (Variant v) n r b'))))"

text \<open>The paths seen from the build folder.\<close>

definition bldpath :: "string \<Rightarrow> build \<Rightarrow> nat \<Rightarrow> string res" where
  "bldpath v b n =
     (if get_type b n = FILE then relpath_gen b n (bldnode b)
      else rbind (path_to_parent b n (srcnode b)) (\<lambda>p.
        if p \<noteq> [] then Inr (v @ ''/'' @ p) else Inr v))"

definition srcpath :: "string \<Rightarrow> build \<Rightarrow> nat \<Rightarrow> string res" where
  "srcpath v b n = (if get_type b n = BUILD then bldpath v b n else relpath_gen b n (bldnode b))"

definition with_parent :: "build \<Rightarrow> nat \<Rightarrow> (nat \<Rightarrow> 'a res) \<Rightarrow> 'a res" where
  "with_parent b n f = (case n_parent (nd b n) of None \<Rightarrow> Inl AttributeError | Some p \<Rightarrow> f p)"

definition src_dir :: "string \<Rightarrow> build \<Rightarrow> nat \<Rightarrow> string res" where
  "src_dir v b n = with_parent b n (srcpath v b)"

definition bld_dir :: "string \<Rightarrow> build \<Rightarrow> nat \<Rightarrow> string res" where
  "bld_dir v b n = with_parent b n (bldpath v b)"

definition bld_base :: "string \<Rightarrow> build \<Rightarrow> nat \<Rightarrow> string res" where
  "bld_base v b n = rbind (bld_dir v b n) (\<lambda>d. Inr (path_join [d, file_base b n]))"

definition node_dir :: "string option \<Rightarrow> nat \<Rightarrow> build \<Rightarrow> (string \<times> build) res" where
  "node_dir env n b = with_parent b n (\<lambda>p. abspath env p b)"

definition nice_path :: "string \<Rightarrow> nat \<Rightarrow> build \<Rightarrow> nat \<Rightarrow> string res" where
  "nice_path v launch b n =
     (if get_type b n = FILE then relpath_gen b n launch
      else rbind (relpath_gen b (bldnode b) launch) (\<lambda>d.
        rbind (relpath_gen b n (srcnode b)) (\<lambda>r. Inr (path_join [d, v, r]))))"

subsection \<open>Well-formed trees\<close>

definition wf_tree :: "build \<Rightarrow> bool" where
  "wf_tree b \<longleftrightarrow>
     (\<forall>n < length (b_nodes b).
        (case n_parent (nd b n) of None \<Rightarrow> n = root b | Some p \<Rightarrow> p < n \<and> n_childs (nd b p) \<noteq> None) \<and>
        n_id (nd b n) < id_nodes b + 4 \<and> (get_type b n = DIR \<longleftrightarrow> n_childs (nd b n) \<noteq> None) \<and>
        (\<forall>cs. n_childs (nd b n) = Some cs \<longrightarrow> distinct (map fst cs) \<and>
           (\<forall>(name, c) \<in> set cs. c < length (b_nodes b) \<and> n_name (nd b c) = name \<and> n_parent (nd b c) = Some n))) \<and>
     (\<forall>m < length (b_nodes b). \<forall>n < length (b_nodes b). n_id (nd b m) = n_id (nd b n) \<longrightarrow> m = n) \<and>
     id_nodes b mod 4 = 0 \<and> root b < length (b_nodes b) \<and> n_parent (nd b (root b)) = None"

text \<open>A node and its ancestors, up to the root.\<close>

function ancs :: "build \<Rightarrow> nat \<Rightarrow> nat list" where
  "ancs b n = n # (case n_parent (nd b n) of None \<Rightarrow> [] | Some p \<Rightarrow> if p < n then ancs b p else [])"
  by pat_completeness auto
termination by (relation "measure snd") auto

declare ancs.simps [simp del]

lemma wf_parent:
  assumes "wf_tree b" "n < length (b_nodes b)" "n_parent (nd b n) = Some p"
  shows "p < n" "p < length (b_nodes b)" "ancs b n = n # ancs b p" "height b n = Suc (height b p)"
proof -
  have "case n_parent (nd b n) of None \<Rightarrow> n = root b | Some p \<Rightarrow> p < n \<and> n_childs (nd b p) \<noteq> None"
    using assms(1,2) unfolding wf_tree_def by blast
  then show p: "p < n" using assms(3) by simp
  then show "p < length (b_nodes b)" "ancs b n = n # ancs b p" "height b n = Suc (height b p)"
    using assms(2,3) by (simp_all add: ancs.simps [of b n] height.simps [of b n])
qed

lemma wf_root:
  assumes "wf_tree b" "n < length (b_nodes b)" "n_parent (nd b n) = None"
  shows "n = root b" "ancs b n = [n]" "height b n = 0"
proof -
  have "case n_parent (nd b n) of None \<Rightarrow> n = root b | Some p \<Rightarrow> p < n \<and> n_childs (nd b p) \<noteq> None"
    using assms(1,2) unfolding wf_tree_def by blast
  then show "n = root b" using assms(3) by simp
  show "ancs b n = [n]" "height b n = 0"
    using assms(3) by (simp_all add: ancs.simps [of b n] height.simps [of b n])
qed

lemma wf_ids:
  assumes "wf_tree b" "m < length (b_nodes b)" "n < length (b_nodes b)"
  shows "n_id (nd b m) = n_id (nd b n) \<longleftrightarrow> m = n"
  using assms unfolding wf_tree_def by blast

lemma tree_induct [consumes 2, case_names root child]:
  assumes "wf_tree b" "n < length (b_nodes b)"
    and "\<And>n. n < length (b_nodes b) \<Longrightarrow> n_parent (nd b n) = None \<Longrightarrow> Q n"
    and "\<And>n p. n < length (b_nodes b) \<Longrightarrow> n_parent (nd b n) = Some p \<Longrightarrow> Q p \<Longrightarrow> Q n"
  shows "Q n"
  using assms(2)
proof (induction n rule: less_induct)
  case (less n)
  show ?case
  proof (cases "n_parent (nd b n)")
    case (Some p)
    then show ?thesis using less wf_parent [OF assms(1) less.prems Some] assms(4) by auto
  qed (use less assms(3) in auto)
qed

lemma ancs_below:
  assumes "wf_tree b" "n < length (b_nodes b)" "a \<in> set (ancs b n)"
  shows "a < length (b_nodes b)"
  using assms
proof (induction n rule: tree_induct)
  case (root n)
  then show ?case using wf_root(2) [OF assms(1) root(1,2)] by simp
next
  case (child n p)
  then show ?case using wf_parent(3) [OF assms(1) child(1,2)] by auto
qed

lemma ancs_self [simp]: "n \<in> set (ancs b n)"
  by (simp add: ancs.simps [of b n])

lemma ancs_le: "a \<in> set (ancs b n) \<Longrightarrow> a \<le> n"
proof (induction n rule: less_induct)
  case (less n)
  then show ?case
    by (subst (asm) (2) ancs.simps) (auto split: option.splits if_splits intro: order_trans less_imp_le)
qed

lemma ancs_sub: "a \<in> set (ancs b n) \<Longrightarrow> set (ancs b a) \<subseteq> set (ancs b n)"
proof (induction n rule: less_induct)
  case (less n)
  show ?case
  proof (cases "a = n")
    case False
    then obtain p where p: "n_parent (nd b n) = Some p" "p < n" "a \<in> set (ancs b p)"
      using less.prems by (cases "n_parent (nd b n)") (auto simp: ancs.simps [of b n] split: if_splits)
    then show ?thesis using less.IH [OF p(2,3)] by (simp add: ancs.simps [of b n] subset_insertI2)
  qed simp
qed

text \<open>Climbing by the difference of the heights stays among the ancestors.\<close>

lemma up_ancs:
  "wf_tree b \<Longrightarrow> n < length (b_nodes b) \<Longrightarrow> k \<le> height b n \<Longrightarrow>
   \<exists>a \<in> set (ancs b n). up b k n = Inr a \<and> height b a = height b n - k"
proof (induction k arbitrary: n)
  case (Suc k)
  obtain p where p: "n_parent (nd b n) = Some p"
    using Suc.prems wf_root(3) [of b n] by (cases "n_parent (nd b n)") auto
  note w = wf_parent [OF Suc.prems(1,2) p]
  have "k \<le> height b p" using Suc.prems(3) w(4) by simp
  from Suc.IH [OF Suc.prems(1) w(2) this] show ?case using p w by auto
qed simp

lemma common_up_correct:
  assumes "wf_tree b" "cand < length (b_nodes b)" "c < length (b_nodes b)" "height b cand = height b c" "cand \<noteq> c"
  shows "\<exists>a. common_up b cand (Some c) = Inr (Some a) \<and> a \<in> set (ancs b cand) \<and> a \<in> set (ancs b c)"
  using assms(2-5)
proof (induction cand arbitrary: c rule: less_induct)
  case (less cand)
  obtain p where p: "n_parent (nd b cand) = Some p"
    using less.prems wf_root [OF assms(1), of cand] wf_root [OF assms(1), of c] wf_parent(4) [OF assms(1), of c]
    by (cases "n_parent (nd b cand)"; cases "n_parent (nd b c)") auto
  note w = wf_parent [OF assms(1) less.prems(1) p]
  obtain q where q: "n_parent (nd b c) = Some q"
    using less.prems(3) w(4) wf_root(3) [OF assms(1) less.prems(2)] by (cases "n_parent (nd b c)") auto
  note v = wf_parent [OF assms(1) less.prems(2) q]
  show ?case
  proof (cases "p = q")
    case True
    then show ?thesis using p q w v by (subst common_up.simps) auto
  next
    case False
    have "height b p = height b q" using less.prems(3) w(4) v(4) by simp
    from less.IH [OF w(1,2) v(2) this False] show ?thesis
      using p q w v False by (subst common_up.simps) auto
  qed
qed

lemma ancestor_from_correct:
  assumes "wf_tree b" "n < length (b_nodes b)" "m < length (b_nodes b)" "height b m \<le> height b n"
  shows "\<exists>a. ancestor_from b n m = Inr (Some a) \<and> a \<in> set (ancs b n) \<and> a \<in> set (ancs b m)"
proof -
  obtain c where c: "c \<in> set (ancs b n)" "up b (height b n - height b m) n = Inr c" "height b c = height b m"
    using up_ancs [OF assms(1,2), of "height b n - height b m"] assms(4) by auto
  have l: "c < length (b_nodes b)" by (rule ancs_below [OF assms(1,2) c(1)])
  have sub: "set (ancs b c) \<subseteq> set (ancs b n)" by (rule ancs_sub [OF c(1)])
  show ?thesis
  proof (cases "c = m")
    case True
    then show ?thesis using c by (auto simp: ancestor_from_def)
  next
    case False
    from common_up_correct [OF assms(1) l assms(3) c(3) False] show ?thesis
      using c(2) False sub by (auto simp: ancestor_from_def)
  qed
qed

lemma find_ancestor_correct:
  assumes "wf_tree b" "n < length (b_nodes b)" "m < length (b_nodes b)"
  shows "\<exists>a. find_ancestor b n m = Inr (Some a) \<and> a \<in> set (ancs b n) \<and> a \<in> set (ancs b m)"
  using ancestor_from_correct [OF assms] ancestor_from_correct [OF assms(1,3,2)]
  by (auto simp: find_ancestor_def)

lemma climb_ancs:
  assumes "wf_tree b" "n < length (b_nodes b)" "a \<in> set (ancs b n)"
  shows "climb b (n_id (nd b a)) n = Inr (takeWhile (\<lambda>x. x \<noteq> a) (ancs b n))"
  using assms
proof (induction n rule: tree_induct)
  case (root n)
  then show ?case using wf_root(2) [OF assms(1) root(1,2)] by (subst climb.simps) auto
next
  case (child n p)
  note w = wf_parent [OF assms(1) child(1,2)]
  have "a < length (b_nodes b)" using ancs_below assms(1) child(1,4) by blast
  then have i: "n_id (nd b n) = n_id (nd b a) \<longleftrightarrow> n = a" using wf_ids [OF assms(1) child(1)] by simp
  show ?case
  proof (cases "n = a")
    case True
    then show ?thesis using w by (subst climb.simps) simp
  next
    case False
    then show ?thesis using w i child by (subst climb.simps) auto
  qed
qed

subsection \<open>Relative paths\<close>

text \<open>What a relative path means: the node it leads to, over parents and children.\<close>

fun walk :: "build \<Rightarrow> nat \<Rightarrow> string list \<Rightarrow> nat option" where
  "walk b n [] = Some n"
| "walk b n (x # xs) =
     (if x = '''' \<or> x = ''.'' then walk b n xs
      else if x = ''..'' then walk b (case n_parent (nd b n) of None \<Rightarrow> n | Some p \<Rightarrow> p) xs
      else (case n_childs (nd b n) of
              None \<Rightarrow> None
            | Some cs \<Rightarrow> (case map_of cs x of None \<Rightarrow> None | Some c \<Rightarrow> walk b c xs)))"

lemma walk_append: "walk b n (xs @ ys) = (case walk b n xs of None \<Rightarrow> None | Some m \<Rightarrow> walk b m ys)"
  by (induction b n xs rule: walk.induct) (auto split: option.split)

definition attached :: "build \<Rightarrow> nat \<Rightarrow> bool" where
  "attached b n \<longleftrightarrow>
     (\<forall>a \<in> set (ancs b n). \<forall>p. n_parent (nd b a) = Some p \<longrightarrow>
        (\<exists>cs. n_childs (nd b p) = Some cs \<and> map_of cs (n_name (nd b a)) = Some a))"

definition plain_name :: "string \<Rightarrow> bool" where
  "plain_name s \<longleftrightarrow> s \<notin> {'''', ''.'', ''..''} \<and> CHR ''/'' \<notin> set s"

definition plain_names :: "build \<Rightarrow> nat \<Rightarrow> bool" where
  "plain_names b n \<longleftrightarrow> (\<forall>a \<in> set (ancs b n). n_parent (nd b a) \<noteq> None \<longrightarrow> plain_name (n_name (nd b a)))"

lemma walk_down:
  assumes "wf_tree b" "n < length (b_nodes b)" "attached b n" "plain_names b n" "a \<in> set (ancs b n)"
  shows "walk b a (rev (map (\<lambda>x. n_name (nd b x)) (takeWhile (\<lambda>x. x \<noteq> a) (ancs b n)))) = Some n"
  using assms
proof (induction n rule: tree_induct)
  case (root n)
  then show ?case using wf_root(2) [OF assms(1) root(1,2)] by simp
next
  case (child n p)
  note w = wf_parent [OF assms(1) child(1,2)]
  show ?case
  proof (cases "n = a")
    case False
    then have "a \<in> set (ancs b p)" "attached b p" "plain_names b p"
      using child w by (auto simp: attached_def plain_names_def)
    then have ih: "walk b a (rev (map (\<lambda>x. n_name (nd b x)) (takeWhile (\<lambda>x. x \<noteq> a) (ancs b p)))) = Some p"
      using child by simp
    have pn: "plain_name (n_name (nd b n))" using child(2,5) by (auto simp: plain_names_def)
    obtain cs where cs: "n_childs (nd b p) = Some cs" "map_of cs (n_name (nd b n)) = Some n"
      using child(2,4) ancs_self [of n b] unfolding attached_def by blast
    show ?thesis using False ih pn cs w(3) by (simp add: walk_append plain_name_def)
  qed (use w in simp)
qed

lemma walk_up:
  assumes "wf_tree b" "m < length (b_nodes b)" "a \<in> set (ancs b m)"
  shows "walk b m (map (\<lambda>x. ''..'') (takeWhile (\<lambda>x. x \<noteq> a) (ancs b m))) = Some a"
  using assms
proof (induction m rule: tree_induct)
  case (root n)
  then show ?case using wf_root(2) [OF assms(1) root(1,2)] by simp
next
  case (child n p)
  then show ?case using wf_parent(3) [OF assms(1) child(1,2)] by auto
qed

lemma below_ancestor:
  assumes "wf_tree b" "n < length (b_nodes b)" "a \<in> set (ancs b n)" "y \<in> set (takeWhile (\<lambda>x. x \<noteq> a) (ancs b n))"
  shows "n_parent (nd b y) \<noteq> None"
  using assms
proof (induction n rule: tree_induct)
  case (root n)
  then show ?case using wf_root(2) [OF assms(1) root(1,2)] by simp
next
  case (child n p)
  then show ?case using wf_parent(3) [OF assms(1) child(1,2)] by (auto split: if_splits)
qed

lemma split_join:
  assumes "xs \<noteq> []" "\<And>x. x \<in> set xs \<Longrightarrow> CHR ''/'' \<notin> set x"
  shows "py_split CHR ''/'' (py_join ''/'' xs) = xs"
proof -
  have one: "CHR ''/'' \<notin> set x \<Longrightarrow> py_split CHR ''/'' x = [x]" for x
    by (induction x) auto
  have app: "CHR ''/'' \<notin> set x \<Longrightarrow> py_split CHR ''/'' (x @ ''/'' @ y) = x # py_split CHR ''/'' y" for x y
    by (induction x) auto
  show ?thesis using assms
  proof (induction "''/''" xs rule: py_join.induct)
    case (2 x)
    then show ?case by (simp add: one)
  next
    case (3 x y ys)
    then show ?case using app [of x "py_join ''/'' (y # ys)"] by simp
  qed simp
qed

text \<open>C11: the relative path between two nodes leads from the one to the other: read from the second node, as
  parents and names of children, it ends at the first one.\<close>

theorem relpath_gen_resolves:
  assumes "wf_tree b" "n < length (b_nodes b)" "m < length (b_nodes b)" "attached b n" "plain_names b n"
  shows "\<exists>s. relpath_gen b n m = Inr s \<and> walk b m (py_split CHR ''/'' s) = Some n"
proof -
  consider (same) "n = m" | (par) "n \<noteq> m" "n_parent (nd b m) = Some n" | (other) "n \<noteq> m" "n_parent (nd b m) \<noteq> Some n"
    by blast
  then show ?thesis
  proof cases
    case same
    then show ?thesis by (simp add: relpath_gen_def)
  next
    case par
    then show ?thesis by (simp add: relpath_gen_def)
  next
    case other
    obtain a where a: "find_ancestor b n m = Inr (Some a)" "a \<in> set (ancs b n)" "a \<in> set (ancs b m)"
      using find_ancestor_correct [OF assms(1-3)] by blast
    let ?down = "takeWhile (\<lambda>x. x \<noteq> a) (ancs b n)" and ?ups = "takeWhile (\<lambda>x. x \<noteq> a) (ancs b m)"
    let ?xs = "map (\<lambda>x. ''..'') ?ups @ rev (map (\<lambda>x. n_name (nd b x)) ?down)"
    have r: "rev (map (\<lambda>x. n_name (nd b x)) ?down @ map (\<lambda>x. ''..'') ?ups) = ?xs"
      by (simp add: map_replicate_const)
    have e: "relpath_gen b n m = Inr (py_join ''/'' ?xs)"
      using other a climb_ancs [OF assms(1,2) a(2)] climb_ancs [OF assms(1,3) a(3)] r
      by (simp add: relpath_gen_def)
    have "?xs \<noteq> []"
    proof
      assume "?xs = []"
      then have "?down = []" "?ups = []" by auto
      then have "hd (ancs b n) = a" "hd (ancs b m) = a"
        by (auto simp: ancs.simps [of b n] ancs.simps [of b m] split: if_splits)
      then show False using other(1) by (simp add: ancs.simps [of b n] ancs.simps [of b m])
    qed
    moreover have "CHR ''/'' \<notin> set x" if "x \<in> set ?xs" for x
      using that below_ancestor [OF assms(1,2) a(2)] assms(5) set_takeWhileD
      by (fastforce simp: plain_names_def plain_name_def)
    ultimately have "py_split CHR ''/'' (py_join ''/'' ?xs) = ?xs" by (rule split_join)
    moreover have "walk b m ?xs = Some n"
      using walk_up [OF assms(1,3) a(3)] walk_down [OF assms(1,2,4,5) a(2)] by (simp add: walk_append)
    ultimately show ?thesis using e by simp
  qed
qed

subsection \<open>The cache of absolute paths\<close>

text \<open>The paths, computed each time.\<close>

function src_path :: "build \<Rightarrow> nat \<Rightarrow> string" where
  "src_path b n =
     (case n_parent (nd b n) of
        None \<Rightarrow> ''/''
      | Some p \<Rightarrow>
          if n_name (nd b p) = [] then ''/'' @ n_name (nd b n)
          else if p < n then src_path b p @ ''/'' @ n_name (nd b n)
          else [])"
  by pat_completeness auto
termination by (relation "measure snd") auto

declare src_path.simps [simp del]

definition bld_path :: "build \<Rightarrow> string \<Rightarrow> nat \<Rightarrow> string res" where
  "bld_path b v n =
     rbind (path_to_parent b n (srcnode b)) (\<lambda>rel. Inr (py_join ''/'' [src_path b (bldnode b), v, rel]))"

definition node_path :: "build \<Rightarrow> variant \<Rightarrow> nat \<Rightarrow> string res" where
  "node_path b v n = (case v of Source \<Rightarrow> Inr (src_path b n) | Variant x \<Rightarrow> bld_path b x n)"

definition cache_ok :: "build \<Rightarrow> bool" where
  "cache_ok b \<longleftrightarrow>
     (\<forall>n < length (b_nodes b). \<forall>v r. cached v n b = Some r \<longrightarrow> node_path b v n = Inr r)"

text \<open>Two build contexts that differ in the cache only.\<close>

definition same_tree :: "build \<Rightarrow> build \<Rightarrow> bool" where
  "same_tree b b' \<longleftrightarrow> (\<exists>c. b' = b\<lparr>cache_node_abspath := c\<rparr>)"

lemma same_tree_fields:
  assumes "same_tree b b'"
  shows "b_nodes b' = b_nodes b" "srcnode b' = srcnode b" "bldnode b' = bldnode b"
    "path_to_parent b' = path_to_parent b" "src_path b' = src_path b" "node_path b' = node_path b" "wf_tree b' = wf_tree b"
proof -
  obtain c where c: "b' = b\<lparr>cache_node_abspath := c\<rparr>" using assms by (auto simp: same_tree_def)
  show n: "b_nodes b' = b_nodes b" and s: "srcnode b' = srcnode b" and l: "bldnode b' = bldnode b" using c by simp_all
  have h: "height b' n = height b n" for n
  proof (induction n rule: less_induct)
    case (less n)
    then show ?case using n by (simp add: height.simps [of b n] height.simps [of b' n] split: option.split)
  qed
  have u: "names_up b' k n = names_up b k n" for k n
    using n by (induction k arbitrary: n) (auto split: option.split)
  show p: "path_to_parent b' = path_to_parent b" by (simp add: fun_eq_iff path_to_parent_def h u)
  have "src_path b' n = src_path b n" for n
  proof (induction n rule: less_induct)
    case (less n)
    then show ?case using \<open>b_nodes b' = b_nodes b\<close> by (simp add: src_path.simps [of b n] src_path.simps [of b' n] split: option.split)
  qed
  then show sp: "src_path b' = src_path b" by (simp add: fun_eq_iff)
  show "node_path b' = node_path b" by (simp add: fun_eq_iff node_path_def bld_path_def p sp s l split: variant.split)
  have "root b' = root b" "id_nodes b' = id_nodes b" using c by simp_all
  then show "wf_tree b' = wf_tree b" by (simp only: wf_tree_def get_type_def n)
qed

lemma same_refl [simp]: "same_tree b b"
  by (auto simp: same_tree_def intro: exI [of _ "cache_node_abspath b"])

lemma same_trans: "same_tree a b \<Longrightarrow> same_tree b c \<Longrightarrow> same_tree a c"
  by (auto simp: same_tree_def)

lemma remember_spec:
  assumes "wf_tree b" "cache_ok b" "n < length (b_nodes b)" "node_path b v n = Inr r"
  shows "cache_ok (remember v n r b)" "same_tree b (remember v n r b)"
proof -
  show s: "same_tree b (remember v n r b)" by (auto simp: same_tree_def remember_def)
  have np: "node_path (remember v n r b) = node_path b" using same_tree_fields [OF s] by simp
  have "node_path b u m = Inr q" if "m < length (b_nodes b)" "cached u m (remember v n r b) = Some q" for u m q
  proof (cases "u = v \<and> m = n")
    case True
    then show ?thesis using that assms(4) by (auto simp: cached_def remember_def split: if_splits)
  next
    case False
    then have "cached u m b = Some q"
      using that wf_ids [OF assms(1) that(1) assms(3)] by (auto simp: cached_def remember_def split: if_splits)
    then show ?thesis using assms(2) that(1) by (auto simp: cache_ok_def)
  qed
  then show "cache_ok (remember v n r b)" using same_tree_fields(1) [OF s] np by (simp add: cache_ok_def)
qed

lemma abspath_src_correct:
  assumes "wf_tree b" "cache_ok b" "n < length (b_nodes b)"
  shows "fst (abspath_src n b) = src_path b n \<and> same_tree b (snd (abspath_src n b)) \<and> cache_ok (snd (abspath_src n b))"
  using assms
proof (induction n arbitrary: b rule: less_induct)
  case (less n)
  show ?case
  proof (cases "cached Source n b")
    case (Some r)
    then have "node_path b Source n = Inr r" using less.prems by (auto simp: cache_ok_def)
    then show ?thesis using Some less.prems(2) by (simp add: abspath_src.simps [of n b] node_path_def)
  next
    case None
    have key: "cache_ok (remember Source n (src_path b n) c)" "same_tree b (remember Source n (src_path b n) c)"
      if "same_tree b c" "cache_ok c" for c
    proof -
      note f = same_tree_fields [OF that(1)]
      have "node_path c Source n = Inr (src_path b n)" using f by (simp add: node_path_def)
      then have "cache_ok (remember Source n (src_path b n) c)" "same_tree c (remember Source n (src_path b n) c)"
        using remember_spec [of c n Source "src_path b n"] less.prems that(2) f by simp_all
      then show "cache_ok (remember Source n (src_path b n) c)" "same_tree b (remember Source n (src_path b n) c)"
        using same_trans [OF that(1)] by simp_all
    qed
    show ?thesis
    proof (cases "n_parent (nd b n)")
      case None
      then have "abspath_src n b = (src_path b n, remember Source n (src_path b n) b)"
        using \<open>cached Source n b = None\<close> by (simp add: abspath_src.simps [of n b] src_path.simps [of b n])
      then show ?thesis using key [of b] less.prems(2) by simp
    next
      case (Some p)
      note w = wf_parent [OF less.prems(1,3) Some]
      show ?thesis
      proof (cases "n_name (nd b p) = []")
        case True
        then have "abspath_src n b = (src_path b n, remember Source n (src_path b n) b)"
          using \<open>cached Source n b = None\<close> Some by (simp add: abspath_src.simps [of n b] src_path.simps [of b n])
        then show ?thesis using key [of b] less.prems(2) by simp
      next
        case False
        obtain r c where rc: "abspath_src p b = (r, c)" by fastforce
        then have ih: "r = src_path b p" "same_tree b c" "cache_ok c"
          using less.IH [OF w(1) less.prems(1,2) w(2)] by auto
        have "abspath_src n b = (src_path b n, remember Source n (src_path b n) c)"
          using \<open>cached Source n b = None\<close> Some False rc ih(1) w(1)
          by (simp add: abspath_src.simps [of n b] src_path.simps [of b n])
        then show ?thesis using key [OF ih(2,3)] by simp
      qed
    qed
  qed
qed

lemma path_to_parent_returns:
  assumes "wf_tree b" "n < length (b_nodes b)"
  shows "\<exists>s. path_to_parent b n m = Inr s"
proof -
  have "k \<le> height b n \<Longrightarrow> \<exists>ns. names_up b k n = Inr ns" for k using assms(2)
  proof (induction k arbitrary: n)
    case (Suc k)
    then obtain p where p: "n_parent (nd b n) = Some p" using wf_root(3) [OF assms(1)] by (cases "n_parent (nd b n)") auto
    then have "k \<le> height b p" "p < length (b_nodes b)" using Suc.prems wf_parent [OF assms(1) _ p] by auto
    then show ?case using Suc.IH p by auto
  qed simp
  then show ?thesis using diff_le_self by (fastforce simp: path_to_parent_def)
qed

text \<open>C12: \<open>abspath\<close>, which remembers every path it has computed, returns what computing the path anew would
  return, for every state of the cache that earlier calls can have left, and leaves such a state.\<close>

theorem abspath_cache_transparent:
  assumes "wf_tree b" "cache_ok b" "n < length (b_nodes b)" "bldnode b < length (b_nodes b)"
  shows "\<exists>r b'. abspath env n b = Inr (r, b') \<and> node_path b (path_variant b n env) n = Inr r \<and>
    cache_ok b' \<and> same_tree b b'"
proof (cases "path_variant b n env")
  case Source
  obtain r b' where r: "abspath_src n b = (r, b')" by fastforce
  then show ?thesis using abspath_src_correct [OF assms(1-3)] Source by (auto simp: abspath_def node_path_def)
next
  case (Variant v)
  show ?thesis
  proof (cases "cached (Variant v) n b")
    case (Some r)
    then show ?thesis using Variant assms(2,3) by (auto simp: abspath_def cache_ok_def)
  next
    case None
    obtain bp c where c: "abspath_src (bldnode b) b = (bp, c)" by fastforce
    then have c': "bp = src_path b (bldnode b)" "same_tree b c" "cache_ok c"
      using abspath_src_correct [OF assms(1,2,4)] by auto
    note f = same_tree_fields [OF c'(2)]
    obtain rel where rel: "path_to_parent b n (srcnode b) = Inr rel" using path_to_parent_returns [OF assms(1,3)] by blast
    let ?r = "py_join ''/'' [bp, v, rel]"
    have np: "node_path c (Variant v) n = Inr ?r" using rel c'(1) f by (simp add: node_path_def bld_path_def)
    have "abspath env n b = Inr (?r, remember (Variant v) n ?r c)"
      using Variant None c rel f by (simp add: abspath_def Let_def)
    moreover have "cache_ok (remember (Variant v) n ?r c)" "same_tree c (remember (Variant v) n ?r c)"
      using remember_spec [of c n "Variant v" ?r] assms(1,3) c'(3) f np by simp_all
    ultimately show ?thesis using Variant np f same_trans [OF c'(2)] by auto
  qed
qed

text \<open>A small tree for the examples: the folders \<open>/src\<close> and \<open>/build\<close> and the file \<open>/src/main.c\<close>.\<close>

definition demo_build :: build where
  "demo_build =
     \<lparr>b_nodes =
        [\<lparr>n_name = [], n_parent = None, n_id = 5, n_childs = Some [(''src'', 1), (''build'', 2)]\<rparr>,
         \<lparr>n_name = ''src'', n_parent = Some 0, n_id = 9, n_childs = Some [(''main.c'', 3)]\<rparr>,
         \<lparr>n_name = ''build'', n_parent = Some 0, n_id = 13, n_childs = Some []\<rparr>,
         \<lparr>n_name = ''main.c'', n_parent = Some 1, n_id = 18, n_childs = None\<rparr>],
      id_nodes = 16, cache_scanned_folders = [], cache_dir_contents = [], node_sigs = (\<lambda>v i. None),
      cache_node_abspath = (\<lambda>v i. None), root = 0, srcnode = 1, bldnode = 2, lst_variants = [''default''], made_dirs = []\<rparr>"

lemma demo_nodes:
  "b_nodes demo_build =
     [\<lparr>n_name = [], n_parent = None, n_id = 5, n_childs = Some [(''src'', 1), (''build'', 2)]\<rparr>,
      \<lparr>n_name = ''src'', n_parent = Some 0, n_id = 9, n_childs = Some [(''main.c'', 3)]\<rparr>,
      \<lparr>n_name = ''build'', n_parent = Some 0, n_id = 13, n_childs = Some []\<rparr>,
      \<lparr>n_name = ''main.c'', n_parent = Some 1, n_id = 18, n_childs = None\<rparr>]"
  by (simp add: demo_build_def)

lemma demo_fields: "root demo_build = 0" "id_nodes demo_build = 16"
  by (simp_all add: demo_build_def)

lemma demo_wf: "wf_tree demo_build"
  by (simp add: wf_tree_def demo_nodes demo_fields All_less_Suc get_type_def DIR_def)

lemma demo_ancs: "ancs demo_build 3 = [3, 1, 0]" "ancs demo_build 2 = [2, 0]"
  by (simp_all add: ancs.simps demo_nodes)

theorem relpath_gen_resolves_witness:
  "relpath_gen demo_build 3 2 = Inr ''../src/main.c'' \<and> walk demo_build 2 [''..'', ''src'', ''main.c''] = Some 3"
proof -
  have "attached demo_build 3" "plain_names demo_build 3"
    by (auto simp: attached_def plain_names_def plain_name_def demo_ancs demo_nodes)
  then have "\<exists>s. relpath_gen demo_build 3 2 = Inr s \<and> walk demo_build 2 (py_split CHR ''/'' s) = Some 3"
    by (intro relpath_gen_resolves [OF demo_wf]) (simp_all add: demo_nodes)
  moreover have "relpath_gen demo_build 3 2 = Inr ''../src/main.c''" by code_simp
  ultimately show ?thesis by simp
qed

theorem abspath_cache_transparent_witness:
  "\<exists>b'. abspath (Some ''default'') 1 demo_build = Inr (''/build/default/'', b') \<and> cache_ok b'"
proof -
  have "cache_ok demo_build" by (simp add: cache_ok_def cached_def demo_build_def)
  then have "\<exists>r b'. abspath (Some ''default'') 1 demo_build = Inr (r, b') \<and>
      node_path demo_build (path_variant demo_build 1 (Some ''default'')) 1 = Inr r \<and> cache_ok b' \<and> same_tree demo_build b'"
    by (intro abspath_cache_transparent [OF demo_wf]) (simp_all add: demo_build_def)
  moreover have "node_path demo_build (path_variant demo_build 1 (Some ''default'')) 1 = Inr ''/build/default/''"
    by code_simp
  ultimately show ?thesis by auto
qed

subsection \<open>Defects\<close>

text \<open>\<open>set_type\<close> replaces the id by the type alone: two nodes of the same type get the same id.\<close>

lemma set_type_loses_id: "n < length (b_nodes b) \<Longrightarrow> t < 4 \<Longrightarrow> n_id (nd (set_type n t b) n) = t"
  by (simp add: set_type_def set_node_def)

text \<open>The suffix of a name without a dot is the whole name.\<close>

lemma suffix_without_dot: "rfind CHR ''.'' (n_name (nd b n)) = None \<Longrightarrow> suffix b n = n_name (nd b n)"
  by (simp add: suffix_def)

text \<open>Otherwise name and suffix fit together.\<close>

lemma rfind_Some: "rfind c s = Some k \<Longrightarrow> k < length s \<and> s ! k = c \<and> (\<forall>j. k < j \<and> j < length s \<longrightarrow> s ! j \<noteq> c)"
proof (induction s arbitrary: k)
  case (Cons x xs)
  show ?case
  proof (cases "rfind c xs")
    case None
    then have "c \<notin> set xs"
      by (induction xs) (auto split: option.splits if_splits)
    then have "\<forall>j < length xs. xs ! j \<noteq> c" by (metis nth_mem)
    then show ?thesis using Cons.prems None by (auto simp: nth_Cons split: if_splits nat.split)
  next
    case (Some j)
    then show ?thesis using Cons.IH [OF Some] Cons.prems by (auto simp: nth_Cons split: nat.split)
  qed
qed simp

lemma base_suffix:
  assumes "snd (splitext (n_name (nd b n))) \<noteq> []"
  shows "file_base b n @ suffix b n = n_name (nd b n)"
  using assms by (auto simp: file_base_def suffix_def splitext_def Let_def split: option.splits if_splits)

end
