(* ===== verification/WafScan.thy ===== *)
theory WafScan
  imports WafNode
begin

section \<open>Waf: scanning folders and finding nodes\<close>

text \<open>
  \<open>BuildContext.rescan\<close> and \<open>listdir_bld\<close> of \<open>src/tools/wafadmin/Build.py\<close> and the operations of \<open>Node\<close>
  (\<open>src/tools/wafadmin/Node.py\<close>) that look for nodes and create them. The file system is an argument: what
  \<open>listdir\<close> returns (\<open>None\<close> when it raises \<open>OSError\<close>), the hash of a file (\<open>None\<close> when it cannot be read), and
  whether a path is a folder. A path is given as the list of its parts (\<open>Utils.split_path\<close>).
\<close>

record fs =
  fs_listdir :: "string \<Rightarrow> string list option"
  fs_hash :: "string \<Rightarrow> string option"
  fs_isdir :: "string \<Rightarrow> bool"

definition split_path :: "string \<Rightarrow> string list" where
  "split_path path = py_split CHR ''/'' path"

definition set_sig :: "variant \<Rightarrow> nat \<Rightarrow> string option \<Rightarrow> build \<Rightarrow> build" where
  "set_sig v i s b = b\<lparr>node_sigs := (node_sigs b)(v := (node_sigs b v)(i := s))\<rparr>"

lemma set_sig_fields [simp]:
  "b_nodes (set_sig v i s b) = b_nodes b" "srcnode (set_sig v i s b) = srcnode b" "bldnode (set_sig v i s b) = bldnode b"
  "cache_node_abspath (set_sig v i s b) = cache_node_abspath b"
  "cache_scanned_folders (set_sig v i s b) = cache_scanned_folders b" "lst_variants (set_sig v i s b) = lst_variants b"
  "cache_dir_contents (set_sig v i s b) = cache_dir_contents b" "id_nodes (set_sig v i s b) = id_nodes b"
  "root (set_sig v i s b) = root b"
  by (simp_all add: set_sig_def)

definition del_child :: "nat \<Rightarrow> string \<Rightarrow> build \<Rightarrow> build" where
  "del_child p name b = set_node p ((nd b p)\<lparr>n_childs := map_option (AList.delete name) (n_childs (nd b p))\<rparr>) b"

subsection \<open>Scanning\<close>

definition not_readable :: py_error where
  "not_readable = WafError ''The file is not readable or has become a dir''"

text \<open>One child of the folder in the loop over the source files.\<close>

definition rescan_child :: "fs \<Rightarrow> nat \<Rightarrow> string list \<Rightarrow> nat \<Rightarrow> build \<Rightarrow> build res" where
  "rescan_child f n lst x b =
     (if get_type b x \<noteq> FILE then Inr b
      else if n_name (nd b x) \<in> set lst then
        (let (p, b) = abspath_src x b in
         case fs_hash f p of
           None \<Rightarrow> Inl not_readable
         | Some h \<Rightarrow> Inr (set_sig Source (n_id (nd b x)) (Some h) b))
      else Inr (del_child n (n_name (nd b x)) (set_sig Source (n_id (nd b x)) None b)))"

fun each :: "('x \<Rightarrow> 's \<Rightarrow> 's res) \<Rightarrow> 'x list \<Rightarrow> 's \<Rightarrow> 's res" where
  "each g [] s = Inr s"
| "each g (x # xs) s = rbind (g x s) (each g xs)"

text \<open>\<open>listdir_bld\<close>; \<open>None\<close> is the \<open>OSError\<close> of \<open>listdir\<close>.\<close>

definition listdir_bld :: "fs \<Rightarrow> nat list \<Rightarrow> string \<Rightarrow> string \<Rightarrow> build \<Rightarrow> build option" where
  "listdir_bld f cs path variant b =
     (let existing = filter (\<lambda>x. get_type b x = BUILD) cs in
      case fs_listdir f path of
        None \<Rightarrow> None
      | Some lst \<Rightarrow>
          Some (fold (\<lambda>x b. set_sig (Variant variant) (n_id (nd b x)) None b)
                  (filter (\<lambda>x. n_name (nd b x) \<notin> set lst) existing) b))"

text \<open>The loop over the variants: what it has done before an \<open>OSError\<close> stays done.\<close>

fun list_variants :: "fs \<Rightarrow> nat list \<Rightarrow> (string \<Rightarrow> string) \<Rightarrow> string list \<Rightarrow> build \<Rightarrow> build \<times> bool" where
  "list_variants f cs sub [] b = (b, True)"
| "list_variants f cs sub (v # vs) b =
     (case listdir_bld f cs (sub v) v b of
        None \<Rightarrow> (b, False)
      | Some b' \<Rightarrow> list_variants f cs sub vs b')"

definition forget_build :: "nat \<Rightarrow> nat \<Rightarrow> build \<Rightarrow> build" where
  "forget_build n x b =
     (if get_type b x \<noteq> BUILD then b
      else del_child n (n_name (nd b x))
             (b\<lparr>node_sigs := (\<lambda>v. (node_sigs b v)(n_id (nd b x) := None))\<rparr>))"

text \<open>The first part of \<open>rescan\<close>: the folder counts as scanned, and its listing is kept.\<close>

definition start_scan :: "fs \<Rightarrow> nat \<Rightarrow> build \<Rightarrow> string list \<times> build" where
  "start_scan f n b =
     (let b = b\<lparr>cache_scanned_folders := n_id (nd b n) # cache_scanned_folders b\<rparr>;
          (path, b) = abspath_src n b;
          lst = (case fs_listdir f path of None \<Rightarrow> [] | Some l \<Rightarrow> l)
      in (lst, b\<lparr>cache_dir_contents := AList.update (n_id (nd b n)) lst (cache_dir_contents b)\<rparr>))"

text \<open>The last part: the folders of the variants.\<close>

definition scan_variants :: "fs \<Rightarrow> nat \<Rightarrow> string list \<Rightarrow> nat list \<Rightarrow> build \<Rightarrow> build" where
  "scan_variants f n names cs b =
     (let (bp, b) = abspath_src (bldnode b) b;
          sub = (\<lambda>v. path_join (bp # v # rev names));
          (b, ok) = list_variants f cs sub (lst_variants b) b
      in if ok then b
         else let b = fold (forget_build n) cs b
              in b\<lparr>made_dirs := made_dirs b @ map sub (lst_variants b)\<rparr>)"

definition rescan :: "fs \<Rightarrow> nat \<Rightarrow> build \<Rightarrow> build res" where
  "rescan f n b =
     (if n_id (nd b n) \<in> set (cache_scanned_folders b) then Inr b
      else
        let (lst, b) = start_scan f n b in
        rbind (child_nodes b n) (\<lambda>cs.
        rbind (each (rescan_child f n lst) cs b) (\<lambda>b.
        rbind (names_up b (height b n - height b (srcnode b)) n) (\<lambda>names.
        rbind (child_nodes b n) (\<lambda>cs. Inr (scan_variants f n names cs b))))))"

subsection \<open>Finding and declaring nodes\<close>

text \<open>One step of \<open>find_dir\<close>; the result \<open>None\<close> ends the search.\<close>

definition is_drive :: "string \<Rightarrow> string \<Rightarrow> bool" where
  "is_drive prev_name name \<longleftrightarrow>
     prev_name = [] \<and> length name = 2 \<and> name ! 1 = CHR '':'' \<or> py_startswith name [CHR 0x5C, CHR 0x5C]"

text \<open>The case of a name that is no child yet.\<close>

definition find_dir_new :: "fs \<Rightarrow> string \<Rightarrow> nat \<Rightarrow> build \<Rightarrow> (nat option \<times> build) res" where
  "find_dir_new f name prev b =
     (let create = (\<lambda>b. rbind (new_node name (Some prev) DIR b) (\<lambda>(m, b). Inr (Some m, b)));
          listed = (case map_of (cache_dir_contents b) (n_id (nd b prev)) of None \<Rightarrow> False | Some l \<Rightarrow> name \<in> set l)
      in if listed then
           let (dirname, b) =
             (if n_name (nd b prev) = [] then (''/'' @ name, b)
              else (case abspath_src prev b of (p, b) \<Rightarrow> (p @ ''/'' @ name, b)))
           in if \<not> fs_isdir f dirname then Inr (None, b) else create b
         else if is_drive (n_name (nd b prev)) name then create b
         else Inr (None, b))"

definition find_dir_step :: "fs \<Rightarrow> string \<Rightarrow> nat \<Rightarrow> build \<Rightarrow> (nat option \<times> build) res" where
  "find_dir_step f name cur b0 =
     rbind (rescan f cur b0) (\<lambda>b.
       if n_parent (nd b cur) = None \<and> name = n_name (nd b cur) then Inr (Some cur, b)
       else if name = [] \<or> name = ''.'' then Inr (Some cur, b)
       else if name = ''..'' then Inr (Some (case n_parent (nd b cur) of None \<Rightarrow> cur | Some p \<Rightarrow> p), b)
       else rbind (get_child b cur name) (\<lambda>c.
         case c of
           Some m \<Rightarrow> Inr (if get_type b m \<noteq> DIR then None else Some m, b)
         | None \<Rightarrow> find_dir_new f name cur b))"

fun find_dir :: "fs \<Rightarrow> string list \<Rightarrow> nat \<Rightarrow> build \<Rightarrow> (nat option \<times> build) res" where
  "find_dir f [] cur b = Inr (Some cur, b)"
| "find_dir f (name # names) cur b =
     rbind (find_dir_step f name cur b) (\<lambda>(r, b).
       case r of None \<Rightarrow> Inr (None, b) | Some m \<Rightarrow> find_dir f names m b)"

text \<open>The first lines of \<open>find_resource\<close> and \<open>find_or_declare\<close>.\<close>

definition find_parent :: "fs \<Rightarrow> string list \<Rightarrow> nat \<Rightarrow> build \<Rightarrow> (nat option \<times> build) res" where
  "find_parent f lst n b =
     rbind (if length lst = 1 then Inr (Some n, b) else find_dir f (butlast lst) n b) (\<lambda>(r, b).
       case r of
         None \<Rightarrow> Inr (None, b)
       | Some p \<Rightarrow> rbind (rescan f p b) (\<lambda>b. Inr (Some p, b)))"

definition find_resource :: "fs \<Rightarrow> string list \<Rightarrow> nat \<Rightarrow> build \<Rightarrow> (nat option \<times> build) res" where
  "find_resource f lst n b =
     rbind (find_parent f lst n b) (\<lambda>(r, b).
       case r of
         None \<Rightarrow> Inr (None, b)
       | Some p \<Rightarrow>
           if lst = [] then Inl IndexError
           else
             let name = last lst in
             rbind (get_child b p name) (\<lambda>c.
               case c of
                 Some m \<Rightarrow> Inr (if get_type b m = FILE \<or> get_type b m = BUILD then Some m else None, b)
               | None \<Rightarrow>
                   (case map_of (cache_dir_contents b) (n_id (nd b p)) of
                      None \<Rightarrow> Inl KeyError
                    | Some l \<Rightarrow>
                        if name \<notin> set l then Inr (None, b)
                        else
                          let (pp, b) = abspath_src p b in
                          (case fs_hash f (pp @ ''/'' @ name) of
                             None \<Rightarrow> Inr (None, b)
                           | Some h \<Rightarrow>
                               rbind (new_node name (Some p) FILE b) (\<lambda>(m, b).
                                 Inr (Some m, set_sig Source (n_id (nd b m)) (Some h) b))))))"

definition not_a_build_node :: py_error where
  "not_a_build_node = WafError ''find_or_declare cannot return a build node (build files in the source directory?)''"

definition find_or_declare :: "fs \<Rightarrow> string list \<Rightarrow> nat \<Rightarrow> build \<Rightarrow> (nat option \<times> build) res" where
  "find_or_declare f lst n b =
     rbind (find_parent f lst n b) (\<lambda>(r, b).
       case r of
         None \<Rightarrow> Inr (None, b)
       | Some p \<Rightarrow>
           if lst = [] then Inl IndexError
           else
             rbind (get_child b p (last lst)) (\<lambda>c.
               case c of
                 Some m \<Rightarrow> if get_type b m \<noteq> BUILD then Inl not_a_build_node else Inr (Some m, b)
               | None \<Rightarrow> rbind (new_node (last lst) (Some p) BUILD b) (\<lambda>(m, b). Inr (Some m, b))))"

fun ensure_dir_node_from_path :: "string list \<Rightarrow> nat \<Rightarrow> build \<Rightarrow> (nat \<times> build) res" where
  "ensure_dir_node_from_path [] cur b = Inr (cur, b)"
| "ensure_dir_node_from_path (name # names) cur b =
     (if name = [] \<or> name = ''.'' then ensure_dir_node_from_path names cur b
      else if name = ''..'' then
        ensure_dir_node_from_path names (case n_parent (nd b cur) of None \<Rightarrow> cur | Some p \<Rightarrow> p) b
      else rbind (get_child b cur name) (\<lambda>c.
        case c of
          Some m \<Rightarrow> ensure_dir_node_from_path names m b
        | None \<Rightarrow> rbind (new_node name (Some cur) DIR b) (\<lambda>(m, b). ensure_dir_node_from_path names m b)))"

text \<open>\<open>exclusive_build_node\<close>: \<open>rescan\<close> handles every \<open>OSError\<close> of its own, so the handlers have nothing to do.\<close>

definition exclusive_build_node :: "fs \<Rightarrow> string \<Rightarrow> nat \<Rightarrow> build \<Rightarrow> (nat \<times> build) res" where
  "exclusive_build_node f path n b =
     (let lst = split_path path in
      rbind (if length lst > 1 then
               rbind (find_dir f (butlast lst) n b) (\<lambda>(r, b).
                 rbind (case r of None \<Rightarrow> ensure_dir_node_from_path (butlast lst) n b | Some p \<Rightarrow> Inr (p, b)) (\<lambda>(p, b).
                   rbind (rescan f p b) (\<lambda>b. Inr (p, b))))
             else Inr (n, b)) (\<lambda>(p, b).
        rbind (get_child b p (last lst)) (\<lambda>c.
          case c of Some m \<Rightarrow> Inr (m, b) | None \<Rightarrow> new_node (last lst) (Some p) BUILD b)))"

definition change_ext :: "fs \<Rightarrow> string \<Rightarrow> nat \<Rightarrow> build \<Rightarrow> (nat option \<times> build) res" where
  "change_ext f ext n b =
     with_parent b n (\<lambda>p. find_or_declare f [change_ext_name (n_name (nd b n)) ext] p b)"

subsection \<open>The tree stays well-formed\<close>

definition kept :: "build \<Rightarrow> build \<Rightarrow> nat \<Rightarrow> bool" where
  "kept b b' n \<longleftrightarrow> n_name (nd b' n) = n_name (nd b n) \<and> n_parent (nd b' n) = n_parent (nd b n) \<and>
     n_id (nd b' n) = n_id (nd b n) \<and> (n_childs (nd b' n) = None \<longleftrightarrow> n_childs (nd b n) = None)"

text \<open>\<open>grows b b'\<close>: nodes may be added; of those there are, only the children change.\<close>

definition grows :: "build \<Rightarrow> build \<Rightarrow> bool" where
  "grows b b' \<longleftrightarrow> wf_tree b' \<and> length (b_nodes b) \<le> length (b_nodes b') \<and> root b' = root b \<and>
     srcnode b' = srcnode b \<and> bldnode b' = bldnode b \<and> (\<forall>n < length (b_nodes b). kept b b' n)"

lemma grows_refl: "wf_tree b \<Longrightarrow> grows b b"
  by (simp add: grows_def kept_def)

lemma grows_trans: "grows a b \<Longrightarrow> grows b c \<Longrightarrow> grows a c"
  by (fastforce simp: grows_def kept_def)

lemma wf_tree_cong:
  assumes "b_nodes b' = b_nodes b" "id_nodes b' = id_nodes b" "root b' = root b"
  shows "wf_tree b' = wf_tree b"
  using assms by (simp only: wf_tree_def get_type_def)

lemma grows_same:
  assumes "wf_tree b" "b_nodes b' = b_nodes b" "id_nodes b' = id_nodes b" "root b' = root b"
    "srcnode b' = srcnode b" "bldnode b' = bldnode b"
  shows "grows b b'"
  using assms wf_tree_cong [OF assms(2-4)] by (simp add: grows_def kept_def)

lemma grows_set_sig: "wf_tree b \<Longrightarrow> grows b (set_sig v i s b)"
  by (rule grows_same) (simp_all add: set_sig_def)

lemma abspath_src_same:
  "\<exists>c. snd (abspath_src n b) = b\<lparr>cache_node_abspath := c\<rparr>"
proof (induction n arbitrary: b rule: less_induct)
  case (less n)
  show ?case
  proof (cases "cached Source n b")
    case (Some r)
    then show ?thesis by (auto simp: abspath_src.simps [of n b] intro: exI [of _ "cache_node_abspath b"])
  next
    case None
    consider (root) "n_parent (nd b n) = None" | (top) p where "n_parent (nd b n) = Some p" "n_name (nd b p) = [] \<or> \<not> p < n"
      | (deep) p where "n_parent (nd b n) = Some p" "n_name (nd b p) \<noteq> []" "p < n"
      by (cases "n_parent (nd b n)") auto
    then show ?thesis
    proof cases
      case deep
      obtain r c where c: "abspath_src p b = (r, b\<lparr>cache_node_abspath := c\<rparr>)"
        using less [OF deep(3), of b] by (metis prod.collapse)
      then show ?thesis using None deep by (auto simp: abspath_src.simps [of n b] remember_def)
    qed (use None in \<open>auto simp: abspath_src.simps [of n b] remember_def\<close>)
  qed
qed

lemma abspath_src_grows:
  assumes "abspath_src n b = (r, b')" "wf_tree b"
  shows "grows b b'" "b_nodes b' = b_nodes b" "node_sigs b' = node_sigs b"
    "cache_dir_contents b' = cache_dir_contents b" "cache_scanned_folders b' = cache_scanned_folders b"
    "lst_variants b' = lst_variants b" "srcnode b' = srcnode b" "bldnode b' = bldnode b"
proof -
  obtain c where c: "b' = b\<lparr>cache_node_abspath := c\<rparr>" using abspath_src_same [of n b] assms(1) by auto
  show "grows b b'" by (rule grows_same [OF assms(2)]) (simp_all add: c)
  show "b_nodes b' = b_nodes b" "node_sigs b' = node_sigs b" "cache_dir_contents b' = cache_dir_contents b"
    "cache_scanned_folders b' = cache_scanned_folders b" "lst_variants b' = lst_variants b" "srcnode b' = srcnode b"
    "bldnode b' = bldnode b" using c by simp_all
qed

lemma set_childs_grows:
  assumes "wf_tree b" "p < length (b_nodes b)" "n_childs (nd b p) = Some cs" "distinct (map fst cs')"
    "\<And>name c. (name, c) \<in> set cs' \<Longrightarrow> c < length (b_nodes b) \<and> n_name (nd b c) = name \<and> n_parent (nd b c) = Some p"
  shows "grows b (set_node p ((nd b p)\<lparr>n_childs := Some cs'\<rparr>) b)"
proof -
  let ?b = "set_node p ((nd b p)\<lparr>n_childs := Some cs'\<rparr>) b"
  have l: "length (b_nodes ?b) = length (b_nodes b)" by (simp add: set_node_def)
  have f: "n_name (nd ?b n) = n_name (nd b n)" "n_parent (nd ?b n) = n_parent (nd b n)" "n_id (nd ?b n) = n_id (nd b n)"
    "n_childs (nd ?b n) = (if n = p then Some cs' else n_childs (nd b n))" for n
    using assms(2) by (auto simp: set_node_def nth_list_update)
  have r: "root ?b = root b" "id_nodes ?b = id_nodes b" "srcnode ?b = srcnode b" "bldnode ?b = bldnode b"
    by (simp_all add: set_node_def)
  have t: "get_type ?b n = get_type b n" for n using f by (simp add: get_type_def)
  have k: "kept b ?b n" for n using f assms(3) by (simp add: kept_def)
  have "wf_tree ?b"
    unfolding wf_tree_def l f(1-3) r t
  proof (intro conjI allI impI)
    fix n assume n: "n < length (b_nodes b)"
    note w = assms(1) [unfolded wf_tree_def, THEN conjunct1, rule_format, OF n]
    show "case n_parent (nd b n) of None \<Rightarrow> n = root b | Some p' \<Rightarrow> p' < n \<and> n_childs (nd ?b p') \<noteq> None"
      using w f(4) by (auto split: option.split)
    show "n_id (nd b n) < id_nodes b + 4" using w by blast
    show "(get_type b n = DIR) = (n_childs (nd ?b n) \<noteq> None)" using w f(4) assms(3) by auto
    fix ds assume "n_childs (nd ?b n) = Some ds"
    then show "distinct (map fst ds)"
      "\<forall>(name, c) \<in> set ds. c < length (b_nodes b) \<and> n_name (nd b c) = name \<and> n_parent (nd b c) = Some n"
      using w f(4) assms(4,5) by (auto split: if_splits)
  next
    show "\<And>m n. m < length (b_nodes b) \<Longrightarrow> n < length (b_nodes b) \<Longrightarrow> n_id (nd b m) = n_id (nd b n) \<Longrightarrow> m = n"
      using wf_ids [OF assms(1)] by blast
    show "id_nodes b mod 4 = 0" "root b < length (b_nodes b)" "n_parent (nd b (root b)) = None"
      using assms(1) by (simp_all add: wf_tree_def)
  qed
  then show ?thesis using k l r by (simp add: grows_def)
qed

lemma wf_childs:
  assumes "wf_tree b" "n < length (b_nodes b)" "n_childs (nd b n) = Some cs"
  shows "distinct (map fst cs)"
    "(name, c) \<in> set cs \<Longrightarrow> c < length (b_nodes b) \<and> n_name (nd b c) = name \<and> n_parent (nd b c) = Some n"
proof -
  note w = assms(1) [unfolded wf_tree_def, THEN conjunct1, rule_format, OF assms(2)]
  show "distinct (map fst cs)" using w assms(3) by blast
  show "(name, c) \<in> set cs \<Longrightarrow> c < length (b_nodes b) \<and> n_name (nd b c) = name \<and> n_parent (nd b c) = Some n"
    using w assms(3) by fastforce
qed

lemma del_child_grows:
  assumes "wf_tree b" "p < length (b_nodes b)" "n_childs (nd b p) \<noteq> None"
  shows "grows b (del_child p name b)"
proof -
  obtain cs where cs: "n_childs (nd b p) = Some cs" using assms(3) by auto
  note w = wf_childs [OF assms(1,2) cs]
  have "grows b (set_node p ((nd b p)\<lparr>n_childs := Some (AList.delete name cs)\<rparr>) b)"
    by (rule set_childs_grows [OF assms(1,2) cs]) (use w in \<open>auto simp: AList.delete_eq distinct_map_filter\<close>)
  then show ?thesis by (simp add: del_child_def cs)
qed

lemma append_grows:
  assumes "wf_tree b" "p < length (b_nodes b)" "n_childs (nd b p) \<noteq> None" "tp < 4"
  shows "grows b (b\<lparr>b_nodes := b_nodes b @ [fresh_node name (Some p) tp b], id_nodes := id_nodes b + 4\<rparr>)"
proof -
  let ?x = "fresh_node name (Some p) tp b"
  let ?b = "b\<lparr>b_nodes := b_nodes b @ [?x], id_nodes := id_nodes b + 4\<rparr>"
  have nd: "nd ?b n = (if n < length (b_nodes b) then nd b n else if n = length (b_nodes b) then ?x else nd ?b n)" for n
    by (simp add: nth_append)
  have old: "n < length (b_nodes b) \<Longrightarrow> nd ?b n = nd b n" for n by (simp add: nth_append)
  have new: "nd ?b (length (b_nodes b)) = ?x" by simp
  have m4: "id_nodes b mod 4 = 0" using assms(1) by (simp add: wf_tree_def)
  have tp: "get_type ?b (length (b_nodes b)) = tp" using assms(4) m4
    by (simp add: get_type_def fresh_node_def mod_add_eq [symmetric, of "id_nodes b"] add.assoc)
  have "wf_tree ?b"
    unfolding wf_tree_def
  proof (intro conjI allI impI)
    fix n assume "n < length (b_nodes ?b)"
    then consider (old) "n < length (b_nodes b)" | (new) "n = length (b_nodes b)" by fastforce
    then have "(case n_parent (nd ?b n) of None \<Rightarrow> n = root ?b | Some p \<Rightarrow> p < n \<and> n_childs (nd ?b p) \<noteq> None) \<and>
        n_id (nd ?b n) < id_nodes ?b + 4 \<and> (get_type ?b n = DIR \<longleftrightarrow> n_childs (nd ?b n) \<noteq> None) \<and>
        (\<forall>cs. n_childs (nd ?b n) = Some cs \<longrightarrow> distinct (map fst cs) \<and>
           (\<forall>(name, c) \<in> set cs. c < length (b_nodes ?b) \<and> n_name (nd ?b c) = name \<and> n_parent (nd ?b c) = Some n))"
    proof cases
      case old
      note w = assms(1) [unfolded wf_tree_def, THEN conjunct1, rule_format, OF old]
      have "nd ?b n = nd b n" "get_type ?b n = get_type b n" using old by (simp_all add: nth_append get_type_def)
      moreover have "case n_parent (nd b n) of None \<Rightarrow> n = root ?b | Some p \<Rightarrow> p < n \<and> n_childs (nd ?b p) \<noteq> None"
        using w old by (auto simp: nth_append split: option.splits)
      moreover have "\<forall>(name, c) \<in> set cs. c < length (b_nodes ?b) \<and> n_name (nd ?b c) = name \<and> n_parent (nd ?b c) = Some n"
        if "n_childs (nd b n) = Some cs" for cs
        using wf_childs(2) [OF assms(1) old that] by (auto simp: nth_append)
      ultimately show ?thesis using w by auto
    next
      case new
      then show ?thesis using tp assms(2,3,4) by (simp add: fresh_node_def nth_append)
    qed
    then show "case n_parent (nd ?b n) of None \<Rightarrow> n = root ?b | Some p \<Rightarrow> p < n \<and> n_childs (nd ?b p) \<noteq> None"
      "n_id (nd ?b n) < id_nodes ?b + 4" "(get_type ?b n = DIR) = (n_childs (nd ?b n) \<noteq> None)"
      "\<And>cs. n_childs (nd ?b n) = Some cs \<Longrightarrow> distinct (map fst cs)"
      "\<And>cs. n_childs (nd ?b n) = Some cs \<Longrightarrow>
         \<forall>(name, c) \<in> set cs. c < length (b_nodes ?b) \<and> n_name (nd ?b c) = name \<and> n_parent (nd ?b c) = Some n"
      by blast+
  next
    fix m n assume mn: "m < length (b_nodes ?b)" "n < length (b_nodes ?b)" "n_id (nd ?b m) = n_id (nd ?b n)"
    have lt: "n_id (nd b k) < id_nodes b + 4" if "k < length (b_nodes b)" for k
      using assms(1) that by (simp add: wf_tree_def)
    have x: "id_nodes b + 4 \<le> n_id ?x" by (simp add: fresh_node_def)
    show "m = n"
    proof (cases "m = length (b_nodes b) \<or> n = length (b_nodes b)")
      case True
      then show ?thesis using mn lt [of m] lt [of n] x by (auto simp: nth_append less_Suc_eq split: if_splits)
    next
      case False
      then show ?thesis using mn wf_ids [OF assms(1), of m n] by (auto simp: nth_append less_Suc_eq)
    qed
  next
    show "id_nodes ?b mod 4 = 0" using m4 by simp
    have "root b < length (b_nodes b)" "n_parent (nd b (root b)) = None" using assms(1) by (simp_all add: wf_tree_def)
    then show "root ?b < length (b_nodes ?b)" "n_parent (nd ?b (root ?b)) = None" by (simp_all add: nth_append)
  qed
  then show ?thesis using old by (simp add: grows_def kept_def)
qed

lemma new_node_grows:
  assumes "new_node name (Some p) tp b = Inr (m, b')" "wf_tree b" "p < length (b_nodes b)" "tp < 4"
  shows "grows b b'" "m < length (b_nodes b')" "n_name (nd b' m) = name" "n_parent (nd b' m) = Some p"
    "get_type b' m = tp" "get_child b' p name = Inr (Some m)"
    "cache_scanned_folders b' = cache_scanned_folders b" "cache_dir_contents b' = cache_dir_contents b"
    "node_sigs b' = node_sigs b"
proof -
  obtain cs where cs: "n_childs (nd b p) = Some cs" "map_of cs name = None"
    using assms(1) by (auto simp: new_node_def get_child_def Let_def split: option.splits if_splits)
  let ?x = "fresh_node name (Some p) tp b"
  let ?b = "b\<lparr>b_nodes := b_nodes b @ [?x], id_nodes := id_nodes b + 4\<rparr>"
  have m: "m = length (b_nodes b)" "b' = add_child p name m ?b"
    using assms(1) cs by (auto simp: new_node_def get_child_def Let_def)
  have g: "grows b ?b" by (rule append_grows [OF assms(2,3) _ assms(4)]) (simp add: cs)
  then have w: "wf_tree ?b" by (simp add: grows_def)
  have np: "nd ?b p = nd b p" "nd ?b m = ?x" using assms(3) m(1) by (simp_all add: nth_append)
  have b': "b' = set_node p ((nd ?b p)\<lparr>n_childs := Some (AList.update name m cs)\<rparr>) ?b"
    using m(2) np cs by (simp add: add_child_def)
  have "grows ?b b'" unfolding b'
  proof (rule set_childs_grows [OF w])
    show "p < length (b_nodes ?b)" using assms(3) by simp
    show "n_childs (nd ?b p) = Some cs" using np cs by simp
    show "distinct (map fst (AList.update name m cs))"
      using wf_childs(1) [OF assms(2,3) cs(1)] by (rule distinct_update)
    fix k c assume kc: "(k, c) \<in> set (AList.update name m cs)"
    have "AList.update name m cs = cs @ [(name, m)]"
      using cs(2) by (induction cs) (auto split: if_splits)
    then have "(k, c) \<in> set cs \<or> k = name \<and> c = m" using kc by auto
    then show "c < length (b_nodes ?b) \<and> n_name (nd ?b c) = k \<and> n_parent (nd ?b c) = Some p"
      using wf_childs(2) [OF assms(2,3) cs(1), of k c] m(1) np by (auto simp: nth_append fresh_node_def)
  qed
  then show gr: "grows b b'" using grows_trans [OF g] by simp
  have "nd b' m = ?x" using b' np m(1) assms(3) by (simp add: set_node_def nth_list_update nth_append)
  moreover have "id_nodes b mod 4 = 0" using assms(2) by (simp add: wf_tree_def)
  ultimately show "n_name (nd b' m) = name" "n_parent (nd b' m) = Some p" "get_type b' m = tp"
    using assms(4) by (simp_all add: fresh_node_def get_type_def mod_add_eq [symmetric, of "id_nodes b"] add.assoc)
  show "m < length (b_nodes b')" using b' m(1) by (simp add: set_node_def)
  show "get_child b' p name = Inr (Some m)"
    using b' assms(3) by (simp add: get_child_def set_node_def nth_append update_conv')
  show "cache_scanned_folders b' = cache_scanned_folders b" "cache_dir_contents b' = cache_dir_contents b"
    "node_sigs b' = node_sigs b" using b' by (simp_all add: set_node_def)
qed

lemma each_inv:
  assumes "each g xs s = Inr s'" "I s" "\<And>x s s'. x \<in> set xs \<Longrightarrow> I s \<Longrightarrow> g x s = Inr s' \<Longrightarrow> I s'"
  shows "I s'"
  using assms
proof (induction xs arbitrary: s)
  case (Cons x xs)
  obtain t where t: "g x s = Inr t" "each g xs t = Inr s'" using Cons.prems(1) by auto
  have "I t" using Cons.prems(2,3) t(1) by (meson list.set_intros(1))
  then show ?case using Cons.IH [OF t(2)] Cons.prems(3) by (meson list.set_intros(2))
qed simp

lemma grows_wf: "grows b b' \<Longrightarrow> wf_tree b'"
  by (simp add: grows_def)

lemma grows_node:
  assumes "grows b b'" "n < length (b_nodes b)"
  shows "n < length (b_nodes b')" "n_childs (nd b' n) = None \<longleftrightarrow> n_childs (nd b n) = None" "n_name (nd b' n) = n_name (nd b n)"
    "n_parent (nd b' n) = n_parent (nd b n)" "n_id (nd b' n) = n_id (nd b n)" "get_type b' n = get_type b n"
  using assms by (auto simp: grows_def kept_def get_type_def)

lemma rescan_child_grows:
  assumes "rescan_child f n lst x b = Inr b'" "wf_tree b" "n < length (b_nodes b)" "n_childs (nd b n) \<noteq> None"
  shows "grows b b'"
proof (cases "get_type b x = FILE \<and> n_name (nd b x) \<in> set lst")
  case True
  obtain p c where c: "abspath_src x b = (p, c)" by fastforce
  then obtain h where h: "b' = set_sig Source (n_id (nd c x)) (Some h) c"
    using assms(1) True by (auto simp: rescan_child_def split: option.splits)
  have g: "grows b c" by (rule abspath_src_grows(1) [OF c assms(2)])
  from grows_trans [OF g grows_set_sig [OF grows_wf [OF g]]] show ?thesis by (simp add: h)
next
  case False
  show ?thesis
  proof (cases "get_type b x = FILE")
    case True
    let ?c = "set_sig Source (n_id (nd b x)) None b"
    have g: "grows b ?c" by (rule grows_set_sig [OF assms(2)])
    have "b' = del_child n (n_name (nd b x)) ?c" using assms(1) True False by (simp add: rescan_child_def)
    then show ?thesis using del_child_grows [of ?c n] g grows_trans grows_wf grows_node [OF g assms(3)] assms(4) by blast
  qed (use assms(1,2) grows_refl in \<open>simp add: rescan_child_def\<close>)
qed

lemma fold_sig_nodes:
  "b_nodes (fold (\<lambda>x b. set_sig v (n_id (nd b x)) None b) xs b) = b_nodes b \<and>
   id_nodes (fold (\<lambda>x b. set_sig v (n_id (nd b x)) None b) xs b) = id_nodes b \<and>
   root (fold (\<lambda>x b. set_sig v (n_id (nd b x)) None b) xs b) = root b \<and>
   srcnode (fold (\<lambda>x b. set_sig v (n_id (nd b x)) None b) xs b) = srcnode b \<and>
   bldnode (fold (\<lambda>x b. set_sig v (n_id (nd b x)) None b) xs b) = bldnode b \<and>
   cache_scanned_folders (fold (\<lambda>x b. set_sig v (n_id (nd b x)) None b) xs b) = cache_scanned_folders b \<and>
   cache_dir_contents (fold (\<lambda>x b. set_sig v (n_id (nd b x)) None b) xs b) = cache_dir_contents b"
  by (induction xs arbitrary: b) (simp_all add: set_sig_def)

lemma list_variants_nodes:
  assumes "list_variants f cs sub vs b = (b', ok)"
  shows "b_nodes b' = b_nodes b \<and> id_nodes b' = id_nodes b \<and> root b' = root b \<and> srcnode b' = srcnode b \<and>
    bldnode b' = bldnode b \<and> cache_scanned_folders b' = cache_scanned_folders b \<and>
    cache_dir_contents b' = cache_dir_contents b"
  using assms
proof (induction vs arbitrary: b)
  case (Cons v vs)
  show ?case
  proof (cases "listdir_bld f cs (sub v) v b")
    case (Some c)
    then obtain xs where "c = fold (\<lambda>x b. set_sig (Variant v) (n_id (nd b x)) None b) xs b"
      by (auto simp: listdir_bld_def Let_def split: option.splits)
    then show ?thesis using Cons.IH [of c] Cons.prems Some fold_sig_nodes [of "Variant v" xs b] by simp
  qed (use Cons.prems in simp)
qed simp

lemma forget_build_grows:
  assumes "wf_tree b" "n < length (b_nodes b)" "n_childs (nd b n) \<noteq> None"
  shows "grows b (forget_build n x b)"
proof (cases "get_type b x = BUILD")
  case True
  let ?c = "b\<lparr>node_sigs := (\<lambda>v. (node_sigs b v)(n_id (nd b x) := None))\<rparr>"
  have g: "grows b ?c" by (rule grows_same [OF assms(1)]) simp_all
  have "grows ?c (del_child n (n_name (nd b x)) ?c)"
    by (rule del_child_grows) (use g grows_wf assms in auto)
  then show ?thesis using True grows_trans [OF g] by (simp add: forget_build_def)
qed (use grows_refl [OF assms(1)] in \<open>simp add: forget_build_def\<close>)

lemma fold_forget_grows:
  assumes "wf_tree b" "n < length (b_nodes b)" "n_childs (nd b n) \<noteq> None"
  shows "grows b (fold (forget_build n) xs b)"
  using assms
proof (induction xs arbitrary: b)
  case (Cons x xs)
  have g: "grows b (forget_build n x b)" by (rule forget_build_grows [OF Cons.prems])
  then have "grows (forget_build n x b) (fold (forget_build n) xs (forget_build n x b))"
    by (intro Cons.IH) (use grows_wf grows_node [OF g Cons.prems(2)] Cons.prems(3) in auto)
  then show ?case using grows_trans [OF g] by simp
qed (simp add: grows_refl)

lemma start_scan_grows:
  assumes "start_scan f n b = (lst, b')" "wf_tree b"
  shows "grows b b'" "n_id (nd b n) \<in> set (cache_scanned_folders b')" "b_nodes b' = b_nodes b"
    "map_of (cache_dir_contents b') (n_id (nd b n)) = Some lst"
proof -
  let ?b0 = "b\<lparr>cache_scanned_folders := n_id (nd b n) # cache_scanned_folders b\<rparr>"
  obtain path b1 where b1: "abspath_src n ?b0 = (path, b1)" by fastforce
  have g0: "grows b ?b0" by (rule grows_same [OF assms(2)]) simp_all
  note a = abspath_src_grows [OF b1 grows_wf [OF g0]]
  have b': "b' = b1\<lparr>cache_dir_contents := AList.update (n_id (nd b1 n)) lst (cache_dir_contents b1)\<rparr>"
    using assms(1) b1 by (auto simp: start_scan_def Let_def)
  have g1: "grows b b1" by (rule grows_trans [OF g0 a(1)])
  have "grows b1 b'" by (rule grows_same [OF grows_wf [OF g1]]) (simp_all add: b')
  then show "grows b b'" by (rule grows_trans [OF g1])
  show "n_id (nd b n) \<in> set (cache_scanned_folders b')" "b_nodes b' = b_nodes b"
    "map_of (cache_dir_contents b') (n_id (nd b n)) = Some lst"
    using b' a by (simp_all add: update_conv')
qed

lemma scan_variants_grows:
  assumes "wf_tree b" "n < length (b_nodes b)" "n_childs (nd b n) \<noteq> None"
  shows "grows b (scan_variants f n names cs b)"
proof -
  obtain bp c where c: "abspath_src (bldnode b) b = (bp, c)" by fastforce
  let ?sub = "\<lambda>v. path_join (bp # v # rev names)"
  obtain d ok where d: "list_variants f cs ?sub (lst_variants c) c = (d, ok)" by fastforce
  have g1: "grows b c" by (rule abspath_src_grows(1) [OF c assms(1)])
  have "grows c d" by (rule grows_same [OF grows_wf [OF g1]]) (use list_variants_nodes [OF d] in auto)
  then have g2: "grows b d" by (rule grows_trans [OF g1])
  let ?e = "fold (forget_build n) cs d"
  have "grows d ?e" by (rule fold_forget_grows) (use g2 grows_wf grows_node [OF g2 assms(2)] assms(3) in auto)
  then have g3: "grows b ?e" by (rule grows_trans [OF g2])
  have "grows ?e (?e\<lparr>made_dirs := x\<rparr>)" for x by (rule grows_same [OF grows_wf [OF g3]]) simp_all
  then have "grows b (?e\<lparr>made_dirs := x\<rparr>)" for x by (rule grows_trans [OF g3])
  then show ?thesis using g2 c d by (simp add: scan_variants_def Let_def)
qed

lemma each_rescan_grows:
  assumes "each (rescan_child f n lst) cs b = Inr b'" "wf_tree b" "n < length (b_nodes b)" "n_childs (nd b n) \<noteq> None"
  shows "grows b b'"
proof (rule each_inv [where I = "grows b", OF assms(1) grows_refl [OF assms(2)]])
  fix x s s' assume s: "grows b s" "rescan_child f n lst x s = Inr s'"
  have "grows s s'"
    by (rule rescan_child_grows [OF s(2) grows_wf [OF s(1)]]) (use grows_node [OF s(1) assms(3)] assms(4) in auto)
  then show "grows b s'" by (rule grows_trans [OF s(1)])
qed

lemma rescan_steps:
  assumes "rescan f n b = Inr b'" "n_id (nd b n) \<notin> set (cache_scanned_folders b)"
  obtains lst b1 cs b2 names cs' where "start_scan f n b = (lst, b1)" "child_nodes b1 n = Inr cs"
    "each (rescan_child f n lst) cs b1 = Inr b2" "child_nodes b2 n = Inr cs'" "b' = scan_variants f n names cs' b2"
proof -
  obtain lst b1 where s: "start_scan f n b = (lst, b1)" by fastforce
  obtain cs where cs: "child_nodes b1 n = Inr cs" using assms s by (auto simp: rescan_def)
  obtain b2 where b2: "each (rescan_child f n lst) cs b1 = Inr b2" using assms s cs by (auto simp: rescan_def)
  obtain names where nm: "names_up b2 (height b2 n - height b2 (srcnode b2)) n = Inr names"
    using assms s cs b2 by (auto simp: rescan_def)
  obtain cs' where cs': "child_nodes b2 n = Inr cs'" using assms s cs b2 nm by (auto simp: rescan_def)
  have "b' = scan_variants f n names cs' b2" using assms s cs b2 nm cs' by (simp add: rescan_def)
  then show thesis using that s cs b2 cs' by blast
qed

lemma rescan_grows:
  assumes "rescan f n b = Inr b'" "wf_tree b" "n < length (b_nodes b)"
  shows "grows b b'"
proof (cases "n_id (nd b n) \<in> set (cache_scanned_folders b)")
  case True
  then show ?thesis using assms grows_refl by (simp add: rescan_def)
next
  case False
  obtain lst b1 cs b2 names cs' where s: "start_scan f n b = (lst, b1)" "child_nodes b1 n = Inr cs"
    "each (rescan_child f n lst) cs b1 = Inr b2" "child_nodes b2 n = Inr cs'" "b' = scan_variants f n names cs' b2"
    by (rule rescan_steps [OF assms(1) False])
  have g1: "grows b b1" by (rule start_scan_grows(1) [OF s(1) assms(2)])
  note n1 = grows_node [OF g1 assms(3)]
  have c1: "n_childs (nd b1 n) \<noteq> None" using s(2) by (auto simp: child_nodes_def split: option.splits)
  have g2: "grows b1 b2" by (rule each_rescan_grows [OF s(3) grows_wf [OF g1] n1(1) c1])
  note n2 = grows_node [OF g2 n1(1)]
  have "grows b2 b'" unfolding s(5) by (rule scan_variants_grows [OF grows_wf [OF g2] n2(1)]) (use n2(2) c1 in simp)
  then show ?thesis using grows_trans [OF grows_trans [OF g1 g2]] by blast
qed

lemma get_child_Some:
  assumes "get_child b p name = Inr (Some c)" "wf_tree b" "p < length (b_nodes b)"
  shows "c < length (b_nodes b)" "n_name (nd b c) = name" "n_parent (nd b c) = Some p"
proof -
  obtain cs where cs: "n_childs (nd b p) = Some cs" "map_of cs name = Some c"
    using assms(1) by (auto simp: get_child_def split: option.splits)
  show "c < length (b_nodes b)" "n_name (nd b c) = name" "n_parent (nd b c) = Some p"
    using wf_childs(2) [OF assms(2,3) cs(1) map_of_SomeD [OF cs(2)]] by simp_all
qed

lemma wf_dir:
  assumes "wf_tree b" "n < length (b_nodes b)"
  shows "get_type b n = DIR \<longleftrightarrow> n_childs (nd b n) \<noteq> None"
  using assms by (simp add: wf_tree_def)

lemma parent_dir:
  assumes "wf_tree b" "n < length (b_nodes b)" "n_parent (nd b n) = Some p"
  shows "p < length (b_nodes b)" "get_type b p = DIR"
proof -
  show p: "p < length (b_nodes b)" using wf_parent(2) [OF assms] .
  have "case n_parent (nd b n) of None \<Rightarrow> n = root b | Some p \<Rightarrow> p < n \<and> n_childs (nd b p) \<noteq> None"
    using assms(1,2) unfolding wf_tree_def by blast
  then show "get_type b p = DIR" using wf_dir [OF assms(1) p] assms(3) by simp
qed

text \<open>What the operations promise that return a node: the tree grows, and the node belongs to it.\<close>

definition good :: "build \<Rightarrow> nat set \<Rightarrow> (nat option \<times> build) \<Rightarrow> bool" where
  "good b tps x \<longleftrightarrow> grows b (snd x) \<and>
     (\<forall>m. fst x = Some m \<longrightarrow> m < length (b_nodes (snd x)) \<and> get_type (snd x) m \<in> tps)"

lemma good_trans: "grows a b \<Longrightarrow> good b tps x \<Longrightarrow> good a tps x"
  using grows_trans by (auto simp: good_def)

lemma new_node_good:
  assumes "new_node name (Some p) tp b = Inr (m, b')" "wf_tree b" "p < length (b_nodes b)" "tp < 4" "tp \<in> tps"
  shows "good b tps (Some m, b')"
  using new_node_grows [OF assms(1-4)] assms(5) by (simp add: good_def)

lemma DIR_less [simp]: "DIR < 4" "FILE < 4" "BUILD < 4"
  by (simp_all add: node_types)

lemma find_dir_new_good:
  assumes "find_dir_new f name cur b = Inr x" "wf_tree b" "cur < length (b_nodes b)"
  shows "good b {DIR} x"
proof -
  have none: "good c {DIR} (None, c)" if "wf_tree c" for c using grows_refl [OF that] by (simp add: good_def)
  have create: "good c {DIR} x"
    if a: "rbind (new_node name (Some cur) DIR c) (\<lambda>(m, b). Inr (Some m, b)) = Inr x" "wf_tree c" "cur < length (b_nodes c)" for c
  proof -
    obtain m d where "new_node name (Some cur) DIR c = Inr (m, d)" "x = (Some m, d)" using a(1) by auto
    then show ?thesis using new_node_good [OF _ a(2,3)] by simp
  qed
  obtain dirname c where c: "(if n_name (nd b cur) = [] then (''/'' @ name, b)
      else (case abspath_src cur b of (p, b) \<Rightarrow> (p @ ''/'' @ name, b))) = (dirname, c)" by fastforce
  have g: "grows b c"
    using c abspath_src_grows(1) [OF _ assms(2)] grows_refl [OF assms(2)] by (auto split: if_splits prod.splits)
  have gc: "good c {DIR} y \<Longrightarrow> good b {DIR} y" for y by (rule good_trans [OF g])
  show ?thesis
    using assms(1) c gc [OF create [OF _ grows_wf [OF g] grows_node(1) [OF g assms(3)]]] gc [OF none [OF grows_wf [OF g]]]
      create [OF _ assms(2,3)] none [OF assms(2)]
    unfolding find_dir_new_def Let_def by (simp split: if_splits)
qed

lemma find_dir_step_good:
  assumes "find_dir_step f name cur b0 = Inr x" "wf_tree b0" "cur < length (b_nodes b0)" "get_type b0 cur = DIR"
  shows "good b0 {DIR} x"
proof -
  obtain b where r: "rescan f cur b0 = Inr b" using assms(1) by (auto simp: find_dir_step_def)
  have g: "grows b0 b" by (rule rescan_grows [OF r assms(2,3)])
  note w = grows_wf [OF g] and l = grows_node(1,6) [OF g assms(3)]
  have keep: "good b {DIR} (Some cur, b)" using grows_refl [OF w] l assms(4) by (simp add: good_def)
  have up: "good b {DIR} (Some (case n_parent (nd b cur) of None \<Rightarrow> cur | Some p \<Rightarrow> p), b)"
    using keep parent_dir [OF w l(1)] grows_refl [OF w] by (cases "n_parent (nd b cur)") (auto simp: good_def)
  have child: "good b {DIR} (if get_type b m \<noteq> DIR then None else Some m, b)" if "get_child b cur name = Inr (Some m)" for m
    using get_child_Some(1) [OF that w l(1)] grows_refl [OF w] by (auto simp: good_def)
  have "good b {DIR} x"
    using assms(1) r keep up child find_dir_new_good [OF _ w l(1), of f name x]
    unfolding find_dir_step_def by (auto split: if_splits option.splits)
  then show ?thesis by (rule good_trans [OF g])
qed

lemma find_dir_good:
  assumes "find_dir f names cur b = Inr x" "wf_tree b" "cur < length (b_nodes b)" "get_type b cur = DIR"
  shows "good b {DIR} x"
  using assms
proof (induction names arbitrary: cur b)
  case Nil
  then show ?case using grows_refl by (auto simp: good_def)
next
  case (Cons name names)
  obtain r c where rc: "find_dir_step f name cur b = Inr (r, c)" using Cons.prems(1) by auto
  have s: "good b {DIR} (r, c)" by (rule find_dir_step_good [OF rc Cons.prems(2-4)])
  then have g: "grows b c" by (simp add: good_def)
  show ?case
  proof (cases r)
    case None
    then show ?thesis using Cons.prems(1) rc s by simp
  next
    case (Some m)
    then have "find_dir f names m c = Inr x" "m < length (b_nodes c)" "get_type c m = DIR"
      using Cons.prems(1) rc s by (auto simp: good_def)
    from Cons.IH [OF this(1) grows_wf [OF g] this(2,3)] show ?thesis by (rule good_trans [OF g])
  qed
qed

lemma find_parent_good:
  assumes "find_parent f lst n b = Inr x" "wf_tree b" "n < length (b_nodes b)" "get_type b n = DIR"
  shows "good b {DIR} x"
proof -
  obtain r c where rc: "(if length lst = 1 then Inr (Some n, b) else find_dir f (butlast lst) n b) = Inr (r, c)"
    using assms(1) by (auto simp: find_parent_def)
  have s: "good b {DIR} (r, c)"
    using rc find_dir_good [OF _ assms(2-4)] grows_refl [OF assms(2)] assms(3,4) by (auto simp: good_def split: if_splits)
  then have g: "grows b c" by (simp add: good_def)
  show ?thesis
  proof (cases r)
    case None
    then show ?thesis using assms(1) rc s by (auto simp: find_parent_def)
  next
    case (Some p)
    have p: "p < length (b_nodes c)" "get_type c p = DIR" using s Some by (auto simp: good_def)
    obtain d where d: "rescan f p c = Inr d" "x = (Some p, d)"
      using assms(1) rc Some by (auto simp: find_parent_def)
    have gd: "grows c d" by (rule rescan_grows [OF d(1) grows_wf [OF g] p(1)])
    have "good c {DIR} x" using d(2) gd grows_node [OF gd p(1)] p(2) by (simp add: good_def)
    then show ?thesis by (rule good_trans [OF g])
  qed
qed

text \<open>Both operations go on from the parent: what they do there.\<close>

lemma from_parent_good:
  assumes "find_parent f lst n b = Inr (r, c)" "wf_tree b" "n < length (b_nodes b)" "get_type b n = DIR"
    "r = None \<Longrightarrow> x = (None, c)"
    "\<And>p. r = Some p \<Longrightarrow> wf_tree c \<Longrightarrow> p < length (b_nodes c) \<Longrightarrow> get_type c p = DIR \<Longrightarrow> good c tps x"
  shows "good b tps x"
proof -
  have s: "good b {DIR} (r, c)" by (rule find_parent_good [OF assms(1-4)])
  then have g: "grows b c" by (simp add: good_def)
  have "good c tps x"
  proof (cases r)
    case None
    then show ?thesis using assms(5) grows_refl [OF grows_wf [OF g]] by (simp add: good_def)
  next
    case (Some p)
    then show ?thesis using assms(6) s g by (auto simp: good_def intro: grows_wf)
  qed
  then show ?thesis by (rule good_trans [OF g])
qed

lemma find_resource_good:
  assumes "find_resource f lst n b = Inr x" "wf_tree b" "n < length (b_nodes b)" "get_type b n = DIR"
  shows "good b {FILE, BUILD} x"
proof -
  obtain r c where rc: "find_parent f lst n b = Inr (r, c)" using assms(1) by (auto simp: find_resource_def)
  show ?thesis
  proof (rule from_parent_good [OF rc assms(2-4)])
    show "r = None \<Longrightarrow> x = (None, c)" using assms(1) rc by (simp add: find_resource_def)
    fix p assume p: "r = Some p" "wf_tree c" "p < length (b_nodes c)"
    have ne: "lst \<noteq> []" using assms(1) rc p(1) by (auto simp: find_resource_def)
    obtain m where m: "get_child c p (last lst) = Inr m" using assms(1) rc p(1) ne by (auto simp: find_resource_def Let_def)
    have none: "good d {FILE, BUILD} (None, d)" if "wf_tree d" for d using grows_refl [OF that] by (simp add: good_def)
    show "good c {FILE, BUILD} x"
    proof (cases m)
      case (Some k)
      then have "x = (if get_type c k = FILE \<or> get_type c k = BUILD then Some k else None, c)"
        using assms(1) rc p(1) ne m by (simp add: find_resource_def Let_def)
      then show ?thesis using get_child_Some(1) [OF m [unfolded Some] p(2,3)] grows_refl [OF p(2)] by (auto simp: good_def)
    next
      case None
      obtain l where l: "map_of (cache_dir_contents c) (n_id (nd c p)) = Some l"
        using assms(1) rc p(1) ne m None by (auto simp: find_resource_def Let_def split: option.splits)
      obtain pp d where d: "abspath_src p c = (pp, d)" by fastforce
      have g: "grows c d" by (rule abspath_src_grows(1) [OF d p(2)])
      have e: "Inr x = (if last lst \<notin> set l then Inr (None, c)
          else case fs_hash f (pp @ ''/'' @ last lst) of
                 None \<Rightarrow> Inr (None, d)
               | Some h \<Rightarrow> rbind (new_node (last lst) (Some p) FILE d) (\<lambda>(m, b). Inr (Some m, set_sig Source (n_id (nd b m)) (Some h) b)))"
        using assms(1) rc p(1) ne m None l d
        by (cases "last lst \<in> set l") (simp_all add: find_resource_def Let_def)
      show ?thesis
      proof (cases "last lst \<in> set l \<and> fs_hash f (pp @ ''/'' @ last lst) \<noteq> None")
        case True
        then obtain h where h: "fs_hash f (pp @ ''/'' @ last lst) = Some h" by auto
        then obtain k q where k: "new_node (last lst) (Some p) FILE d = Inr (k, q)" "x = (Some k, set_sig Source (n_id (nd q k)) (Some h) q)"
          using e True by (auto simp: rbind_def split: sum.splits)
        have gq: "good d {FILE, BUILD} (Some k, q)"
          by (rule new_node_good [OF k(1) grows_wf [OF g] grows_node(1) [OF g p(3)]]) simp_all
        then have wq: "grows d q" "k < length (b_nodes q)" "get_type q k \<in> {FILE, BUILD}" by (auto simp: good_def)
        have gs: "grows q (snd x)" unfolding k(2) using grows_set_sig [OF grows_wf [OF wq(1)]] by simp
        have "good c {FILE, BUILD} x"
          using grows_trans [OF grows_trans [OF g wq(1)] gs] grows_node [OF gs wq(2)] wq(3) k(2) by (simp add: good_def)
        then show ?thesis .
      next
        case False
        then have "x = (None, c) \<or> x = (None, d)" using e by (auto split: if_splits option.splits)
        then show ?thesis using none [OF p(2)] good_trans [OF g none [OF grows_wf [OF g]]] by auto
      qed
    qed
  qed
qed

lemma find_or_declare_good:
  assumes "find_or_declare f lst n b = Inr x" "wf_tree b" "n < length (b_nodes b)" "get_type b n = DIR"
  shows "good b {BUILD} x"
proof -
  obtain r c where rc: "find_parent f lst n b = Inr (r, c)" using assms(1) by (auto simp: find_or_declare_def)
  show ?thesis
  proof (rule from_parent_good [OF rc assms(2-4)])
    show "r = None \<Longrightarrow> x = (None, c)" using assms(1) rc by (simp add: find_or_declare_def)
    fix p assume p: "r = Some p" "wf_tree c" "p < length (b_nodes c)"
    have ne: "lst \<noteq> []" using assms(1) rc p(1) by (auto simp: find_or_declare_def)
    obtain m where m: "get_child c p (last lst) = Inr m" using assms(1) rc p(1) ne by (auto simp: find_or_declare_def)
    show "good c {BUILD} x"
    proof (cases m)
      case (Some k)
      then have "x = (Some k, c)" "get_type c k = BUILD"
        using assms(1) rc p(1) ne m by (auto simp: find_or_declare_def split: if_splits)
      then show ?thesis using get_child_Some(1) [OF m [unfolded Some] p(2,3)] grows_refl [OF p(2)] by (auto simp: good_def)
    next
      case None
      then obtain k q where "new_node (last lst) (Some p) BUILD c = Inr (k, q)" "x = (Some k, q)"
        using assms(1) rc p(1) ne m by (auto simp: find_or_declare_def)
      then show ?thesis using new_node_good [OF _ p(2,3)] by simp
    qed
  qed
qed

text \<open>\<open>ensure_dir_node_from_path\<close> goes through a child of any type; below a file it raises \<open>AttributeError\<close>.\<close>

lemma ensure_dir_grows:
  assumes "ensure_dir_node_from_path names cur b = Inr (m, b')" "wf_tree b" "cur < length (b_nodes b)"
  shows "grows b b' \<and> m < length (b_nodes b')"
  using assms
proof (induction names arbitrary: cur b)
  case Nil
  then show ?case using grows_refl by auto
next
  case (Cons name names)
  have up: "(case n_parent (nd b cur) of None \<Rightarrow> cur | Some p \<Rightarrow> p) < length (b_nodes b)"
    using parent_dir(1) [OF Cons.prems(2,3)] Cons.prems(3) by (auto split: option.split)
  show ?case
  proof (cases "name = [] \<or> name = ''.'' \<or> name = ''..''")
    case True
    then show ?thesis using Cons.IH [OF _ Cons.prems(2)] Cons.prems up by (auto split: if_splits)
  next
    case False
    then obtain c where c: "get_child b cur name = Inr c" using Cons.prems(1) by auto
    show ?thesis
    proof (cases c)
      case (Some k)
      then show ?thesis using Cons.IH [OF _ Cons.prems(2), of k] get_child_Some(1) [OF c [unfolded Some] Cons.prems(2,3)]
          Cons.prems(1) False c by simp
    next
      case None
      then obtain k d where k: "new_node name (Some cur) DIR b = Inr (k, d)" "ensure_dir_node_from_path names k d = Inr (m, b')"
        using Cons.prems(1) False c by auto
      note n = new_node_grows [OF k(1) Cons.prems(2,3) DIR_less(1)]
      show ?thesis using Cons.IH [OF k(2) grows_wf [OF n(1)] n(2)] grows_trans [OF n(1)] by blast
    qed
  qed
qed

lemma exclusive_build_node_grows:
  assumes "exclusive_build_node f path n b = Inr (m, b')" "wf_tree b" "n < length (b_nodes b)" "get_type b n = DIR"
  shows "grows b b' \<and> m < length (b_nodes b')"
proof -
  let ?l = "split_path path"
  obtain p c where pc: "(if length ?l > 1 then
       rbind (find_dir f (butlast ?l) n b) (\<lambda>(r, b).
         rbind (case r of None \<Rightarrow> ensure_dir_node_from_path (butlast ?l) n b | Some p \<Rightarrow> Inr (p, b)) (\<lambda>(p, b).
           rbind (rescan f p b) (\<lambda>b. Inr (p, b))))
     else Inr (n, b)) = Inr (p, c)"
    using assms(1) by (auto simp: exclusive_build_node_def Let_def)
  have g: "grows b c \<and> p < length (b_nodes c)"
  proof (cases "length ?l > 1")
    case True
    then obtain r d where rd: "find_dir f (butlast ?l) n b = Inr (r, d)" using pc by auto
    have "good b {DIR} (r, d)" by (rule find_dir_good [OF rd assms(2-4)])
    then have gd: "grows b d" "\<And>q. r = Some q \<Longrightarrow> q < length (b_nodes d)" by (auto simp: good_def)
    obtain e where e: "(case r of None \<Rightarrow> ensure_dir_node_from_path (butlast ?l) n d | Some p \<Rightarrow> Inr (p, d)) = Inr (p, e)"
      "rescan f p e = Inr c"
      using pc True rd by (auto split: option.splits)
    have ge: "grows d e \<and> p < length (b_nodes e)"
      using e(1) gd(2) ensure_dir_grows [OF _ grows_wf [OF gd(1)] grows_node(1) [OF gd(1) assms(3)]] grows_refl [OF grows_wf [OF gd(1)]]
      by (auto split: option.splits)
    then have gc: "grows e c" using rescan_grows [OF e(2) grows_wf] by blast
    show ?thesis using grows_trans [OF grows_trans [OF gd(1)] gc] ge grows_node(1) [OF gc] by blast
  next
    case False
    then show ?thesis using pc assms(2,3) grows_refl by auto
  qed
  then have w: "wf_tree c" "p < length (b_nodes c)" using grows_wf by auto
  obtain k where k: "get_child c p (last ?l) = Inr k" using assms(1) pc by (auto simp: exclusive_build_node_def Let_def)
  have "grows c b' \<and> m < length (b_nodes b')"
  proof (cases k)
    case (Some q)
    then have "m = q" "b' = c" using assms(1) pc k by (auto simp: exclusive_build_node_def Let_def)
    then show ?thesis using get_child_Some(1) [OF k [unfolded Some] w] grows_refl [OF w(1)] by simp
  next
    case None
    then have "new_node (last ?l) (Some p) BUILD c = Inr (m, b')" using assms(1) pc k by (auto simp: exclusive_build_node_def Let_def)
    then show ?thesis using new_node_grows(1,2) [OF _ w] by simp
  qed
  then show ?thesis using g grows_trans by blast
qed

text \<open>The operations on the tree.\<close>

datatype tree_op =
    Rescan nat
  | FindDir "string list" nat
  | FindResource "string list" nat
  | FindOrDeclare "string list" nat
  | EnsureDir "string list" nat
  | ExclusiveBuild string nat
  | ChangeExt string nat

fun tree_step :: "fs \<Rightarrow> tree_op \<Rightarrow> build \<Rightarrow> build res" where
  "tree_step f (Rescan n) b = rescan f n b"
| "tree_step f (FindDir l n) b = rbind (find_dir f l n b) (\<lambda>x. Inr (snd x))"
| "tree_step f (FindResource l n) b = rbind (find_resource f l n b) (\<lambda>x. Inr (snd x))"
| "tree_step f (FindOrDeclare l n) b = rbind (find_or_declare f l n b) (\<lambda>x. Inr (snd x))"
| "tree_step f (EnsureDir l n) b = rbind (ensure_dir_node_from_path l n b) (\<lambda>x. Inr (snd x))"
| "tree_step f (ExclusiveBuild p n) b = rbind (exclusive_build_node f p n b) (\<lambda>x. Inr (snd x))"
| "tree_step f (ChangeExt e n) b = rbind (change_ext f e n b) (\<lambda>x. Inr (snd x))"

fun op_node :: "tree_op \<Rightarrow> nat" where
  "op_node (Rescan n) = n"
| "op_node (FindDir l n) = n"
| "op_node (FindResource l n) = n"
| "op_node (FindOrDeclare l n) = n"
| "op_node (EnsureDir l n) = n"
| "op_node (ExclusiveBuild p n) = n"
| "op_node (ChangeExt e n) = n"

text \<open>The operations are called on folders, \<open>change_ext\<close> on any node.\<close>

definition op_ok :: "tree_op \<Rightarrow> build \<Rightarrow> bool" where
  "op_ok op b \<longleftrightarrow> op_node op < length (b_nodes b) \<and>
     (case op of ChangeExt e n \<Rightarrow> True | _ \<Rightarrow> get_type b (op_node op) = DIR)"

lemma change_ext_good:
  assumes "change_ext f ext n b = Inr x" "wf_tree b" "n < length (b_nodes b)"
  shows "good b {BUILD} x"
proof -
  obtain p where p: "n_parent (nd b n) = Some p"
    "find_or_declare f [change_ext_name (n_name (nd b n)) ext] p b = Inr x"
    using assms(1) by (auto simp: change_ext_def with_parent_def split: option.splits)
  show ?thesis by (rule find_or_declare_good [OF p(2) assms(2) parent_dir [OF assms(2,3) p(1)]])
qed

lemma tree_step_grows:
  assumes "tree_step f op b = Inr b'" "wf_tree b" "op_ok op b"
  shows "grows b b'"
  using assms find_dir_good find_resource_good find_or_declare_good change_ext_good rescan_grows ensure_dir_grows
    exclusive_build_node_grows
  by (cases op) (fastforce simp: op_ok_def good_def)+

subsection \<open>What a scan leaves\<close>

lemma node_path_cong:
  assumes "\<And>n. n_name (nd b' n) = n_name (nd b n) \<and> n_parent (nd b' n) = n_parent (nd b n)"
    "srcnode b' = srcnode b" "bldnode b' = bldnode b"
  shows "node_path b' = node_path b" "src_path b' = src_path b"
proof -
  have h: "height b' n = height b n" for n
  proof (induction n rule: less_induct)
    case (less n)
    then show ?case using assms(1) by (simp add: height.simps [of b n] height.simps [of b' n] split: option.split)
  qed
  have u: "names_up b' k n = names_up b k n" for k n
    using assms(1) by (induction k arbitrary: n) (auto split: option.split)
  have s: "src_path b' n = src_path b n" for n
  proof (induction n rule: less_induct)
    case (less n)
    then show ?case using assms(1) by (simp add: src_path.simps [of b n] src_path.simps [of b' n] split: option.split)
  qed
  then show "src_path b' = src_path b" by (simp add: fun_eq_iff)
  show "node_path b' = node_path b"
    by (simp add: fun_eq_iff node_path_def bld_path_def path_to_parent_def h u s assms(2,3) split: variant.split)
qed

lemma del_child_fields:
  assumes "p < length (b_nodes b)"
  shows "n_name (nd (del_child p name b) n) = n_name (nd b n)" "n_parent (nd (del_child p name b) n) = n_parent (nd b n)"
    "n_id (nd (del_child p name b) n) = n_id (nd b n)" "node_sigs (del_child p name b) = node_sigs b"
    "length (b_nodes (del_child p name b)) = length (b_nodes b)" "srcnode (del_child p name b) = srcnode b"
    "bldnode (del_child p name b) = bldnode b" "cache_node_abspath (del_child p name b) = cache_node_abspath b"
    "cache_scanned_folders (del_child p name b) = cache_scanned_folders b"
    "n_childs (nd b p) \<noteq> None \<Longrightarrow> get_child (del_child p name b) p k = (if k = name then Inr None else get_child b p k)"
  using assms by (auto simp: del_child_def set_node_def nth_list_update get_child_def delete_conv' split: option.splits)

lemma cache_ok_cong:
  assumes "cache_ok b" "\<And>n. n_name (nd b' n) = n_name (nd b n) \<and> n_parent (nd b' n) = n_parent (nd b n) \<and> n_id (nd b' n) = n_id (nd b n)"
    "srcnode b' = srcnode b" "bldnode b' = bldnode b" "length (b_nodes b') = length (b_nodes b)"
    "cache_node_abspath b' = cache_node_abspath b"
  shows "cache_ok b'"
proof -
  have "node_path b' = node_path b" by (rule node_path_cong) (use assms in auto)
  then show ?thesis using assms by (simp add: cache_ok_def cached_def)
qed

text \<open>The state a scan of folder \<open>n\<close> may be in: names, parents and ids of the nodes are those of \<open>b\<close>.\<close>

definition scan_inv :: "build \<Rightarrow> nat \<Rightarrow> build \<Rightarrow> bool" where
  "scan_inv b n s \<longleftrightarrow> wf_tree s \<and> cache_ok s \<and> length (b_nodes s) = length (b_nodes b) \<and> n_childs (nd s n) \<noteq> None \<and>
     srcnode s = srcnode b \<and> bldnode s = bldnode b \<and>
     (\<forall>m. n_name (nd s m) = n_name (nd b m) \<and> n_parent (nd s m) = n_parent (nd b m) \<and> n_id (nd s m) = n_id (nd b m))"

lemma scan_inv_type: "scan_inv b n s \<Longrightarrow> get_type s m = get_type b m"
  by (simp add: scan_inv_def get_type_def)

lemma scan_inv_path: "scan_inv b n s \<Longrightarrow> src_path s = src_path b"
  by (rule node_path_cong(2)) (auto simp: scan_inv_def)

lemma rescan_child_effect:
  assumes "rescan_child f n lst y s = Inr s'" "scan_inv b n s" "n < length (b_nodes b)" "y < length (b_nodes b)"
  shows "scan_inv b n s'" "cache_scanned_folders s' = cache_scanned_folders s"
    "k \<noteq> n_name (nd b y) \<Longrightarrow> get_child s' n k = get_child s n k"
    "i \<noteq> n_id (nd b y) \<Longrightarrow> node_sigs s' Source i = node_sigs s Source i"
    "get_type b y \<noteq> FILE \<Longrightarrow> s' = s"
    "get_type b y = FILE \<Longrightarrow> n_name (nd b y) \<in> set lst \<Longrightarrow>
       get_child s' n (n_name (nd b y)) = get_child s n (n_name (nd b y)) \<and>
       (\<exists>h. fs_hash f (src_path b y) = Some h \<and> node_sigs s' Source (n_id (nd b y)) = Some h)"
    "get_type b y = FILE \<Longrightarrow> n_name (nd b y) \<notin> set lst \<Longrightarrow>
       get_child s' n (n_name (nd b y)) = Inr None \<and> node_sigs s' Source (n_id (nd b y)) = None"
proof -
  have ty: "get_type s y = get_type b y" by (rule scan_inv_type [OF assms(2)])
  have nm: "n_name (nd s y) = n_name (nd b y)" "n_id (nd s y) = n_id (nd b y)" "n_childs (nd s n) \<noteq> None"
    "wf_tree s" "cache_ok s" "n < length (b_nodes s)" "y < length (b_nodes s)"
    using assms(2-4) by (auto simp: scan_inv_def)
  have "scan_inv b n s' \<and> cache_scanned_folders s' = cache_scanned_folders s \<and>
    (\<forall>k. k \<noteq> n_name (nd b y) \<longrightarrow> get_child s' n k = get_child s n k) \<and>
    (\<forall>i. i \<noteq> n_id (nd b y) \<longrightarrow> node_sigs s' Source i = node_sigs s Source i) \<and>
    (get_type b y \<noteq> FILE \<longrightarrow> s' = s) \<and>
    (get_type b y = FILE \<longrightarrow> n_name (nd b y) \<in> set lst \<longrightarrow>
       get_child s' n (n_name (nd b y)) = get_child s n (n_name (nd b y)) \<and>
       (\<exists>h. fs_hash f (src_path b y) = Some h \<and> node_sigs s' Source (n_id (nd b y)) = Some h)) \<and>
    (get_type b y = FILE \<longrightarrow> n_name (nd b y) \<notin> set lst \<longrightarrow>
       get_child s' n (n_name (nd b y)) = Inr None \<and> node_sigs s' Source (n_id (nd b y)) = None)"
  proof (cases "get_type b y = FILE")
    case False
    then show ?thesis using assms(1,2) ty by (simp add: rescan_child_def)
  next
    case isf: True
    show ?thesis
    proof (cases "n_name (nd b y) \<in> set lst")
      case True
      obtain p c where c: "abspath_src y s = (p, c)" by fastforce
      note a = abspath_src_correct [OF nm(4,5,7)] and g = abspath_src_grows [OF c nm(4)]
      have p: "p = src_path b y" "cache_ok c" using a c scan_inv_path [OF assms(2)] by auto
      obtain h where h: "fs_hash f p = Some h" "s' = set_sig Source (n_id (nd c y)) (Some h) c"
        using assms(1) isf True ty nm(1) c by (auto simp: rescan_child_def split: option.splits)
      have ci: "scan_inv b n c" using assms(2) p(2) g grows_wf by (auto simp: scan_inv_def)
      have "scan_inv b n s'" unfolding scan_inv_def
      proof (intro conjI)
        have "wf_tree c" using ci by (simp add: scan_inv_def)
        then show "wf_tree s'" unfolding h(2) by (rule grows_wf [OF grows_set_sig])
        show "cache_ok s'" by (rule cache_ok_cong [OF p(2)]) (simp_all add: h(2) set_sig_def)
      qed (use ci h(2) in \<open>simp_all add: scan_inv_def set_sig_def\<close>)
      moreover have "get_child s' n k = get_child s n k" for k using h(2) g(2) by (simp add: get_child_def set_sig_def)
      moreover have "n_id (nd c y) = n_id (nd b y)" using g(2) nm(2) by simp
      moreover have "cache_scanned_folders s' = cache_scanned_folders s" using h(2) g(5) by (simp add: set_sig_def)
      ultimately show ?thesis using h p(1) g(3) isf True by (auto simp: set_sig_def)
    next
      case False
      let ?c = "set_sig Source (n_id (nd s y)) None s"
      have s': "s' = del_child n (n_name (nd s y)) ?c" using assms(1) isf False ty nm(1) by (simp add: rescan_child_def)
      have l: "n < length (b_nodes ?c)" "n_childs (nd ?c n) \<noteq> None" using nm by (simp_all add: set_sig_def)
      note d = del_child_fields [OF l(1), of "n_name (nd s y)"]
      have sf: "length (b_nodes s') = length (b_nodes s)" "srcnode s' = srcnode s" "bldnode s' = bldnode s"
        "n_name (nd s' m) = n_name (nd s m)" "n_parent (nd s' m) = n_parent (nd s m)" "n_id (nd s' m) = n_id (nd s m)" for m
        unfolding s' using d by simp_all
      have gc: "grows s ?c" by (rule grows_set_sig [OF nm(4)])
      have gd: "grows ?c s'" unfolding s' by (rule del_child_grows [OF grows_wf [OF gc] l])
      have ok: "cache_ok ?c" by (rule cache_ok_cong [OF nm(5)]) (simp_all add: set_sig_def)
      have "scan_inv b n s'" unfolding scan_inv_def
      proof (intro conjI)
        show "wf_tree s'" using gd by (rule grows_wf)
        show "cache_ok s'" by (rule cache_ok_cong [OF ok]) (simp_all add: s' d)
        show "n_childs (nd s' n) \<noteq> None" using grows_node(2) [OF gd l(1)] l(2) by simp
      qed (use assms(2) sf in \<open>auto simp: scan_inv_def\<close>)
      moreover have "get_child s' n k = (if k = n_name (nd b y) then Inr None else get_child s n k)" for k
        using d(10) [OF l(2), of k] s' nm(1) by (simp add: get_child_def set_sig_def)
      moreover have "node_sigs s' Source i = (if i = n_id (nd b y) then None else node_sigs s Source i)" for i
        using s' d(4) nm(2) by (simp add: set_sig_def)
      moreover have "cache_scanned_folders s' = cache_scanned_folders s" using s' d(9) by (simp add: set_sig_def)
      ultimately show ?thesis using isf False by simp
    qed
  qed
  then show "scan_inv b n s'" "cache_scanned_folders s' = cache_scanned_folders s"
    "k \<noteq> n_name (nd b y) \<Longrightarrow> get_child s' n k = get_child s n k"
    "i \<noteq> n_id (nd b y) \<Longrightarrow> node_sigs s' Source i = node_sigs s Source i"
    "get_type b y \<noteq> FILE \<Longrightarrow> s' = s"
    "get_type b y = FILE \<Longrightarrow> n_name (nd b y) \<in> set lst \<Longrightarrow>
       get_child s' n (n_name (nd b y)) = get_child s n (n_name (nd b y)) \<and>
       (\<exists>h. fs_hash f (src_path b y) = Some h \<and> node_sigs s' Source (n_id (nd b y)) = Some h)"
    "get_type b y = FILE \<Longrightarrow> n_name (nd b y) \<notin> set lst \<Longrightarrow>
       get_child s' n (n_name (nd b y)) = Inr None \<and> node_sigs s' Source (n_id (nd b y)) = None" by blast+
qed

text \<open>What the loop over the children has done for the child \<open>x\<close>.\<close>

definition synced :: "fs \<Rightarrow> string list \<Rightarrow> build \<Rightarrow> nat \<Rightarrow> nat \<Rightarrow> build \<Rightarrow> bool" where
  "synced f lst b n x s \<longleftrightarrow>
     (if n_name (nd b x) \<in> set lst
      then get_child s n (n_name (nd b x)) = Inr (Some x) \<and>
        (\<exists>h. fs_hash f (src_path b x) = Some h \<and> node_sigs s Source (n_id (nd b x)) = Some h)
      else get_child s n (n_name (nd b x)) = Inr None \<and> node_sigs s Source (n_id (nd b x)) = None)"

lemma each_rescan_effect:
  assumes "each (rescan_child f n lst) ys s = Inr s'" "scan_inv b n s" "n < length (b_nodes b)"
    "\<And>y. y \<in> set ys \<Longrightarrow> y < length (b_nodes b)" "distinct (map (\<lambda>y. n_name (nd b y)) ys)" "distinct (map (\<lambda>y. n_id (nd b y)) ys)"
    "\<And>y. y \<in> set ys \<Longrightarrow> get_child s n (n_name (nd b y)) = Inr (Some y)"
  shows "scan_inv b n s' \<and> cache_scanned_folders s' = cache_scanned_folders s \<and>
    (\<forall>k. k \<notin> (\<lambda>y. n_name (nd b y)) ` set ys \<longrightarrow> get_child s' n k = get_child s n k) \<and>
    (\<forall>i. i \<notin> (\<lambda>y. n_id (nd b y)) ` set ys \<longrightarrow> node_sigs s' Source i = node_sigs s Source i) \<and>
    (\<forall>x \<in> set ys. get_type b x = FILE \<longrightarrow> synced f lst b n x s')"
  using assms
proof (induction ys arbitrary: s)
  case (Cons y ys)
  obtain t where t: "rescan_child f n lst y s = Inr t" "each (rescan_child f n lst) ys t = Inr s'" using Cons.prems(1) by auto
  note e = rescan_child_effect [OF t(1) Cons.prems(2,3)]
  have y: "y < length (b_nodes b)" using Cons.prems(4) by simp
  have d: "n_name (nd b y) \<notin> (\<lambda>y. n_name (nd b y)) ` set ys" "n_id (nd b y) \<notin> (\<lambda>y. n_id (nd b y)) ` set ys"
    using Cons.prems(5,6) by auto
  have ih: "scan_inv b n s' \<and> cache_scanned_folders s' = cache_scanned_folders t \<and>
    (\<forall>k. k \<notin> (\<lambda>y. n_name (nd b y)) ` set ys \<longrightarrow> get_child s' n k = get_child t n k) \<and>
    (\<forall>i. i \<notin> (\<lambda>y. n_id (nd b y)) ` set ys \<longrightarrow> node_sigs s' Source i = node_sigs t Source i) \<and>
    (\<forall>x \<in> set ys. get_type b x = FILE \<longrightarrow> synced f lst b n x s')"
  proof (rule Cons.IH [OF t(2) e(1) [OF y] Cons.prems(3)])
    fix z assume z: "z \<in> set ys"
    then have "n_name (nd b z) \<noteq> n_name (nd b y)" using d(1) by (metis (mono_tags, lifting) image_eqI)
    then show "get_child t n (n_name (nd b z)) = Inr (Some z)" using e(3) [OF y] Cons.prems(7) z by simp
  qed (use Cons.prems(4-6) in auto)
  have "synced f lst b n y s'" if ft: "get_type b y = FILE"
  proof -
    have "get_child s' n (n_name (nd b y)) = get_child t n (n_name (nd b y))"
      "node_sigs s' Source (n_id (nd b y)) = node_sigs t Source (n_id (nd b y))" using ih d by auto
    moreover have "get_child s n (n_name (nd b y)) = Inr (Some y)" using Cons.prems(7) by simp
    ultimately show ?thesis using e(6) [OF y ft] e(7) [OF y ft] by (simp add: synced_def)
  qed
  then show ?case using ih e(2-4) [OF y] by auto
qed simp

lemma fold_sig_source: "node_sigs (fold (\<lambda>x b. set_sig (Variant v) (n_id (nd b x)) None b) xs b) Source = node_sigs b Source"
  by (induction xs arbitrary: b) (simp_all add: set_sig_def)

lemma list_variants_source:
  "list_variants f cs sub vs b = (b', ok) \<Longrightarrow> node_sigs b' Source = node_sigs b Source"
proof (induction vs arbitrary: b)
  case (Cons v vs)
  show ?case
  proof (cases "listdir_bld f cs (sub v) v b")
    case (Some c)
    then obtain xs where "c = fold (\<lambda>x b. set_sig (Variant v) (n_id (nd b x)) None b) xs b"
      by (auto simp: listdir_bld_def Let_def split: option.splits)
    then show ?thesis using Cons.IH [of c] Cons.prems Some fold_sig_source [of v xs b] by simp
  qed (use Cons.prems in simp)
qed simp

lemma fold_forget_effect:
  assumes "n < length (b_nodes b)" "n_childs (nd b n) \<noteq> None" "\<And>y. y \<in> set ys \<Longrightarrow> get_type b y = BUILD \<Longrightarrow> n_name (nd b y) \<noteq> k \<and> n_id (nd b y) \<noteq> i"
  shows "get_child (fold (forget_build n) ys b) n k = get_child b n k \<and>
    node_sigs (fold (forget_build n) ys b) v i = node_sigs b v i \<and>
    cache_scanned_folders (fold (forget_build n) ys b) = cache_scanned_folders b"
  using assms
proof (induction ys arbitrary: b)
  case (Cons y ys)
  let ?b = "forget_build n y b"
  let ?c = "b\<lparr>node_sigs := (\<lambda>v. (node_sigs b v)(n_id (nd b y) := None))\<rparr>"
  have l: "n < length (b_nodes ?c)" "n_childs (nd ?c n) \<noteq> None" using Cons.prems by simp_all
  note d = del_child_fields [OF l(1), of "n_name (nd b y)"]
  have f: "n_name (nd ?b m) = n_name (nd b m)" "n_id (nd ?b m) = n_id (nd b m)" "length (b_nodes ?b) = length (b_nodes b)" for m
    using d by (auto simp: forget_build_def)
  have c: "n_childs (nd ?b n) \<noteq> None"
    using Cons.prems by (simp add: forget_build_def del_child_def set_node_def)
  have ty: "get_type ?b m = get_type b m" for m using f by (simp add: get_type_def)
  have "get_child ?b n k = get_child b n k \<and> node_sigs ?b v i = node_sigs b v i \<and> cache_scanned_folders ?b = cache_scanned_folders b"
  proof (cases "get_type b y = BUILD")
    case True
    then have ne: "n_name (nd b y) \<noteq> k" "n_id (nd b y) \<noteq> i" using Cons.prems(3) [of y] by simp_all
    have "get_child ?c n k = get_child b n k" by (simp add: get_child_def)
    then show ?thesis using True ne d(4,9) d(10) [OF l(2), of k] by (auto simp: forget_build_def)
  qed (simp add: forget_build_def)
  moreover have "get_child (fold (forget_build n) ys ?b) n k = get_child ?b n k \<and>
    node_sigs (fold (forget_build n) ys ?b) v i = node_sigs ?b v i \<and>
    cache_scanned_folders (fold (forget_build n) ys ?b) = cache_scanned_folders ?b"
    by (rule Cons.IH) (use Cons.prems f c ty in auto)
  ultimately show ?case by simp
qed simp

lemma scan_variants_effect:
  assumes "wf_tree b" "n < length (b_nodes b)" "child_nodes b n = Inr cs" "x < length (b_nodes b)" "n_parent (nd b x) = Some n"
    "get_child b n (n_name (nd b x)) = Inr None \<or> get_child b n (n_name (nd b x)) = Inr (Some x)" "get_type b x \<noteq> BUILD"
  shows "get_child (scan_variants f n names cs b) n (n_name (nd b x)) = get_child b n (n_name (nd b x))"
    "node_sigs (scan_variants f n names cs b) Source (n_id (nd b x)) = node_sigs b Source (n_id (nd b x))"
    "cache_scanned_folders (scan_variants f n names cs b) = cache_scanned_folders b"
proof -
  obtain ch where ch: "n_childs (nd b n) = Some ch" "cs = map snd ch" using assms(3) by (auto simp: child_nodes_def split: option.splits)
  obtain bp c where c: "abspath_src (bldnode b) b = (bp, c)" by fastforce
  let ?sub = "\<lambda>v. path_join (bp # v # rev names)"
  obtain d ok where d: "list_variants f cs ?sub (lst_variants c) c = (d, ok)" by fastforce
  note a = abspath_src_grows [OF c assms(1)] and l = list_variants_nodes [OF d] and s = list_variants_source [OF d]
  have nodes: "b_nodes d = b_nodes b" using l a(2) by simp
  have "n_name (nd b y) \<noteq> n_name (nd b x) \<and> n_id (nd b y) \<noteq> n_id (nd b x)" if y: "y \<in> set cs" "get_type b y = BUILD" for y
  proof -
    have yc: "(n_name (nd b y), y) \<in> set ch" "y < length (b_nodes b)"
      using y(1) ch wf_childs(2) [OF assms(1,2) ch(1)] by auto
    then have "map_of ch (n_name (nd b y)) = Some y" using wf_childs(1) [OF assms(1,2) ch(1)] by (simp add: map_of_is_SomeI)
    then have "get_child b n (n_name (nd b y)) = Inr (Some y)" using ch by (simp add: get_child_def)
    moreover have "y \<noteq> x" using y(2) assms(7) by auto
    ultimately show ?thesis using assms(6) wf_ids [OF assms(1) yc(2) assms(4)] by auto
  qed
  then have fg: "get_child (fold (forget_build n) cs d) n (n_name (nd b x)) = get_child d n (n_name (nd b x)) \<and>
    node_sigs (fold (forget_build n) cs d) Source (n_id (nd b x)) = node_sigs d Source (n_id (nd b x)) \<and>
    cache_scanned_folders (fold (forget_build n) cs d) = cache_scanned_folders d"
    by (intro fold_forget_effect) (use nodes assms(2) ch in \<open>auto simp: get_type_def\<close>)
  have sv: "scan_variants f n names cs b = (if ok then d else (fold (forget_build n) cs d)\<lparr>made_dirs :=
      made_dirs (fold (forget_build n) cs d) @ map ?sub (lst_variants (fold (forget_build n) cs d))\<rparr>)"
    using c d by (simp add: scan_variants_def Let_def)
  have gd: "get_child d n (n_name (nd b x)) = get_child b n (n_name (nd b x))" using nodes by (simp add: get_child_def)
  show "get_child (scan_variants f n names cs b) n (n_name (nd b x)) = get_child b n (n_name (nd b x))"
    "node_sigs (scan_variants f n names cs b) Source (n_id (nd b x)) = node_sigs b Source (n_id (nd b x))"
    "cache_scanned_folders (scan_variants f n names cs b) = cache_scanned_folders b"
    using fg sv gd s l a(3,5) by (auto simp: get_child_def)
qed

lemma start_scan_effect:
  assumes "start_scan f n b = (lst, b')" "wf_tree b" "cache_ok b" "n < length (b_nodes b)"
  shows "lst = (case fs_listdir f (src_path b n) of None \<Rightarrow> [] | Some l \<Rightarrow> l)" "cache_ok b'" "b_nodes b' = b_nodes b"
    "srcnode b' = srcnode b" "bldnode b' = bldnode b" "wf_tree b'" "n_id (nd b n) \<in> set (cache_scanned_folders b')"
proof -
  let ?b0 = "b\<lparr>cache_scanned_folders := n_id (nd b n) # cache_scanned_folders b\<rparr>"
  obtain path b1 where b1: "abspath_src n ?b0 = (path, b1)" by fastforce
  have g0: "grows b ?b0" by (rule grows_same [OF assms(2)]) simp_all
  have ok0: "cache_ok ?b0" by (rule cache_ok_cong [OF assms(3)]) simp_all
  note a = abspath_src_grows [OF b1 grows_wf [OF g0]]
    and c = abspath_src_correct [OF grows_wf [OF g0] ok0, of n]
  have sp: "src_path ?b0 = src_path b" by (rule node_path_cong(2)) simp_all
  have b': "b' = b1\<lparr>cache_dir_contents := AList.update (n_id (nd b1 n)) lst (cache_dir_contents b1)\<rparr>"
    "lst = (case fs_listdir f path of None \<Rightarrow> [] | Some l \<Rightarrow> l)"
    using assms(1) b1 by (auto simp: start_scan_def Let_def)
  show "lst = (case fs_listdir f (src_path b n) of None \<Rightarrow> [] | Some l \<Rightarrow> l)" using b'(2) c b1 assms(4) sp by simp
  have "cache_ok b1" using c b1 assms(4) by simp
  then show "cache_ok b'" by (rule cache_ok_cong) (simp_all add: b'(1))
  show "b_nodes b' = b_nodes b" "srcnode b' = srcnode b" "bldnode b' = bldnode b" using b'(1) a by simp_all
  show "wf_tree b'" by (rule grows_wf [OF start_scan_grows(1) [OF assms(1,2)]])
  show "n_id (nd b n) \<in> set (cache_scanned_folders b')" by (rule start_scan_grows(2) [OF assms(1,2)])
qed

text \<open>C10: after a scan of a folder every source file that was known in it and is in the listing is still there,
  with the hash of its present contents as its signature; one that is not in the listing is gone, and its
  signature with it.\<close>

theorem rescan_synchronises:
  assumes "rescan f n b = Inr b'" "wf_tree b" "cache_ok b" "n < length (b_nodes b)"
    "n_id (nd b n) \<notin> set (cache_scanned_folders b)" "get_child b n name = Inr (Some x)" "get_type b x = FILE"
  shows "if name \<in> set (case fs_listdir f (src_path b n) of None \<Rightarrow> [] | Some l \<Rightarrow> l)
    then get_child b' n name = Inr (Some x) \<and>
      (\<exists>h. fs_hash f (src_path b x) = Some h \<and> node_sigs b' Source (n_id (nd b x)) = Some h)
    else get_child b' n name = Inr None \<and> node_sigs b' Source (n_id (nd b x)) = None"
proof -
  obtain lst b1 cs b2 names cs' where s: "start_scan f n b = (lst, b1)" "child_nodes b1 n = Inr cs"
    "each (rescan_child f n lst) cs b1 = Inr b2" "child_nodes b2 n = Inr cs'" "b' = scan_variants f n names cs' b2"
    by (rule rescan_steps [OF assms(1,5)])
  note x = get_child_Some [OF assms(6,2,4)] and st = start_scan_effect [OF s(1) assms(2,3,4)]
  have lst: "lst = (case fs_listdir f (src_path b n) of None \<Rightarrow> [] | Some l \<Rightarrow> l)" by (rule st(1))
  obtain ch where ch: "n_childs (nd b n) = Some ch" "cs = map snd ch"
    using s(2) st(3) by (auto simp: child_nodes_def split: option.splits)
  note w = wf_childs [OF assms(2,4) ch(1)]
  have nm: "map (\<lambda>y. n_name (nd b y)) cs = map fst ch" using w(2) ch(2) by (auto simp: comp_def)
  have below: "y < length (b_nodes b)" if "y \<in> set cs" for y using that w(2) ch(2) by auto
  have i0: "scan_inv b n b1" using st ch(1) assms(2) by (auto simp: scan_inv_def)
  have dn: "distinct (map (\<lambda>y. n_name (nd b y)) cs)" using w(1) nm by simp
  then have dc: "distinct cs" by (simp add: distinct_map)
  have di: "distinct (map (\<lambda>y. n_id (nd b y)) cs)"
    using dc wf_ids [OF assms(2)] below by (auto simp: distinct_map inj_on_def)
  have gc: "get_child b1 n (n_name (nd b y)) = Inr (Some y)" if "y \<in> set cs" for y
    using that ch st(3) w by (force simp: get_child_def)
  have xc: "x \<in> set cs"
    using assms(6) ch by (auto simp: get_child_def dest!: map_of_SomeD intro: rev_image_eqI)
  have e: "scan_inv b n b2" "synced f lst b n x b2"
    using each_rescan_effect [OF s(3) i0 assms(4) below dn di gc] xc assms(7) by auto
  have i2: "wf_tree b2" "n < length (b_nodes b2)" "x < length (b_nodes b2)" "n_name (nd b2 x) = name" "n_id (nd b2 x) = n_id (nd b x)"
    "n_parent (nd b2 x) = Some n" "get_type b2 x \<noteq> BUILD"
    using e(1) assms(4) x scan_inv_type [OF e(1), of x] assms(7) by (auto simp: scan_inv_def node_types)
  have "get_child b2 n (n_name (nd b2 x)) = Inr None \<or> get_child b2 n (n_name (nd b2 x)) = Inr (Some x)"
    using e(2) x(2) i2(4) by (auto simp: synced_def split: if_splits)
  note v = scan_variants_effect [OF i2(1,2) s(4) i2(3,6) this i2(7), of f names]
  show ?thesis using e(2) v x(2) i2(4,5) s(5) unfolding synced_def lst [symmetric] by (simp split: if_splits)
qed

definition demo_fs :: fs where
  "demo_fs =
     \<lparr>fs_listdir = (\<lambda>p. if p = ''/src'' then Some [''main.c'', ''util.c''] else if p = ''/'' then Some [''src'', ''build''] else Some []),
      fs_hash = (\<lambda>p. if p = ''/src/main.c'' then Some ''h1'' else if p = ''/src/util.c'' then Some ''h2'' else None),
      fs_isdir = (\<lambda>p. p \<in> {''/src'', ''/build''})\<rparr>"

lemma demo_cache_ok: "cache_ok demo_build"
  by (simp add: cache_ok_def cached_def demo_build_def)

theorem rescan_synchronises_witness:
  "\<exists>b'. rescan demo_fs 1 demo_build = Inr b' \<and> node_sigs b' Source 18 = Some ''h1''"
proof -
  have "(case rescan demo_fs 1 demo_build of Inl e \<Rightarrow> False | Inr b' \<Rightarrow> True)" by code_simp
  then obtain b' where b': "rescan demo_fs 1 demo_build = Inr b'" by (auto split: sum.splits)
  have p: "src_path demo_build 1 = ''/src''" "src_path demo_build 3 = ''/src/main.c''" by code_simp+
  have "if ''main.c'' \<in> set (case fs_listdir demo_fs (src_path demo_build 1) of None \<Rightarrow> [] | Some l \<Rightarrow> l)
    then get_child b' 1 ''main.c'' = Inr (Some 3) \<and>
      (\<exists>h. fs_hash demo_fs (src_path demo_build 3) = Some h \<and> node_sigs b' Source (n_id (nd demo_build 3)) = Some h)
    else get_child b' 1 ''main.c'' = Inr None \<and> node_sigs b' Source (n_id (nd demo_build 3)) = None"
    by (rule rescan_synchronises [OF b' demo_wf demo_cache_ok])
      (simp_all add: demo_nodes get_child_def get_type_def FILE_def, simp add: demo_build_def)
  moreover have "''main.c'' \<in> set (case fs_listdir demo_fs (src_path demo_build 1) of None \<Rightarrow> [] | Some l \<Rightarrow> l)"
    unfolding p by (simp add: demo_fs_def)
  moreover have "fs_hash demo_fs (src_path demo_build 3) = Some ''h1''" "n_id (nd demo_build 3) = 18"
    unfolding p by (simp_all add: demo_fs_def demo_nodes)
  ultimately have "node_sigs b' Source 18 = Some ''h1''" by simp
  with b' show ?thesis by blast
qed

fun tree_run :: "fs \<Rightarrow> tree_op list \<Rightarrow> build \<Rightarrow> build res" where
  "tree_run f [] b = Inr b"
| "tree_run f (op # ops) b =
     (if op_ok op b then rbind (tree_step f op b) (tree_run f ops) else Inl Unmodelled)"

text \<open>C9: whatever operations look for, declare and drop nodes, in any order and for any state of the file
  system, the tree stays well-formed: every node has its own id, which fits its type, every child is
  registered in its parent under its own name, and no name leads to two nodes. Nodes that exist keep their
  name, parent and id.\<close>

theorem tree_stays_well_formed:
  assumes "tree_run f ops b = Inr b'" "wf_tree b"
  shows "wf_tree b' \<and> length (b_nodes b) \<le> length (b_nodes b') \<and>
    (\<forall>n < length (b_nodes b). n_name (nd b' n) = n_name (nd b n) \<and> n_parent (nd b' n) = n_parent (nd b n) \<and>
       n_id (nd b' n) = n_id (nd b n))"
proof -
  have "grows b b'" using assms
  proof (induction ops arbitrary: b)
    case Nil
    then show ?case using grows_refl by simp
  next
    case (Cons op ops)
    then obtain c where c: "op_ok op b" "tree_step f op b = Inr c" "tree_run f ops c = Inr b'" by (auto split: if_splits)
    have g: "grows b c" by (rule tree_step_grows [OF c(2) Cons.prems(2) c(1)])
    show ?case by (rule grows_trans [OF g Cons.IH [OF c(3) grows_wf [OF g]]])
  qed
  then show ?thesis by (auto simp: grows_def kept_def)
qed

theorem tree_stays_well_formed_witness:
  "\<exists>b'. tree_run demo_fs [FindResource [''src'', ''util.c''] 0, ChangeExt ''.o'' 3, FindOrDeclare [''main.o''] 1] demo_build = Inr b' \<and>
     length (b_nodes b') = 6 \<and> wf_tree b'"
proof -
  let ?ops = "[FindResource [''src'', ''util.c''] 0, ChangeExt ''.o'' 3, FindOrDeclare [''main.o''] 1]"
  have "(case tree_run demo_fs ?ops demo_build of Inl e \<Rightarrow> False | Inr b' \<Rightarrow> length (b_nodes b') = 6)" by code_simp
  then obtain b' where b': "tree_run demo_fs ?ops demo_build = Inr b'" "length (b_nodes b') = 6" by (auto split: sum.splits)
  from tree_stays_well_formed [OF b'(1) demo_wf] b' show ?thesis by blast
qed

lemma rescan_scanned:
  assumes "rescan f n b = Inr b'" "wf_tree b" "cache_ok b" "n < length (b_nodes b)"
  shows "n_id (nd b n) \<in> set (cache_scanned_folders b')"
proof (cases "n_id (nd b n) \<in> set (cache_scanned_folders b)")
  case True
  then show ?thesis using assms(1) by (simp add: rescan_def)
next
  case False
  obtain lst b1 cs b2 names cs' where s: "start_scan f n b = (lst, b1)" "child_nodes b1 n = Inr cs"
    "each (rescan_child f n lst) cs b1 = Inr b2" "child_nodes b2 n = Inr cs'" "b' = scan_variants f n names cs' b2"
    by (rule rescan_steps [OF assms(1) False])
  note st = start_scan_effect [OF s(1) assms(2-4)]
  have i0: "scan_inv b n b1" using st s(2) assms(2) by (auto simp: scan_inv_def child_nodes_def split: option.splits)
  obtain ch where ch: "n_childs (nd b n) = Some ch" "cs = map snd ch"
    using s(2) st(3) by (auto simp: child_nodes_def split: option.splits)
  have b2: "scan_inv b n b2 \<and> cache_scanned_folders b2 = cache_scanned_folders b1"
  proof (rule each_inv [where I = "\<lambda>s. scan_inv b n s \<and> cache_scanned_folders s = cache_scanned_folders b1", OF s(3)])
    show "scan_inv b n b1 \<and> cache_scanned_folders b1 = cache_scanned_folders b1" using i0 by simp
    fix x t t' assume x: "x \<in> set cs" "scan_inv b n t \<and> cache_scanned_folders t = cache_scanned_folders b1"
      "rescan_child f n lst x t = Inr t'"
    have "x < length (b_nodes b)" using x(1) ch wf_childs(2) [OF assms(2,4) ch(1)] by auto
    then show "scan_inv b n t' \<and> cache_scanned_folders t' = cache_scanned_folders b1"
      using rescan_child_effect(1,2) [OF x(3) _ assms(4)] x(2) by simp
  qed
  obtain bp c where c: "abspath_src (bldnode b2) b2 = (bp, c)" by fastforce
  let ?sub = "\<lambda>v. path_join (bp # v # rev names)"
  obtain d ok where d: "list_variants f cs' ?sub (lst_variants c) c = (d, ok)" by fastforce
  have "wf_tree b2" using b2 by (simp add: scan_inv_def)
  note a = abspath_src_grows [OF c this] and l = list_variants_nodes [OF d]
  have "cache_scanned_folders (fold (forget_build n) ys e) = cache_scanned_folders e" for ys e
    by (induction ys arbitrary: e) (simp_all add: forget_build_def del_child_def set_node_def)
  then have "cache_scanned_folders b' = cache_scanned_folders b2"
    using s(5) c d a(5) l by (simp add: scan_variants_def Let_def)
  then show ?thesis using b2 st(7) by simp
qed

text \<open>A file declared twice is one node: when \<open>find_or_declare\<close> has returned a node for a name, a second call
  returns the same node and changes nothing.\<close>

theorem find_or_declare_once:
  assumes "find_or_declare f [name] n b = Inr (Some m, b')" "wf_tree b" "cache_ok b" "n < length (b_nodes b)" "get_type b n = DIR"
  shows "find_or_declare f [name] n b' = Inr (Some m, b')"
proof -
  obtain c where c: "rescan f n b = Inr c" using assms(1) by (auto simp: find_or_declare_def find_parent_def)
  have g: "grows b c" by (rule rescan_grows [OF c assms(2,4)])
  have sc: "n_id (nd b n) \<in> set (cache_scanned_folders c)" by (rule rescan_scanned [OF c assms(2-4)])
  obtain k where k: "get_child c n name = Inr k" using assms(1) c by (auto simp: find_or_declare_def find_parent_def)
  have "get_child b' n name = Inr (Some m) \<and> get_type b' m = BUILD \<and> n_id (nd b' n) \<in> set (cache_scanned_folders b')"
  proof (cases k)
    case (Some q)
    then have "m = q" "b' = c" "get_type c q = BUILD" using assms(1) c k by (auto simp: find_or_declare_def find_parent_def split: if_splits)
    then show ?thesis using k Some sc grows_node(5) [OF g assms(4)] by simp
  next
    case None
    then have nn: "new_node name (Some n) BUILD c = Inr (m, b')"
      using assms(1) c k by (auto simp: find_or_declare_def find_parent_def)
    note w = new_node_grows [OF nn grows_wf [OF g] grows_node(1) [OF g assms(4)] DIR_less(3)]
    show ?thesis using w(5-7) sc grows_node(5) [OF g assms(4)] grows_node(5) [OF w(1) grows_node(1) [OF g assms(4)]] by simp
  qed
  then show ?thesis by (simp add: find_or_declare_def find_parent_def rescan_def)
qed

theorem find_or_declare_once_witness:
  "\<exists>b'. find_or_declare demo_fs [''main.o''] 1 demo_build = Inr (Some 4, b') \<and>
     find_or_declare demo_fs [''main.o''] 1 b' = Inr (Some 4, b')"
proof -
  have "(case find_or_declare demo_fs [''main.o''] 1 demo_build of Inl e \<Rightarrow> False | Inr x \<Rightarrow> fst x = Some 4)" by code_simp
  then obtain b' where b': "find_or_declare demo_fs [''main.o''] 1 demo_build = Inr (Some 4, b')" by (auto split: sum.splits)
  have "find_or_declare demo_fs [''main.o''] 1 b' = Inr (Some 4, b')"
    by (rule find_or_declare_once [OF b' demo_wf demo_cache_ok]) (simp_all add: demo_nodes get_type_def DIR_def)
  with b' show ?thesis by blast
qed

end
