(* ===== verification/WafTask.thy ===== *)
theory WafTask
  imports WafScan WafEnv WafRunner
begin

section \<open>Waf: signatures of tasks\<close>

text \<open>
  \<open>Task\<close> of \<open>src/tools/wafadmin/Task.py\<close>: how a task decides whether it has to run. The digest of a sequence of
  updates of an md5 object is that of the joined text, so the object \<open>self.m\<close> is the text fed to it so far, and
  the hash function is an argument \<open>H\<close>. What a scanner returns and whether an output file exists after the run
  are arguments too. Absolute paths are computed without the cache, which is transparent
  (\<open>abspath_cache_transparent\<close> of \<open>WafNode\<close>). A raise keeps the changes made before it, so an operation returns
  the result or the exception together with the state.
\<close>

type_synonym sig = string
type_synonym sigs = "sig \<times> sig \<times> sig \<times> sig"

definition SIG_NIL :: sig where "SIG_NIL = ''iluvcuteoverload''"

text \<open>A manual dependency: a node, a function (by its result) or a value.\<close>

datatype man_dep = NodeDep nat | FunDep sig | ValueDep sig

record tbuild =
  tb :: build
  task_sigs :: "string \<Rightarrow> sigs option"
  node_deps :: "string \<Rightarrow> nat list option"
  raw_deps :: "string \<Rightarrow> string list option"
  deps_man :: "(nat \<times> man_dep list) list"
  cache_sig_vars :: "((nat \<times> string list) \<times> sig) list"

text \<open>A task: its class, its nodes, the variables it depends on, its environment (a number, its variant and the
  text of its variables), and whether its class has a scanner. \<open>k_cache_sig\<close> is the attribute \<open>cache_sig\<close>.\<close>

record ktask =
  k_class :: string
  k_inputs :: "nat list"
  k_outputs :: "nat list"
  k_dep_nodes :: "nat list"
  k_deps_nodes :: "nat list"
  k_vars :: "string list"
  k_dep_vars :: "string list"
  k_env :: nat
  k_variant :: string
  k_env_str :: "string \<Rightarrow> string"
  k_scan :: bool
  k_cache_sig :: "sigs option"

text \<open>The arguments of the model.\<close>

record targs =
  a_hash :: "string \<Rightarrow> sig"
  a_fs :: fs
  a_scan :: "ktask \<Rightarrow> tbuild \<Rightarrow> nat list \<times> string list"
  a_exists :: "nat \<Rightarrow> bool"             \<comment> \<open>\<open>os.stat\<close> of an output finds it\<close>

type_synonym 'a tm = "tbuild \<Rightarrow> 'a res \<times> tbuild"

definition tret :: "'a \<Rightarrow> 'a tm" where "tret a B = (Inr a, B)"
definition traise :: "py_error \<Rightarrow> 'a tm" where "traise e B = (Inl e, B)"

definition tbind :: "'a tm \<Rightarrow> ('a \<Rightarrow> 'b tm) \<Rightarrow> 'b tm" where
  "tbind x g B = (case x B of (Inl e, B) \<Rightarrow> (Inl e, B) | (Inr a, B) \<Rightarrow> g a B)"

lemma tm_simps [simp]:
  "tret a B = (Inr a, B)" "traise e B = (Inl e, B)"
  by (simp_all add: tret_def traise_def)

lemma tbind_Inr [simp]: "x B = (Inr a, B') \<Longrightarrow> tbind x g B = g a B'"
  by (simp add: tbind_def)

lemma tbind_Inl [simp]: "x B = (Inl e, B') \<Longrightarrow> tbind x g B = (Inl e, B')"
  by (simp add: tbind_def)

text \<open>\<open>bld.rescan(x.parent)\<close>, with and without the test that the caller makes first.\<close>

definition rescan_parent :: "targs \<Rightarrow> nat \<Rightarrow> unit tm" where
  "rescan_parent A x B =
     (case n_parent (nd (tb B) x) of
        None \<Rightarrow> (Inl AttributeError, B)
      | Some p \<Rightarrow>
          (case rescan (a_fs A) p (tb B) of
             Inl e \<Rightarrow> (Inl e, B)
           | Inr b \<Rightarrow> (Inr (), B\<lparr>tb := b\<rparr>)))"

text \<open>\<open>bld.node_sigs[variant][x.id]\<close>.\<close>

definition node_sig :: "build \<Rightarrow> variant \<Rightarrow> nat \<Rightarrow> sig option" where
  "node_sig b v x = node_sigs b v (n_id (nd b x))"

definition missing_sig :: py_error where
  "missing_sig = WafError ''Missing node signature''"

definition env_of :: "ktask \<Rightarrow> string option" where "env_of t = Some (k_variant t)"

subsection \<open>Explicit dependencies\<close>

text \<open>Every loop feeds the object \<open>m\<close>; here it returns the text fed.\<close>

fun feed_inputs :: "targs \<Rightarrow> ktask \<Rightarrow> nat list \<Rightarrow> string \<Rightarrow> string tm" where
  "feed_inputs A t [] m = tret m"
| "feed_inputs A t (x # xs) m =
     tbind (rescan_parent A x) (\<lambda>_ B.
       case node_sig (tb B) (node_variant (tb B) x (env_of t)) x of
         None \<Rightarrow> (Inl missing_sig, B)
       | Some s \<Rightarrow> feed_inputs A t xs (m @ s) B)"

fun feed_manual :: "targs \<Rightarrow> ktask \<Rightarrow> man_dep list \<Rightarrow> string \<Rightarrow> string tm" where
  "feed_manual A t [] m = tret m"
| "feed_manual A t (NodeDep x # ds) m =
     tbind (rescan_parent A x) (\<lambda>_ B.
       case node_sig (tb B) (node_variant (tb B) x (env_of t)) x of
         None \<Rightarrow> (Inl missing_sig, B)
       | Some s \<Rightarrow> feed_manual A t ds (m @ s) B)"
| "feed_manual A t (FunDep s # ds) m = feed_manual A t ds (m @ s)"
| "feed_manual A t (ValueDep s # ds) m = feed_manual A t ds (m @ s)"

definition manual_deps :: "ktask \<Rightarrow> tbuild \<Rightarrow> man_dep list" where
  "manual_deps t B =
     concat (map (\<lambda>x. case map_of (deps_man B) (n_id (nd (tb B) x)) of None \<Rightarrow> [] | Some d \<Rightarrow> d)
       (k_inputs t @ k_outputs t))"

fun feed_deps_nodes :: "ktask \<Rightarrow> nat list \<Rightarrow> string \<Rightarrow> string tm" where
  "feed_deps_nodes t [] m = tret m"
| "feed_deps_nodes t (x # xs) m =
     (\<lambda>B. case node_sig (tb B) (node_variant (tb B) x (env_of t)) x of
            None \<Rightarrow> (Inl KeyError, B)
          | Some s \<Rightarrow> feed_deps_nodes t xs (m @ s) B)"

definition sig_explicit_deps :: "targs \<Rightarrow> ktask \<Rightarrow> string \<Rightarrow> string tm" where
  "sig_explicit_deps A t m =
     tbind (feed_inputs A t (k_inputs t @ k_dep_nodes t) m) (\<lambda>m.
     tbind (\<lambda>B. feed_manual A t (manual_deps t B) m B) (\<lambda>m.
     feed_deps_nodes t (k_deps_nodes t) m))"

subsection \<open>Variables\<close>

text \<open>\<open>hash_env_vars\<close> of the build context. The key of its cache is the identity of the environment and the
  names.\<close>

definition hash_env_vars :: "targs \<Rightarrow> ktask \<Rightarrow> string list \<Rightarrow> sig tm" where
  "hash_env_vars A t vs B =
     (case map_of (cache_sig_vars B) (k_env t, vs) of
        Some s \<Rightarrow> (Inr s, B)
      | None \<Rightarrow>
          let s = a_hash A (repr (CList (map (\<lambda>v. AStr (k_env_str t v)) vs)))
          in (Inr s, B\<lparr>cache_sig_vars := ((k_env t, vs), s) # cache_sig_vars B\<rparr>))"

definition sig_vars :: "targs \<Rightarrow> ktask \<Rightarrow> string \<Rightarrow> string tm" where
  "sig_vars A t m =
     tbind (hash_env_vars A t (k_vars t)) (\<lambda>s.
       if k_dep_vars t \<noteq> [] then tbind (hash_env_vars A t (k_dep_vars t)) (\<lambda>s'. tret (m @ s @ s'))
       else tret (m @ s))"

subsection \<open>The identity of a task\<close>

text \<open>\<open>unique_id\<close>: the path of a folder is fed when it differs from that of the node before. (The root is no
  input or output.)\<close>

fun uid_nodes :: "build \<Rightarrow> nat option \<Rightarrow> nat list \<Rightarrow> string" where
  "uid_nodes b p [] = []"
| "uid_nodes b p (x # xs) =
     (case n_parent (nd b x) of
        None \<Rightarrow> n_name (nd b x) @ uid_nodes b p xs
      | Some q \<Rightarrow>
          if p \<noteq> Some (n_id (nd b q))
          then src_path b q @ n_name (nd b x) @ uid_nodes b (Some (n_id (nd b q))) xs
          else n_name (nd b x) @ uid_nodes b p xs)"

definition unique_id :: "targs \<Rightarrow> ktask \<Rightarrow> build \<Rightarrow> string" where
  "unique_id A t b = a_hash A (k_class t @ k_variant t @ uid_nodes b None (k_inputs t @ k_outputs t))"

subsection \<open>Implicit dependencies\<close>

fun feed_implicit :: "targs \<Rightarrow> ktask \<Rightarrow> nat list \<Rightarrow> string \<Rightarrow> string tm" where
  "feed_implicit A t [] m = tret m"
| "feed_implicit A t (k # ks) m =
     tbind (rescan_parent A k) (\<lambda>_ B.
       case node_sig (tb B) (if get_type (tb B) k = FILE then Source else Variant (k_variant t)) k of
         None \<Rightarrow> (Inl KeyError, B)
       | Some s \<Rightarrow> feed_implicit A t ks (m @ s) B)"

definition compute_sig_implicit_deps :: "targs \<Rightarrow> ktask \<Rightarrow> string \<Rightarrow> string tm" where
  "compute_sig_implicit_deps A t m B =
     feed_implicit A t (case node_deps B (unique_id A t (tb B)) of None \<Rightarrow> [] | Some ks \<Rightarrow> ks) m B"

definition missing_implicit :: py_error where
  "missing_implicit = WafError ''Missing node signature (for implicit dependencies)''"

definition sig_implicit_deps :: "targs \<Rightarrow> ktask \<Rightarrow> string \<Rightarrow> string tm" where
  "sig_implicit_deps A t m B =
     (let key = unique_id A t (tb B) in
      case task_sigs B key of
        Some (p0, p1, p2, p3) \<Rightarrow>
          (let rescan' = (\<lambda>B. (Inl ValueError, B\<lparr>task_sigs := (task_sigs B)(key := None)\<rparr>)) in
           case compute_sig_implicit_deps A t m B of
             (Inr m', B') \<Rightarrow> if p2 = a_hash A m' then (Inr m', B') else rescan' B'
           | (Inl e, B') \<Rightarrow> if e = KeyError then rescan' B' else (Inl e, B'))
      | None \<Rightarrow>
          let (nodes, names) = a_scan A t B;
              B = B\<lparr>node_deps := (node_deps B)(key \<mapsto> nodes), raw_deps := (raw_deps B)(key \<mapsto> names)\<rparr>
          in (case compute_sig_implicit_deps A t m B of
                (Inl e, B') \<Rightarrow> if e = KeyError then (Inl missing_implicit, B') else (Inl e, B')
              | (Inr m', B') \<Rightarrow> (Inr m', B')))"

subsection \<open>The signature\<close>

text \<open>\<open>signature\<close> calls itself when \<open>sig_implicit_deps\<close> raises \<open>ValueError\<close>; the number bounds the calls.\<close>

definition make_sigs :: "targs \<Rightarrow> string \<Rightarrow> string \<Rightarrow> string \<Rightarrow> sig \<Rightarrow> sigs" where
  "make_sigs A m1 m2 m3 imp = (a_hash A m3, a_hash A m1, imp, a_hash A m2)"

fun compute_sigs :: "nat \<Rightarrow> targs \<Rightarrow> ktask \<Rightarrow> sigs tm" where
  "compute_sigs 0 A t = traise RecursionError"
| "compute_sigs (Suc n) A t =
     tbind (sig_explicit_deps A t []) (\<lambda>m1.
     tbind (sig_vars A t m1) (\<lambda>m2.
       if \<not> k_scan t then tret (make_sigs A m1 m2 m2 SIG_NIL)
       else (\<lambda>B.
         case sig_implicit_deps A t m2 B of
           (Inr m3, B') \<Rightarrow> (Inr (make_sigs A m1 m2 m3 (a_hash A m3)), B')
         | (Inl e, B') \<Rightarrow> if e = ValueError then compute_sigs n A t B' else (Inl e, B'))))"

definition signature :: "targs \<Rightarrow> ktask \<Rightarrow> (sig \<times> ktask) tm" where
  "signature A t =
     (case k_cache_sig t of
        Some (s, r) \<Rightarrow> tret (s, t)
      | None \<Rightarrow> tbind (compute_sigs 2 A t) (\<lambda>cs. tret (fst cs, t\<lparr>k_cache_sig := Some cs\<rparr>)))"

subsection \<open>Whether a task has to run\<close>

datatype status = ASK_LATER | SKIP_ME | RUN_ME

text \<open>The outputs: all have the signature.\<close>

definition outputs_current :: "ktask \<Rightarrow> sig \<Rightarrow> build \<Rightarrow> bool" where
  "outputs_current t s b \<longleftrightarrow>
     (\<forall>x \<in> set (k_outputs t). node_sig b (node_variant b x (env_of t)) x = Some s)"

text \<open>\<open>later\<close>: a task of \<open>run_after\<close> has not run.\<close>

definition runnable_status :: "targs \<Rightarrow> bool \<Rightarrow> ktask \<Rightarrow> (status \<times> ktask) tm" where
  "runnable_status A later t =
     (if later then tret (ASK_LATER, t)
      else tbind (signature A t) (\<lambda>(new_sig, t) B.
        (Inr (case task_sigs B (unique_id A t (tb B)) of
                None \<Rightarrow> RUN_ME
              | Some (prev_sig, r) \<Rightarrow>
                  if \<not> outputs_current t new_sig (tb B) then RUN_ME
                  else if new_sig \<noteq> prev_sig then RUN_ME
                  else SKIP_ME, t), B)))"

text \<open>The loop of \<open>post_run\<close> over the outputs: a missing one ends it, and what it has stored stays stored.\<close>

fun store_outputs :: "targs \<Rightarrow> ktask \<Rightarrow> sig \<Rightarrow> nat list \<Rightarrow> bool tm" where
  "store_outputs A t s [] = tret True"
| "store_outputs A t s (x # xs) =
     (\<lambda>B. if \<not> a_exists A x then (Inr False, B)
          else store_outputs A t s xs (B\<lparr>tb := set_sig (Variant (k_variant t)) (n_id (nd (tb B) x)) (Some s) (tb B)\<rparr>))"

text \<open>\<open>post_run\<close> up to the copies for the global cache. It raises \<open>WafError\<close> and marks the task as \<open>MISSING\<close> when an
  output does not exist.\<close>

definition missing_file :: py_error where "missing_file = WafError ''missing file''"

definition post_run :: "targs \<Rightarrow> ktask \<Rightarrow> ktask tm" where
  "post_run A t =
     tbind (signature A t) (\<lambda>(s, t).
     tbind (store_outputs A t s (k_outputs t)) (\<lambda>ok B.
       if \<not> ok then (Inl missing_file, B)
       else (Inr t, B\<lparr>task_sigs := (task_sigs B)(unique_id A t (tb B) := k_cache_sig t)\<rparr>)))"

text \<open>\<open>always_run\<close>: the signature is computed, the comparison is bypassed.\<close>

definition always_run :: "targs \<Rightarrow> bool \<Rightarrow> ktask \<Rightarrow> (status \<times> ktask) tm" where
  "always_run A later t = tbind (runnable_status A later t) (\<lambda>(st, t). tret (RUN_ME, t))"

text \<open>\<open>update_outputs\<close>: the outputs are hashed themselves. \<open>outhash\<close> is the hash of an output file.\<close>

definition update_post_run :: "targs \<Rightarrow> (nat \<Rightarrow> sig) \<Rightarrow> ktask \<Rightarrow> ktask tm" where
  "update_post_run A outhash t =
     tbind (post_run A t) (\<lambda>t B.
       if k_outputs t = [] then (Inl IndexError, B)
       else (Inr t, fold (\<lambda>x B. B\<lparr>tb := set_sig (Variant (k_variant t)) (n_id (nd (tb B) x)) (Some (outhash x)) (tb B)\<rparr>)
                      (k_outputs t) B))"

definition update_runnable_status :: "targs \<Rightarrow> bool \<Rightarrow> ktask \<Rightarrow> (status \<times> ktask) tm" where
  "update_runnable_status A later t =
     tbind (runnable_status A later t) (\<lambda>(st, t).
       if st \<noteq> RUN_ME then tret (st, t)
       else if k_outputs t = [] then tret (RUN_ME, t)
       else tbind (signature A t) (\<lambda>(new_sig, t) B.
         (Inr (case task_sigs B (unique_id A t (tb B)) of
                 None \<Rightarrow> RUN_ME
               | Some (prev_sig, r) \<Rightarrow>
                   if prev_sig = new_sig \<and>
                      (\<forall>x \<in> set (k_outputs t). node_sig (tb B) (Variant (k_variant t)) x \<noteq> None)
                   then SKIP_ME else RUN_ME, t), B)))"

text \<open>What \<open>debug_why\<close> prints: the kinds of dependency whose signatures differ.\<close>

definition debug_why :: "sigs \<Rightarrow> sigs \<Rightarrow> string list" where
  "debug_why old new =
     (case (old, new) of
        ((o0, o1, o2, o3), (n0, n1, n2, n3)) \<Rightarrow>
          (if n0 \<noteq> o0 then [''Task must run''] else []) @
          (if n1 \<noteq> o1 then [''* Source file or manual dependency''] else []) @
          (if n2 \<noteq> o2 then [''* Implicit dependency''] else []) @
          (if n3 \<noteq> o3 then [''* Environment variable''] else []))"

subsection \<open>What the computation of a signature leaves alone\<close>

definition nodes_ok :: "ktask \<Rightarrow> build \<Rightarrow> bool" where
  "nodes_ok t b \<longleftrightarrow> (\<forall>x \<in> set (k_inputs t @ k_outputs t). x < length (b_nodes b))"

lemma src_path_grows:
  assumes "grows b b'" "wf_tree b" "n < length (b_nodes b)"
  shows "src_path b' n = src_path b n"
  using assms(3)
proof (induction n rule: less_induct)
  case (less n)
  note k = grows_node [OF assms(1) less.prems]
  show ?case
  proof (cases "n_parent (nd b n)")
    case None
    then show ?thesis using k by (simp add: src_path.simps [of b n] src_path.simps [of b' n])
  next
    case (Some p)
    note w = wf_parent [OF assms(2) less.prems Some]
    show ?thesis using k Some grows_node(3) [OF assms(1) w(2)] less.IH [OF w(1,2)]
      by (simp add: src_path.simps [of b n] src_path.simps [of b' n])
  qed
qed

lemma uid_nodes_grows:
  assumes "grows b b'" "wf_tree b" "\<And>x. x \<in> set xs \<Longrightarrow> x < length (b_nodes b)"
  shows "uid_nodes b' p xs = uid_nodes b p xs"
  using assms(3)
proof (induction xs arbitrary: p)
  case (Cons x xs)
  have x: "x < length (b_nodes b)" using Cons.prems by simp
  note k = grows_node [OF assms(1) x]
  show ?case
  proof (cases "n_parent (nd b x)")
    case None
    then show ?thesis using Cons k by simp
  next
    case (Some q)
    note w = wf_parent(2) [OF assms(2) x Some]
    show ?thesis using Cons k Some grows_node(5) [OF assms(1) w] src_path_grows [OF assms(1,2) w] by simp
  qed
qed simp

lemma unique_id_grows:
  assumes "grows b b'" "wf_tree b" "nodes_ok t b"
  shows "unique_id A t b' = unique_id A t b" "nodes_ok t b'"
proof -
  have "uid_nodes b' None (k_inputs t @ k_outputs t) = uid_nodes b None (k_inputs t @ k_outputs t)"
    by (rule uid_nodes_grows [OF assms(1,2)]) (use assms(3) in \<open>auto simp: nodes_ok_def\<close>)
  then show "unique_id A t b' = unique_id A t b" by (simp add: unique_id_def)
  show "nodes_ok t b'" using assms(1,3) grows_node(1) [OF assms(1)] by (auto simp: nodes_ok_def)
qed

lemma unique_id_cong: "unique_id A (t\<lparr>k_cache_sig := c\<rparr>) b = unique_id A t b"
  by (simp add: unique_id_def)

text \<open>Only the tree (by scans) and the cache of variables change.\<close>

definition quiet :: "tbuild \<Rightarrow> tbuild \<Rightarrow> bool" where
  "quiet B B' \<longleftrightarrow> grows (tb B) (tb B') \<and> task_sigs B' = task_sigs B \<and> node_deps B' = node_deps B \<and>
     deps_man B' = deps_man B"

lemma quiet_refl: "wf_tree (tb B) \<Longrightarrow> quiet B B"
  by (simp add: quiet_def grows_refl)

lemma quiet_trans: "quiet A B \<Longrightarrow> quiet B C \<Longrightarrow> quiet A C"
  using grows_trans by (auto simp: quiet_def)

lemma quiet_wf: "quiet B B' \<Longrightarrow> wf_tree (tb B')"
  by (simp add: quiet_def grows_def)

lemma rescan_error:
  assumes "rescan f n b = Inl e"
  shows "e = AttributeError \<or> e = not_readable"
proof -
  obtain lst c where c: "start_scan f n b = (lst, c)" by fastforce
  have each: "each (rescan_child f n lst) ys s = Inl e \<Longrightarrow> e = not_readable" for ys s
    by (induction ys arbitrary: s)
      (auto simp: rescan_child_def Let_def split: if_splits option.splits prod.splits)
  have names: "names_up s k m = Inl e \<Longrightarrow> e = AttributeError" for s k m
    by (induction k arbitrary: m) (auto split: option.splits if_splits)
  have childs: "child_nodes s m = Inl e \<Longrightarrow> e = AttributeError" for s m
    by (auto simp: child_nodes_def split: option.splits)
  show ?thesis using assms c each names childs by (auto simp: rescan_def split: if_splits)
qed

text \<open>The errors the computation of a signature may end with.\<close>

definition expected :: "'a res \<Rightarrow> bool" where
  "expected r \<longleftrightarrow> (\<forall>e. r = Inl e \<longrightarrow> e \<in> {AttributeError, not_readable, missing_sig, KeyError, missing_implicit})"

lemma expected_simps [simp]:
  "expected (Inr a)" "expected (Inl AttributeError)" "expected (Inl not_readable)" "expected (Inl missing_sig)"
  "expected (Inl KeyError)" "expected (Inl missing_implicit)"
  "\<not> expected (Inl ValueError)" "\<not> expected (Inl RecursionError)"
  by (auto simp: expected_def not_readable_def missing_sig_def missing_implicit_def)

lemma expected_Inl: "expected (Inl e :: 'a res) \<longleftrightarrow> expected (Inl e :: 'b res)"
  by (simp add: expected_def)

lemma rescan_parent_quiet:
  assumes "rescan_parent A x B = (r, B')" "wf_tree (tb B)" "x < length (b_nodes (tb B))"
  shows "quiet B B'" "expected r"
proof -
  show "quiet B B'"
  proof (cases "n_parent (nd (tb B) x)")
    case None
    then show ?thesis using assms(1,2) quiet_refl by (auto simp: rescan_parent_def)
  next
    case (Some p)
    have p: "p < length (b_nodes (tb B))" using wf_parent(2) [OF assms(2,3) Some] .
    show ?thesis
      using assms(1,2) Some rescan_grows [OF _ assms(2) p] quiet_refl
      by (auto simp: rescan_parent_def quiet_def split: sum.splits)
  qed
  show "expected r"
    using assms(1) by (auto simp: rescan_parent_def split: option.splits sum.splits dest!: rescan_error)
qed

text \<open>The nodes a task's signature may read exist.\<close>

definition deps_ok :: "ktask \<Rightarrow> tbuild \<Rightarrow> bool" where
  "deps_ok t B \<longleftrightarrow> nodes_ok t (tb B) \<and>
     (\<forall>x \<in> set (k_dep_nodes t @ k_deps_nodes t). x < length (b_nodes (tb B))) \<and>
     (\<forall>d \<in> snd ` set (deps_man B). \<forall>x. NodeDep x \<in> set d \<longrightarrow> x < length (b_nodes (tb B))) \<and>
     (\<forall>k xs. node_deps B k = Some xs \<longrightarrow> (\<forall>x \<in> set xs. x < length (b_nodes (tb B))))"

lemma quiet_deps:
  assumes "quiet B B'" "deps_ok t B"
  shows "deps_ok t B'"
proof -
  have "length (b_nodes (tb B)) \<le> length (b_nodes (tb B'))" using assms(1) by (simp add: quiet_def grows_def)
  then have le: "x < length (b_nodes (tb B)) \<Longrightarrow> x < length (b_nodes (tb B'))" for x by simp
  have "deps_man B' = deps_man B" "node_deps B' = node_deps B" using assms(1) by (simp_all add: quiet_def)
  then show ?thesis using assms(2) le unfolding deps_ok_def nodes_ok_def by simp
qed

lemma manual_deps_ok:
  assumes "deps_ok t B" "NodeDep x \<in> set (manual_deps t B)"
  shows "x < length (b_nodes (tb B))"
proof -
  obtain y where "NodeDep x \<in> set (case map_of (deps_man B) (n_id (nd (tb B) y)) of None \<Rightarrow> [] | Some d \<Rightarrow> d)"
    using assms(2) by (auto simp: manual_deps_def)
  then obtain d where "map_of (deps_man B) (n_id (nd (tb B) y)) = Some d" "NodeDep x \<in> set d"
    by (cases "map_of (deps_man B) (n_id (nd (tb B) y))") auto
  then have "d \<in> snd ` set (deps_man B)" "NodeDep x \<in> set d" by (auto dest!: map_of_SomeD intro: rev_image_eqI)
  then show ?thesis using assms(1) by (auto simp: deps_ok_def)
qed

lemma feed_inputs_quiet:
  assumes "feed_inputs A t xs m B = (r, B')" "wf_tree (tb B)" "\<And>x. x \<in> set xs \<Longrightarrow> x < length (b_nodes (tb B))"
  shows "quiet B B' \<and> expected r"
  using assms
proof (induction xs arbitrary: m B)
  case Nil
  then show ?case using quiet_refl by auto
next
  case (Cons x xs)
  obtain q C where q: "rescan_parent A x B = (q, C)" by fastforce
  have qc: "quiet B C" "expected q" using rescan_parent_quiet [OF q Cons.prems(2)] Cons.prems(3) by simp_all
  have l: "\<And>y. y \<in> set xs \<Longrightarrow> y < length (b_nodes (tb C))"
    using Cons.prems(3) qc grows_node(1) by (fastforce simp: quiet_def)
  show ?case
  proof (cases q)
    case (Inl e)
    then show ?thesis using Cons.prems(1) q qc by (auto simp: expected_def)
  next
    case (Inr u)
    then show ?thesis
      using Cons.prems(1) q qc Cons.IH [OF _ quiet_wf [OF qc(1)] l] quiet_trans [OF qc(1)]
      by (auto split: option.splits)
  qed
qed

lemma feed_manual_quiet:
  assumes "feed_manual A t ds m B = (r, B')" "wf_tree (tb B)" "\<And>x. NodeDep x \<in> set ds \<Longrightarrow> x < length (b_nodes (tb B))"
  shows "quiet B B' \<and> expected r"
  using assms
proof (induction A t ds m arbitrary: B rule: feed_manual.induct)
  case (1 A t m)
  then show ?case using quiet_refl by auto
next
  case (2 A t x ds m)
  obtain q C where q: "rescan_parent A x B = (q, C)" by fastforce
  have qc: "quiet B C" "expected q" using rescan_parent_quiet [OF q 2(3)] 2(4) by simp_all
  have l: "\<And>y. NodeDep y \<in> set ds \<Longrightarrow> y < length (b_nodes (tb C))"
    using 2(4) qc grows_node(1) by (fastforce simp: quiet_def)
  show ?case
  proof (cases q)
    case (Inl e)
    then show ?thesis using 2(2) q qc by (auto simp: expected_def)
  next
    case (Inr u)
    then show ?thesis
      using 2(2) q qc 2(1) [OF _ _ quiet_wf [OF qc(1)] l] quiet_trans [OF qc(1)]
      by (auto split: option.splits)
  qed
qed auto

lemma feed_deps_nodes_same: "feed_deps_nodes t xs m B = (r, B') \<Longrightarrow> B' = B \<and> expected r"
  by (induction xs arbitrary: m) (auto split: option.splits)

lemma feed_implicit_quiet:
  assumes "feed_implicit A t xs m B = (r, B')" "wf_tree (tb B)" "\<And>x. x \<in> set xs \<Longrightarrow> x < length (b_nodes (tb B))"
  shows "quiet B B' \<and> expected r"
  using assms
proof (induction xs arbitrary: m B)
  case Nil
  then show ?case using quiet_refl by auto
next
  case (Cons x xs)
  obtain q C where q: "rescan_parent A x B = (q, C)" by fastforce
  have qc: "quiet B C" "expected q" using rescan_parent_quiet [OF q Cons.prems(2)] Cons.prems(3) by simp_all
  have l: "\<And>y. y \<in> set xs \<Longrightarrow> y < length (b_nodes (tb C))"
    using Cons.prems(3) qc grows_node(1) by (fastforce simp: quiet_def)
  show ?case
  proof (cases q)
    case (Inl e)
    then show ?thesis using Cons.prems(1) q qc by (auto simp: expected_def)
  next
    case (Inr u)
    then show ?thesis
      using Cons.prems(1) q qc Cons.IH [OF _ quiet_wf [OF qc(1)] l] quiet_trans [OF qc(1)]
      by (auto split: option.splits)
  qed
qed

lemma sig_vars_quiet:
  "sig_vars A t m B = (r, B') \<Longrightarrow> wf_tree (tb B) \<Longrightarrow> quiet B B' \<and> expected r"
  by (auto simp: sig_vars_def tbind_def hash_env_vars_def Let_def quiet_def grows_refl split: if_splits option.splits)

lemma sig_explicit_quiet:
  assumes "sig_explicit_deps A t m B = (r, B')" "wf_tree (tb B)" "deps_ok t B"
  shows "quiet B B' \<and> expected r"
proof -
  obtain q1 C1 where q1: "feed_inputs A t (k_inputs t @ k_dep_nodes t) m B = (q1, C1)" by fastforce
  have "quiet B C1 \<and> expected q1"
    by (rule feed_inputs_quiet [OF q1 assms(2)]) (use assms(3) in \<open>auto simp: deps_ok_def nodes_ok_def\<close>)
  then have c1: "quiet B C1" "expected q1" by simp_all
  show ?thesis
  proof (cases q1)
    case (Inl e)
    then show ?thesis using assms(1) q1 c1 by (auto simp: sig_explicit_deps_def)
  next
    case (Inr m1)
    obtain q2 C2 where q2: "feed_manual A t (manual_deps t C1) m1 C1 = (q2, C2)" by fastforce
    have "NodeDep x \<in> set (manual_deps t C1) \<Longrightarrow> x < length (b_nodes (tb C1))" for x
      by (rule manual_deps_ok [OF quiet_deps [OF c1(1) assms(3)]])
    then have "quiet C1 C2 \<and> expected q2" by (rule feed_manual_quiet [OF q2 quiet_wf [OF c1(1)]])
    then have c2: "quiet B C2" "expected q2" using quiet_trans [OF c1(1)] by blast+
    show ?thesis
    proof (cases q2)
      case (Inl e)
      then show ?thesis using assms(1) q1 q2 Inr c2 \<open>q1 = Inr m1\<close> by (auto simp: sig_explicit_deps_def)
    next
      case (Inr m2)
      then have "feed_deps_nodes t (k_deps_nodes t) m2 C2 = (r, B')"
        using assms(1) q1 q2 \<open>q1 = Inr m1\<close> by (simp add: sig_explicit_deps_def)
      then show ?thesis using feed_deps_nodes_same c2(1) by blast
    qed
  qed
qed

subsection \<open>The signature is computed in at most two rounds\<close>

text \<open>What is relied on of a scanner: the nodes it returns exist.\<close>

definition scan_ok :: "targs \<Rightarrow> bool" where
  "scan_ok A \<longleftrightarrow> (\<forall>t B. \<forall>x \<in> set (fst (a_scan A t B)). x < length (b_nodes (tb B)))"

lemma compute_implicit_quiet:
  assumes "compute_sig_implicit_deps A t m B = (r, B')" "wf_tree (tb B)" "deps_ok t B"
  shows "quiet B B' \<and> expected r"
proof (rule feed_implicit_quiet [OF assms(1) [unfolded compute_sig_implicit_deps_def] assms(2)])
  fix x
  assume "x \<in> set (case node_deps B (unique_id A t (tb B)) of None \<Rightarrow> [] | Some ks \<Rightarrow> ks)"
  then show "x < length (b_nodes (tb B))"
    using assms(3) by (cases "node_deps B (unique_id A t (tb B))") (auto simp: deps_ok_def)
qed

lemma scanned_deps_ok:
  assumes "deps_ok t B" "scan_ok A"
  shows "deps_ok t (B\<lparr>node_deps := (node_deps B)(key \<mapsto> fst (a_scan A t B)), raw_deps := rd\<rparr>)"
  using assms by (auto simp: deps_ok_def scan_ok_def)

lemma sig_implicit_fresh:
  assumes "task_sigs B (unique_id A t (tb B)) = None" "sig_implicit_deps A t m B = (r, B')"
    "wf_tree (tb B)" "deps_ok t B" "scan_ok A"
  shows "expected r" "grows (tb B) (tb B')" "task_sigs B' = task_sigs B"
proof -
  obtain nodes names where a: "a_scan A t B = (nodes, names)" by fastforce
  define C where "C = B\<lparr>node_deps := (node_deps B)(unique_id A t (tb B) \<mapsto> nodes),
                        raw_deps := (raw_deps B)(unique_id A t (tb B) \<mapsto> names)\<rparr>"
  obtain q D where q: "compute_sig_implicit_deps A t m C = (q, D)" by fastforce
  have "wf_tree (tb C)" "deps_ok t C" using assms(3) scanned_deps_ok [OF assms(4,5)] a by (simp_all add: C_def)
  then have c: "quiet C D" "expected q" using compute_implicit_quiet [OF q] by simp_all
  then have g: "grows (tb B) (tb D)" "task_sigs D = task_sigs B" by (simp_all add: quiet_def C_def)
  have "(r, B') = (case q of Inl e \<Rightarrow> if e = KeyError then Inl missing_implicit else Inl e | Inr m' \<Rightarrow> Inr m', D)"
    using assms(1,2) a q by (auto simp: sig_implicit_deps_def C_def split: sum.splits)
  then show "expected r" "grows (tb B) (tb B')" "task_sigs B' = task_sigs B"
    using c(2) g by (auto split: sum.splits)
qed


text \<open>One round of \<open>signature\<close>, and what it needs of the state.\<close>

lemma round_cases:
  assumes "wf_tree (tb B)" "deps_ok t B"
  obtains (err) r C where "expected r" "quiet B C" "\<And>n. compute_sigs (Suc n) A t B = (r, C)"
  | (imp) m1 m2 C where "quiet B C"
      "\<And>n. compute_sigs (Suc n) A t B =
         (case sig_implicit_deps A t m2 C of
            (Inr m3, B') \<Rightarrow> (Inr (make_sigs A m1 m2 m3 (a_hash A m3)), B')
          | (Inl e, B') \<Rightarrow> if e = ValueError then compute_sigs n A t B' else (Inl e, B'))"
proof -
  obtain q1 C1 where q1: "sig_explicit_deps A t [] B = (q1, C1)" by fastforce
  have c1: "quiet B C1" "expected q1" using sig_explicit_quiet [OF q1 assms] by simp_all
  show ?thesis
  proof (cases q1)
    case (Inl e)
    then show ?thesis using q1 c1 err [of "Inl e" C1] expected_Inl by fastforce
  next
    case i1: (Inr m1)
    obtain q2 C2 where q2: "sig_vars A t m1 C1 = (q2, C2)" by fastforce
    have c2: "quiet B C2" "expected q2"
      using sig_vars_quiet [OF q2 quiet_wf [OF c1(1)]] quiet_trans [OF c1(1)] by simp_all
    show ?thesis
    proof (cases q2)
      case (Inl e)
      then show ?thesis using q1 q2 i1 c2 err [of "Inl e" C2] expected_Inl by fastforce
    next
      case i2: (Inr m2)
      show ?thesis
      proof (cases "k_scan t")
        case True
        then show ?thesis using q1 q2 i1 i2 c2(1) imp by simp
      next
        case False
        then show ?thesis using q1 q2 i1 i2 c2(1) err [of "Inr (make_sigs A m1 m2 m2 SIG_NIL)" C2] by simp
      qed
    qed
  qed
qed

lemma round_fresh:
  assumes "task_sigs B (unique_id A t (tb B)) = None" "wf_tree (tb B)" "deps_ok t B" "scan_ok A"
  shows "\<exists>r C. expected r \<and> grows (tb B) (tb C) \<and> task_sigs C = task_sigs B \<and>
    (\<forall>n. compute_sigs (Suc n) A t B = (r, C))"
  using assms(2,3)
proof (cases rule: round_cases [where A = A])
  case (imp m1 m2 C)
  have w: "wf_tree (tb C)" "deps_ok t C" using quiet_wf [OF imp(1)] quiet_deps [OF imp(1) assms(3)] .
  have "unique_id A t (tb C) = unique_id A t (tb B)" "task_sigs C = task_sigs B"
    using imp(1) unique_id_grows(1) [OF _ assms(2)] assms(3) by (auto simp: quiet_def deps_ok_def)
  then have "task_sigs C (unique_id A t (tb C)) = None" using assms(1) by simp
  then have e: "expected q" "grows (tb C) (tb D)" "task_sigs D = task_sigs C"
    if "sig_implicit_deps A t m2 C = (q, D)" for q D
    using sig_implicit_fresh [OF _ that w assms(4)] by simp_all
  obtain q D where q: "sig_implicit_deps A t m2 C = (q, D)" by fastforce
  have g: "grows (tb B) (tb D)" "task_sigs D = task_sigs B"
    using e [OF q] imp(1) grows_trans by (auto simp: quiet_def)
  show ?thesis
  proof (cases q)
    case (Inl x)
    then show ?thesis using e(1) [OF q] g q imp(2) expected_Inl by (intro exI [of _ "Inl x"] exI [of _ D]) auto
  next
    case (Inr m3)
    then show ?thesis using q g imp(2)
      by (intro exI [of _ "Inr (make_sigs A m1 m2 m3 (a_hash A m3))"] exI [of _ D]) simp
  qed
qed (auto simp: quiet_def)


subsection \<open>A task is skipped when nothing it depends on has changed\<close>

text \<open>The reference: the signatures a task depends on, read off the build in one go.\<close>

definition scanned :: "tbuild \<Rightarrow> nat \<Rightarrow> bool" where
  "scanned B x \<longleftrightarrow>
     (case n_parent (nd (tb B) x) of None \<Rightarrow> False | Some p \<Rightarrow> n_id (nd (tb B) p) \<in> set (cache_scanned_folders (tb B)))"

fun dep_sig :: "ktask \<Rightarrow> tbuild \<Rightarrow> man_dep \<Rightarrow> sig option" where
  "dep_sig t B (NodeDep x) = node_sig (tb B) (node_variant (tb B) x (env_of t)) x"
| "dep_sig t B (FunDep s) = Some s"
| "dep_sig t B (ValueDep s) = Some s"

definition explicit_deps :: "ktask \<Rightarrow> tbuild \<Rightarrow> man_dep list" where
  "explicit_deps t B =
     map NodeDep (k_inputs t @ k_dep_nodes t) @ manual_deps t B @ map NodeDep (k_deps_nodes t)"

definition implicit_deps :: "targs \<Rightarrow> ktask \<Rightarrow> tbuild \<Rightarrow> man_dep list" where
  "implicit_deps A t B =
     (if k_scan t then map NodeDep (case node_deps B (unique_id A t (tb B)) of None \<Rightarrow> [] | Some ks \<Rightarrow> ks) else [])"

definition var_sig :: "targs \<Rightarrow> ktask \<Rightarrow> tbuild \<Rightarrow> string list \<Rightarrow> sig" where
  "var_sig A t B vs =
     (case map_of (cache_sig_vars B) (k_env t, vs) of
        Some s \<Rightarrow> s | None \<Rightarrow> a_hash A (repr (CList (map (\<lambda>v. AStr (k_env_str t v)) vs))))"

definition var_sigs :: "targs \<Rightarrow> ktask \<Rightarrow> tbuild \<Rightarrow> sig list" where
  "var_sigs A t B = var_sig A t B (k_vars t) # (if k_dep_vars t \<noteq> [] then [var_sig A t B (k_dep_vars t)] else [])"

definition dep_sigs :: "targs \<Rightarrow> ktask \<Rightarrow> tbuild \<Rightarrow> sig list" where
  "dep_sigs A t B =
     map (\<lambda>d. the (dep_sig t B d)) (explicit_deps t B) @ var_sigs A t B @
     map (\<lambda>d. the (dep_sig t B d)) (implicit_deps A t B)"

text \<open>The folders of the nodes are scanned and the nodes have signatures.\<close>

definition readable :: "targs \<Rightarrow> ktask \<Rightarrow> tbuild \<Rightarrow> bool" where
  "readable A t B \<longleftrightarrow>
     (\<forall>d \<in> set (explicit_deps t B @ implicit_deps A t B).
        dep_sig t B d \<noteq> None \<and> (case d of NodeDep x \<Rightarrow> scanned B x | _ \<Rightarrow> True))"

definition all_read :: "ktask \<Rightarrow> tbuild \<Rightarrow> man_dep list \<Rightarrow> bool" where
  "all_read t B ds \<longleftrightarrow>
     (\<forall>d \<in> set ds. dep_sig t B d \<noteq> None \<and> (case d of NodeDep x \<Rightarrow> scanned B x | _ \<Rightarrow> True))"

definition joined :: "ktask \<Rightarrow> tbuild \<Rightarrow> man_dep list \<Rightarrow> string" where
  "joined t B ds = concat (map (\<lambda>d. the (dep_sig t B d)) ds)"

lemma all_read_simps [simp]:
  "all_read t B []"
  "all_read t B (d # ds) \<longleftrightarrow>
     dep_sig t B d \<noteq> None \<and> (case d of NodeDep x \<Rightarrow> scanned B x | _ \<Rightarrow> True) \<and> all_read t B ds"
  "all_read t B (ds @ es) \<longleftrightarrow> all_read t B ds \<and> all_read t B es"
  by (auto simp: all_read_def)

lemma joined_simps [simp]:
  "joined t B [] = []" "joined t B (d # ds) = the (dep_sig t B d) @ joined t B ds"
  "joined t B (ds @ es) = joined t B ds @ joined t B es"
  by (simp_all add: joined_def)

lemma rescan_parent_scanned [simp]: "scanned B x \<Longrightarrow> rescan_parent A x B = (Inr (), B)"
  by (cases "n_parent (nd (tb B) x)") (simp_all add: scanned_def rescan_parent_def rescan_def)

lemma feed_inputs_value:
  "all_read t B (map NodeDep xs) \<Longrightarrow> feed_inputs A t xs m B = (Inr (m @ joined t B (map NodeDep xs)), B)"
  by (induction xs arbitrary: m) auto

lemma feed_manual_value: "all_read t B ds \<Longrightarrow> feed_manual A t ds m B = (Inr (m @ joined t B ds), B)"
  by (induction A t ds m rule: feed_manual.induct) auto

lemma feed_deps_nodes_value:
  "all_read t B (map NodeDep xs) \<Longrightarrow> feed_deps_nodes t xs m B = (Inr (m @ joined t B (map NodeDep xs)), B)"
  by (induction xs arbitrary: m) auto

lemma feed_implicit_value:
  "all_read t B (map NodeDep xs) \<Longrightarrow> feed_implicit A t xs m B = (Inr (m @ joined t B (map NodeDep xs)), B)"
  by (induction xs arbitrary: m) (auto simp: node_variant_def env_of_def)

lemma sig_explicit_value:
  "all_read t B (explicit_deps t B) \<Longrightarrow> sig_explicit_deps A t m B = (Inr (m @ joined t B (explicit_deps t B)), B)"
  by (simp add: sig_explicit_deps_def explicit_deps_def feed_inputs_value feed_manual_value feed_deps_nodes_value
      del: map_append)

lemma hash_env_vars_value:
  "\<exists>c. hash_env_vars A t vs B = (Inr (var_sig A t B vs), B\<lparr>cache_sig_vars := c\<rparr>) \<and>
     (\<forall>us. var_sig A t (B\<lparr>cache_sig_vars := c\<rparr>) us = var_sig A t B us)"
proof (cases "map_of (cache_sig_vars B) (k_env t, vs)")
  case (Some s)
  then show ?thesis by (intro exI [of _ "cache_sig_vars B"]) (simp add: hash_env_vars_def var_sig_def)
next
  case None
  then show ?thesis
    by (intro exI [of _ "((k_env t, vs), var_sig A t B vs) # cache_sig_vars B"])
      (auto simp: hash_env_vars_def var_sig_def Let_def)
qed

lemma sig_vars_value:
  "\<exists>c. sig_vars A t m B = (Inr (m @ concat (var_sigs A t B)), B\<lparr>cache_sig_vars := c\<rparr>)"
proof -
  obtain c where h: "hash_env_vars A t (k_vars t) B = (Inr (var_sig A t B (k_vars t)), B\<lparr>cache_sig_vars := c\<rparr>)"
     "\<And>vs. var_sig A t (B\<lparr>cache_sig_vars := c\<rparr>) vs = var_sig A t B vs"
    using hash_env_vars_value by blast
  obtain c' where h': "hash_env_vars A t (k_dep_vars t) (B\<lparr>cache_sig_vars := c\<rparr>) =
     (Inr (var_sig A t B (k_dep_vars t)), B\<lparr>cache_sig_vars := c'\<rparr>)"
    using hash_env_vars_value [of A t "k_dep_vars t" "B\<lparr>cache_sig_vars := c\<rparr>"] h(2) by auto
  show ?thesis using h h' by (auto simp: sig_vars_def var_sigs_def)
qed

text \<open>A change of the cache of variables alone changes none of these.\<close>

lemma cache_frame [simp]:
  "dep_sig t (B\<lparr>cache_sig_vars := c\<rparr>) d = dep_sig t B d"
  "joined t (B\<lparr>cache_sig_vars := c\<rparr>) ds = joined t B ds"
  "all_read t (B\<lparr>cache_sig_vars := c\<rparr>) ds = all_read t B ds"
  "implicit_deps A t (B\<lparr>cache_sig_vars := c\<rparr>) = implicit_deps A t B"
proof -
  show d: "dep_sig t (B\<lparr>cache_sig_vars := c\<rparr>) d = dep_sig t B d" for d by (cases d) simp_all
  then show "joined t (B\<lparr>cache_sig_vars := c\<rparr>) ds = joined t B ds" by (simp add: joined_def)
  have sc: "scanned (B\<lparr>cache_sig_vars := c\<rparr>) x = scanned B x" for x
    by (cases "n_parent (nd (tb B) x)") (simp_all add: scanned_def)
  show "all_read t (B\<lparr>cache_sig_vars := c\<rparr>) ds = all_read t B ds" 
    by (simp add: all_read_def d sc cong: man_dep.case_cong)
  show "implicit_deps A t (B\<lparr>cache_sig_vars := c\<rparr>) = implicit_deps A t B" by (simp add: implicit_deps_def)
qed

lemma readable_parts:
  "readable A t B \<longleftrightarrow> all_read t B (explicit_deps t B) \<and> all_read t B (implicit_deps A t B)"
  by (auto simp: readable_def all_read_def)

lemma dep_text:
  "concat (dep_sigs A t B) =
     joined t B (explicit_deps t B) @ concat (var_sigs A t B) @ joined t B (implicit_deps A t B)"
  by (simp add: dep_sigs_def joined_def)

text \<open>One round on a readable state, without and with implicit dependencies.\<close>

lemma round_value:
  assumes "readable A t B"
  obtains c m1 m2 where "m2 = joined t B (explicit_deps t B) @ concat (var_sigs A t B)"
    "\<not> k_scan t \<Longrightarrow>
       compute_sigs (Suc n) A t B = (Inr (make_sigs A m1 m2 m2 SIG_NIL), B\<lparr>cache_sig_vars := c\<rparr>)"
    "k_scan t \<Longrightarrow> compute_sigs (Suc n) A t B =
       (case sig_implicit_deps A t m2 (B\<lparr>cache_sig_vars := c\<rparr>) of
          (Inr m3, B') \<Rightarrow> (Inr (make_sigs A m1 m2 m3 (a_hash A m3)), B')
        | (Inl e, B') \<Rightarrow> if e = ValueError then compute_sigs n A t B' else (Inl e, B'))"
proof -
  let ?m1 = "joined t B (explicit_deps t B)"
  obtain c where "sig_vars A t ?m1 B = (Inr (?m1 @ concat (var_sigs A t B)), B\<lparr>cache_sig_vars := c\<rparr>)"
    using sig_vars_value by blast
  then show ?thesis using assms that [of "?m1 @ concat (var_sigs A t B)" ?m1 c]
    by (simp add: readable_parts sig_explicit_value)
qed

lemma sig_implicit_recorded:
  assumes "task_sigs B (unique_id A t (tb B)) = Some (s, e, i, v)" "all_read t B (implicit_deps A t B)" "k_scan t"
  shows "sig_implicit_deps A t m B =
    (if i = a_hash A (m @ joined t B (implicit_deps A t B)) then (Inr (m @ joined t B (implicit_deps A t B)), B)
     else (Inl ValueError, B\<lparr>task_sigs := (task_sigs B)(unique_id A t (tb B) := None)\<rparr>))"
  using assms
  by (simp add: sig_implicit_deps_def compute_sig_implicit_deps_def implicit_deps_def feed_implicit_value Let_def)

text \<open>The record of the last run is kept and agrees with what is read now.\<close>

definition up_to_date :: "targs \<Rightarrow> ktask \<Rightarrow> tbuild \<Rightarrow> bool" where
  "up_to_date A t B \<longleftrightarrow>
     (case task_sigs B (unique_id A t (tb B)) of
        None \<Rightarrow> False
      | Some (s, e, i, v) \<Rightarrow>
          s = a_hash A (concat (dep_sigs A t B)) \<and> (k_scan t \<longrightarrow> i = a_hash A (concat (dep_sigs A t B))) \<and>
          outputs_current t s (tb B))"

lemma status_of_sigs:
  assumes "compute_sigs 2 A t B = (Inr cs, B')" "k_cache_sig t = None"
  shows "runnable_status A False t B =
    (Inr (case task_sigs B' (unique_id A t (tb B')) of
            None \<Rightarrow> RUN_ME
          | Some (p, r) \<Rightarrow> if outputs_current t (fst cs) (tb B') \<and> fst cs = p then SKIP_ME else RUN_ME,
          t\<lparr>k_cache_sig := Some cs\<rparr>), B')"
  using assms
  by (auto simp: runnable_status_def signature_def unique_id_cong outputs_current_def env_of_def split: option.splits)

lemma status_of_error:
  "compute_sigs 2 A t B = (Inl e, B') \<Longrightarrow> k_cache_sig t = None \<Longrightarrow> runnable_status A False t B = (Inl e, B')"
  by (simp add: runnable_status_def signature_def)

text \<open>With no record of a last run the task is never skipped.\<close>

lemma no_record_no_skip:
  assumes "compute_sigs 2 A t B = (r, B')" "k_cache_sig t = None" "task_sigs B' (unique_id A t (tb B')) = None"
  shows "runnable_status A False t B \<noteq> (Inr (SKIP_ME, t'), C)"
proof (cases r)
  case (Inl e)
  then show ?thesis using status_of_error [OF _ assms(2)] assms(1) by simp
next
  case (Inr cs)
  then show ?thesis using status_of_sigs [OF _ assms(2)] assms(1,3) by simp
qed

lemma fresh_no_skip:
  assumes "task_sigs C (unique_id A t (tb C)) = None" "wf_tree (tb C)" "deps_ok t C" "scan_ok A"
    "compute_sigs 2 A t B = compute_sigs (Suc n) A t C" "k_cache_sig t = None"
  shows "runnable_status A False t B \<noteq> (Inr (SKIP_ME, t'), D)"
proof -
  obtain r E where "grows (tb C) (tb E)" "task_sigs E = task_sigs C" "compute_sigs (Suc n) A t C = (r, E)"
    using round_fresh [OF assms(1-4)] by blast
  then show ?thesis
    using no_record_no_skip [of A t B r E] assms unique_id_grows(1) [of "tb C" "tb E"] by (simp add: deps_ok_def)
qed

lemma scanless_skip:
  assumes "readable A t B" "k_cache_sig t = None" "\<not> k_scan t"
  shows "(\<exists>t' B'. runnable_status A False t B = (Inr (SKIP_ME, t'), B')) \<longleftrightarrow> up_to_date A t B"
proof -
  obtain c m1 m2 where m: "m2 = joined t B (explicit_deps t B) @ concat (var_sigs A t B)"
    and "compute_sigs 2 A t B = (Inr (make_sigs A m1 m2 m2 SIG_NIL), B\<lparr>cache_sig_vars := c\<rparr>)"
    using round_value [OF assms(1)] assms(3) by (metis Suc_1)
  from status_of_sigs [OF this(2) assms(2)] show ?thesis
    using m assms(3) by (auto simp: up_to_date_def dep_text implicit_deps_def make_sigs_def split: option.splits)
qed

text \<open>With a scanner: the recorded implicit dependencies are checked first.\<close>

lemma scanner_skip:
  assumes "readable A t B" "k_cache_sig t = None" "k_scan t" "wf_tree (tb B)" "deps_ok t B" "scan_ok A"
  shows "(\<exists>t' B'. runnable_status A False t B = (Inr (SKIP_ME, t'), B')) \<longleftrightarrow> up_to_date A t B"
proof -
  obtain c m1 m2 where m: "m2 = joined t B (explicit_deps t B) @ concat (var_sigs A t B)"
    and r: "compute_sigs 2 A t B =
       (case sig_implicit_deps A t m2 (B\<lparr>cache_sig_vars := c\<rparr>) of
          (Inr m3, B') \<Rightarrow> (Inr (make_sigs A m1 m2 m3 (a_hash A m3)), B')
        | (Inl e, B') \<Rightarrow> if e = ValueError then compute_sigs 1 A t B' else (Inl e, B'))"
    using round_value [OF assms(1), of 1] assms(3) by (metis Suc_1)
  let ?k = "unique_id A t (tb B)" and ?B = "B\<lparr>cache_sig_vars := c\<rparr>"
  have ar: "all_read t ?B (implicit_deps A t ?B)" using assms(1) by (simp add: readable_parts)
  have ok: "wf_tree (tb (?B\<lparr>task_sigs := ts\<rparr>))" "deps_ok t (?B\<lparr>task_sigs := ts\<rparr>)" for ts
    using assms(4,5) by (simp_all add: deps_ok_def)
  show ?thesis
  proof (cases "task_sigs B ?k")
    case None
    have "runnable_status A False t B \<noteq> (Inr (SKIP_ME, t'), D)" for t' D
      by (rule fresh_no_skip [of B A t B 1]) (use None assms in \<open>simp_all add: numeral_2_eq_2\<close>)
    then show ?thesis using None by (simp add: up_to_date_def)
  next
    case (Some p)
    obtain s e i v where p: "p = (s, e, i, v)" by (cases p)
    have imp: "sig_implicit_deps A t m2 ?B =
      (if i = a_hash A (concat (dep_sigs A t B)) then (Inr (concat (dep_sigs A t B)), ?B)
       else (Inl ValueError, ?B\<lparr>task_sigs := (task_sigs B)(?k := None)\<rparr>))"
      using sig_implicit_recorded [of ?B A t s e i v m2] Some p ar assms(3) m by (simp add: dep_text)
    show ?thesis
    proof (cases "i = a_hash A (concat (dep_sigs A t B))")
      case True
      then have "compute_sigs 2 A t B =
        (Inr (make_sigs A m1 m2 (concat (dep_sigs A t B)) (a_hash A (concat (dep_sigs A t B)))), ?B)"
        using r imp by simp
      from status_of_sigs [OF this assms(2)] show ?thesis
        using True Some p by (auto simp: up_to_date_def make_sigs_def)
    next
      case False
      have "runnable_status A False t B \<noteq> (Inr (SKIP_ME, t'), D)" for t' D
        by (rule fresh_no_skip [of "?B\<lparr>task_sigs := (task_sigs B)(?k := None)\<rparr>" A t B 0])
          (use r imp False ok assms in simp_all)
      then show ?thesis using False Some p assms(3) by (simp add: up_to_date_def)
    qed
  qed
qed

text \<open>C5: \<open>runnable_status\<close> of a task that waits for no other, in a state where the folders of its dependencies are
  scanned and all of them have signatures, answers \<open>SKIP_ME\<close> exactly when the last run of the task was recorded, the
  recorded signature is the hash of the signatures of all its explicit dependencies, variables and recorded implicit
  dependencies, in this order, and all outputs carry that signature.\<close>

theorem skip_iff_up_to_date:
  assumes "readable A t B" "k_cache_sig t = None" "wf_tree (tb B)" "deps_ok t B" "scan_ok A"
  shows "(\<exists>t' B'. runnable_status A False t B = (Inr (SKIP_ME, t'), B')) \<longleftrightarrow> up_to_date A t B"
  using scanner_skip [OF assms(1,2) _ assms(3-5)] scanless_skip [OF assms(1,2)] by (cases "k_scan t") blast+

text \<open>What storing the signatures of the outputs changes.\<close>

definition stored :: "ktask \<Rightarrow> sig \<Rightarrow> nat list \<Rightarrow> tbuild \<Rightarrow> tbuild" where
  "stored t s xs B =
     fold (\<lambda>x B. B\<lparr>tb := set_sig (Variant (k_variant t)) (n_id (nd (tb B) x)) (Some s) (tb B)\<rparr>) xs B"

lemma store_outputs_value:
  "store_outputs A t s xs B =
     (Inr (\<forall>x \<in> set xs. a_exists A x), stored t s (takeWhile (a_exists A) xs) B)"
  by (induction xs arbitrary: B) (simp_all add: stored_def)

lemma stored_fields [simp]:
  "b_nodes (tb (stored t s xs B)) = b_nodes (tb B)"
  "srcnode (tb (stored t s xs B)) = srcnode (tb B)" "bldnode (tb (stored t s xs B)) = bldnode (tb B)"
  "task_sigs (stored t s xs B) = task_sigs B" "node_deps (stored t s xs B) = node_deps B"
  "deps_man (stored t s xs B) = deps_man B" "cache_sig_vars (stored t s xs B) = cache_sig_vars B"
  unfolding stored_def by (induction xs arbitrary: B) simp_all

lemma stored_sigs:
  "node_sigs (tb (stored t s xs B)) v i =
     (if v = Variant (k_variant t) \<and> i \<in> (\<lambda>x. n_id (nd (tb B) x)) ` set xs then Some s else node_sigs (tb B) v i)"
proof (induction xs arbitrary: B)
  case (Cons x xs)
  have "stored t s (x # xs) B =
    stored t s xs (B\<lparr>tb := set_sig (Variant (k_variant t)) (n_id (nd (tb B) x)) (Some s) (tb B)\<rparr>)"
    by (simp add: stored_def)
  then show ?case by (simp add: Cons set_sig_def)
qed (simp add: stored_def)

lemma stored_nd [simp]: "nd (tb (stored t s xs B)) x = nd (tb B) x"
  by simp

lemma src_path_nodes: "b_nodes b' = b_nodes b \<Longrightarrow> src_path b' n = src_path b n"
proof (induction b n rule: src_path.induct)
  case (1 b n)
  then show ?case by (simp add: src_path.simps [of b n] src_path.simps [of b' n] split: option.splits)
qed

lemma unique_id_nodes:
  assumes "b_nodes b' = b_nodes b"
  shows "unique_id A t b' = unique_id A t b"
proof -
  have "uid_nodes b' p xs = uid_nodes b p xs" for p xs
    by (induction xs arbitrary: p) (simp_all add: assms src_path_nodes [OF assms] split: option.split)
  then show ?thesis by (simp add: unique_id_def)
qed

lemma stored_type: "get_type (tb (stored t s xs B)) x = get_type (tb B) x"
  by (simp add: get_type_def)

lemma stored_reads:
  assumes "\<And>x y. x \<in> set xs \<Longrightarrow> d = NodeDep y \<Longrightarrow> n_id (nd (tb B) y) \<noteq> n_id (nd (tb B) x)"
  shows "dep_sig t (stored t s xs B) d = dep_sig t B d"
  using assms by (cases d) (auto simp: node_sig_def stored_sigs node_variant_def env_of_def stored_type)

text \<open>No dependency of the task is one of its outputs.\<close>

definition outputs_apart :: "targs \<Rightarrow> ktask \<Rightarrow> tbuild \<Rightarrow> bool" where
  "outputs_apart A t B \<longleftrightarrow>
     (\<forall>x \<in> set (k_outputs t). get_type (tb B) x \<noteq> FILE \<and>
        (\<forall>d \<in> set (explicit_deps t B @ implicit_deps A t B).
           case d of NodeDep y \<Rightarrow> n_id (nd (tb B) y) \<noteq> n_id (nd (tb B) x) | _ \<Rightarrow> True))"

lemma apart:
  assumes "outputs_apart A t B" "x \<in> set (k_outputs t)" "d \<in> set (explicit_deps t B @ implicit_deps A t B)"
    "d = NodeDep y"
  shows "n_id (nd (tb B) y) \<noteq> n_id (nd (tb B) x)"
proof -
  have "case d of NodeDep y \<Rightarrow> n_id (nd (tb B) y) \<noteq> n_id (nd (tb B) x) | _ \<Rightarrow> True"
    using assms(1-3) unfolding outputs_apart_def by blast
  then show ?thesis using assms(4) by simp
qed

lemma stored_dep_sigs:
  assumes "outputs_apart A t B" "set xs \<subseteq> set (k_outputs t)"
  shows "dep_sigs A t (stored t s xs B) = dep_sigs A t B"
proof -
  have u: "unique_id A t (tb (stored t s xs B)) = unique_id A t (tb B)" by (rule unique_id_nodes) simp
  have "manual_deps t (stored t s xs B) = manual_deps t B" by (simp add: manual_deps_def)
  then have e: "explicit_deps t (stored t s xs B) = explicit_deps t B" by (simp add: explicit_deps_def)
  have i: "implicit_deps A t (stored t s xs B) = implicit_deps A t B" by (simp add: implicit_deps_def u)
  have d: "dep_sig t (stored t s xs B) d = dep_sig t B d" if "d \<in> set (explicit_deps t B @ implicit_deps A t B)" for d
    by (rule stored_reads) (use apart [OF assms(1) _ that] assms(2) in blast)
  have "var_sigs A t (stored t s xs B) = var_sigs A t B" by (simp add: var_sigs_def var_sig_def)
  then show ?thesis using d by (simp add: dep_sigs_def e i)
qed

lemma dep_sigs_record: "dep_sigs A t (B\<lparr>task_sigs := ts\<rparr>) = dep_sigs A t B"
proof -
  have "dep_sig t (B\<lparr>task_sigs := ts\<rparr>) d = dep_sig t B d" for d by (cases d) simp_all
  then show ?thesis
    by (simp add: dep_sigs_def explicit_deps_def implicit_deps_def manual_deps_def var_sigs_def var_sig_def)
qed

lemma stored_current:
  assumes "outputs_apart A t B"
  shows "outputs_current t s (tb (stored t s (k_outputs t) B))"
  unfolding outputs_current_def
proof
  fix x
  assume x: "x \<in> set (k_outputs t)"
  then have "get_type (tb B) x \<noteq> FILE" using assms unfolding outputs_apart_def by blast
  then show "node_sig (tb (stored t s (k_outputs t) B))
      (node_variant (tb (stored t s (k_outputs t) B)) x (env_of t)) x = Some s"
    using x by (simp add: node_sig_def node_variant_def env_of_def stored_sigs stored_type)
qed

text \<open>C7: \<open>post_run\<close> of a task whose signature is that of its dependencies. When all outputs exist the task is up to
  date afterwards, and its dependencies read the same. When one is missing \<open>post_run\<close> raises, and the record of the
  task is what it was.\<close>

theorem post_run_records:
  assumes "k_cache_sig t = Some (a_hash A (concat (dep_sigs A t B)), e, i, v)"
    "k_scan t \<Longrightarrow> i = a_hash A (concat (dep_sigs A t B))" "outputs_apart A t B"
  shows "if \<forall>x \<in> set (k_outputs t). a_exists A x
    then \<exists>B'. post_run A t B = (Inr t, B') \<and> up_to_date A t B' \<and> dep_sigs A t B' = dep_sigs A t B
    else \<exists>B'. post_run A t B = (Inl missing_file, B') \<and> task_sigs B' = task_sigs B"
proof (cases "\<forall>x \<in> set (k_outputs t). a_exists A x")
  case False
  then show ?thesis using assms(1) by (auto simp: post_run_def signature_def store_outputs_value)
next
  case True
  let ?s = "a_hash A (concat (dep_sigs A t B))"
  let ?S = "stored t ?s (k_outputs t) B"
  let ?B = "?S\<lparr>task_sigs := (task_sigs B)(unique_id A t (tb ?S) := k_cache_sig t)\<rparr>"
  have u: "unique_id A t (tb ?S) = unique_id A t (tb B)" by (rule unique_id_nodes) simp
  have tw: "takeWhile (a_exists A) (k_outputs t) = k_outputs t" using True by (simp add: takeWhile_eq_all_conv)
  have "store_outputs A t ?s (k_outputs t) B = (Inr True, ?S)" using True by (simp add: store_outputs_value tw)
  then have p: "post_run A t B = (Inr t, ?B)" using assms(1) by (simp add: post_run_def signature_def)
  have d: "dep_sigs A t ?B = dep_sigs A t B"
    using stored_dep_sigs [OF assms(3) order_refl] by (simp add: dep_sigs_record)
  have "up_to_date A t ?B" unfolding up_to_date_def d using assms(1,2) stored_current [OF assms(3)] u by simp
  then show ?thesis using True p d by auto
qed

text \<open>Texts of a fixed width can be told apart in their concatenation.\<close>

lemma concat_fixed_width:
  assumes "concat xs = concat ys" "\<forall>x \<in> set xs. length x = n" "\<forall>y \<in> set ys. length y = n" "0 < n"
  shows "xs = ys"
  using assms(1-3)
proof (induction xs arbitrary: ys)
  case Nil
  then show ?case using assms(4) by (cases ys) auto
next
  case (Cons x xs)
  then show ?case using assms(4) by (cases ys) auto
qed

text \<open>C6: incremental builds are sound. When a task was up to date in some state and is skipped in a later one that
  holds the same record of its last run, then each of its explicit dependencies, variables and implicit dependencies
  has the signature it had then, up to a collision of the hash function on the two texts. Signatures have a fixed
  width.\<close>

theorem skipped_means_unchanged:
  assumes "up_to_date A t B" "task_sigs B' (unique_id A t (tb B')) = task_sigs B (unique_id A t (tb B))"
    "runnable_status A False t B' = (Inr (SKIP_ME, t'), C)"
    "readable A t B'" "k_cache_sig t = None" "wf_tree (tb B')" "deps_ok t B'" "scan_ok A"
    "a_hash A (concat (dep_sigs A t B)) = a_hash A (concat (dep_sigs A t B')) \<Longrightarrow>
       concat (dep_sigs A t B) = concat (dep_sigs A t B')"
    "\<forall>s \<in> set (dep_sigs A t B) \<union> set (dep_sigs A t B'). length s = w" "0 < w"
  shows "dep_sigs A t B' = dep_sigs A t B"
proof -
  have "up_to_date A t B'"
  proof (cases "k_scan t")
    case True
    then show ?thesis using scanner_skip [OF assms(4,5) _ assms(6-8)] assms(3) by blast
  next
    case False
    then show ?thesis using scanless_skip [OF assms(4,5)] assms(3) by blast
  qed
  then have "a_hash A (concat (dep_sigs A t B)) = a_hash A (concat (dep_sigs A t B'))"
    using assms(1,2) by (auto simp: up_to_date_def split: option.splits)
  then have "concat (dep_sigs A t B') = concat (dep_sigs A t B)" using assms(9) by simp
  then show ?thesis by (rule concat_fixed_width [where n = w]) (use assms(10,11) in auto)
qed

subsection \<open>An example\<close>

text \<open>A task that compiles \<open>main.c\<close> to \<open>main.o\<close>; its scanner finds \<open>util.h\<close>.\<close>

definition demo_tree :: build where
  "demo_tree =
     \<lparr>b_nodes =
        [\<lparr>n_name = [], n_parent = None, n_id = 5, n_childs = Some [(''src'', 1), (''build'', 2)]\<rparr>,
         \<lparr>n_name = ''src'', n_parent = Some 0, n_id = 9, n_childs = Some [(''main.c'', 3), (''main.o'', 4), (''util.h'', 5)]\<rparr>,
         \<lparr>n_name = ''build'', n_parent = Some 0, n_id = 13, n_childs = Some []\<rparr>,
         \<lparr>n_name = ''main.c'', n_parent = Some 1, n_id = 18, n_childs = None\<rparr>,
         \<lparr>n_name = ''main.o'', n_parent = Some 1, n_id = 23, n_childs = None\<rparr>,
         \<lparr>n_name = ''util.h'', n_parent = Some 1, n_id = 26, n_childs = None\<rparr>],
      id_nodes = 24, cache_scanned_folders = [9], cache_dir_contents = [],
      node_sigs = (\<lambda>v i. if v = Source \<and> i = 18 then Some ''h1'' else if v = Source \<and> i = 26 then Some ''h2''
        else if v = Variant ''default'' \<and> i = 23 then Some ''2h'' else None),
      cache_node_abspath = (\<lambda>v i. None), root = 0, srcnode = 1, bldnode = 2, lst_variants = [''default''], made_dirs = []\<rparr>"

definition demo_task :: ktask where
  "demo_task =
     \<lparr>k_class = ''cc'', k_inputs = [3], k_outputs = [4], k_dep_nodes = [], k_deps_nodes = [], k_vars = [''CC''],
      k_dep_vars = [], k_env = 0, k_variant = ''default'', k_env_str = (\<lambda>v. ''gcc''), k_scan = True, k_cache_sig = None\<rparr>"

definition demo_args :: targs where
  "demo_args =
     \<lparr>a_hash = (\<lambda>s. take 2 (rev s @ ''00'')), a_fs = demo_fs,
      a_scan = (\<lambda>t B. (if 5 < length (b_nodes (tb B)) then [5] else [], [])), a_exists = (\<lambda>x. True)\<rparr>"

definition demo_key :: string where "demo_key = unique_id demo_args demo_task demo_tree"

definition demo_tbuild :: tbuild where
  "demo_tbuild =
     \<lparr>tb = demo_tree, task_sigs = (\<lambda>k. None), node_deps = (\<lambda>k. if k = demo_key then Some [5] else None),
      raw_deps = (\<lambda>k. None), deps_man = [], cache_sig_vars = []\<rparr>"

lemma demo_tree_nodes:
  "b_nodes demo_tree =
        [\<lparr>n_name = [], n_parent = None, n_id = 5, n_childs = Some [(''src'', 1), (''build'', 2)]\<rparr>,
         \<lparr>n_name = ''src'', n_parent = Some 0, n_id = 9, n_childs = Some [(''main.c'', 3), (''main.o'', 4), (''util.h'', 5)]\<rparr>,
         \<lparr>n_name = ''build'', n_parent = Some 0, n_id = 13, n_childs = Some []\<rparr>,
         \<lparr>n_name = ''main.c'', n_parent = Some 1, n_id = 18, n_childs = None\<rparr>,
         \<lparr>n_name = ''main.o'', n_parent = Some 1, n_id = 23, n_childs = None\<rparr>,
         \<lparr>n_name = ''util.h'', n_parent = Some 1, n_id = 26, n_childs = None\<rparr>]"
  by (simp add: demo_tree_def)

lemma demo_tree_fields: "root demo_tree = 0" "id_nodes demo_tree = 24" "cache_scanned_folders demo_tree = [9]"
  "node_sigs demo_tree = (\<lambda>v i. if v = Source \<and> i = 18 then Some ''h1'' else if v = Source \<and> i = 26 then Some ''h2''
        else if v = Variant ''default'' \<and> i = 23 then Some ''2h'' else None)"
  by (simp_all add: demo_tree_def)

lemma demo_tree_wf: "wf_tree demo_tree"
  by (simp add: wf_tree_def demo_tree_nodes demo_tree_fields All_less_Suc get_type_def DIR_def)

lemma demo_deps_ok: "deps_ok demo_task (demo_tbuild\<lparr>task_sigs := ts\<rparr>)"
  by (simp add: deps_ok_def nodes_ok_def demo_tbuild_def demo_task_def demo_tree_nodes)

lemma demo_scan_ok: "scan_ok demo_args"
  by (simp add: scan_ok_def demo_args_def)

lemma demo_tb [simp]: "tb (demo_tbuild\<lparr>task_sigs := ts\<rparr>) = demo_tree" "tb demo_tbuild = demo_tree"
  by (simp_all add: demo_tbuild_def)

lemma demo_explicit: "explicit_deps demo_task (demo_tbuild\<lparr>task_sigs := ts\<rparr>) = [NodeDep 3]"
  by (simp add: explicit_deps_def demo_task_def manual_deps_def demo_tbuild_def)

lemma demo_implicit: "implicit_deps demo_args demo_task (demo_tbuild\<lparr>task_sigs := ts\<rparr>) = [NodeDep 5]"
  by (simp add: implicit_deps_def) (simp add: demo_task_def demo_tbuild_def demo_key_def)

lemma demo_sig:
  "dep_sig demo_task (demo_tbuild\<lparr>task_sigs := ts\<rparr>) (NodeDep 3) = Some ''h1''"
  "dep_sig demo_task (demo_tbuild\<lparr>task_sigs := ts\<rparr>) (NodeDep 5) = Some ''h2''"
  by (simp_all add: node_sig_def node_variant_def env_of_def get_type_def FILE_def demo_tree_nodes demo_tree_fields)

lemma demo_readable: "readable demo_args demo_task (demo_tbuild\<lparr>task_sigs := ts\<rparr>)"
  unfolding readable_def demo_explicit demo_implicit
  by (simp add: demo_sig del: dep_sig.simps) (simp add: scanned_def demo_tree_nodes demo_tree_fields)

lemma demo_var:
  "var_sig demo_args demo_task (demo_tbuild\<lparr>task_sigs := ts\<rparr>) (k_vars demo_task) = [CHR '']'', CHR 0x27]"
proof -
  have "a_hash demo_args (repr (CList (map (\<lambda>v. AStr (k_env_str demo_task v)) (k_vars demo_task)))) = [CHR '']'', CHR 0x27]"
    by code_simp
  then show ?thesis by (simp add: var_sig_def) (simp add: demo_tbuild_def)
qed

lemma demo_dep_sigs:
  "dep_sigs demo_args demo_task (demo_tbuild\<lparr>task_sigs := ts\<rparr>) = [''h1'', [CHR '']'', CHR 0x27], ''h2'']"
proof -
  have "k_dep_vars demo_task = []" by (simp add: demo_task_def)
  then show ?thesis
    unfolding dep_sigs_def demo_explicit demo_implicit var_sigs_def by (simp add: demo_sig demo_var del: dep_sig.simps)
qed

text \<open>The task has run.\<close>

definition demo_done :: tbuild where
  "demo_done = demo_tbuild\<lparr>task_sigs := (\<lambda>k. if k = demo_key then Some (''2h'', [], ''2h'', []) else None)\<rparr>"

lemma demo_done_up_to_date: "up_to_date demo_args demo_task demo_done"
proof -
  have "outputs_current demo_task ''2h'' demo_tree"
    by (simp add: outputs_current_def node_sig_def node_variant_def env_of_def get_type_def FILE_def demo_tree_nodes
        demo_tree_fields demo_task_def)
  moreover have "a_hash demo_args (concat [''h1'', [CHR '']'', CHR 0x27], ''h2'']) = ''2h''" by (simp add: demo_args_def)
  ultimately show ?thesis
    unfolding up_to_date_def demo_done_def demo_dep_sigs by (simp add: demo_key_def)
qed

lemma demo_ok:
  "wf_tree (tb demo_done)" "deps_ok demo_task demo_done" "readable demo_args demo_task demo_done"
  "k_cache_sig demo_task = None"
  using demo_tree_wf demo_deps_ok demo_readable by (simp_all add: demo_done_def demo_task_def)


theorem skip_iff_up_to_date_witness:
  "\<exists>t' B'. runnable_status demo_args False demo_task demo_done = (Inr (SKIP_ME, t'), B')"
  using skip_iff_up_to_date [OF demo_ok(3,4,1,2) demo_scan_ok] demo_done_up_to_date by blast

lemma deps_cache:
  "explicit_deps (t\<lparr>k_cache_sig := c\<rparr>) B = explicit_deps t B"
  "implicit_deps A (t\<lparr>k_cache_sig := c\<rparr>) B = implicit_deps A t B"
  by (simp_all add: explicit_deps_def implicit_deps_def manual_deps_def unique_id_cong)

lemma var_sigs_cache: "var_sigs A (t\<lparr>k_cache_sig := c\<rparr>) B = var_sigs A t B"
  by (simp add: var_sigs_def var_sig_def cong: option.case_cong)

theorem post_run_records_witness:
  "\<exists>t B'. post_run demo_args t demo_tbuild = (Inr t, B') \<and> up_to_date demo_args t B'"
proof -
  let ?t = "demo_task\<lparr>k_cache_sig := Some (''2h'', [], ''2h'', [])\<rparr>"
  let ?B = "demo_tbuild\<lparr>task_sigs := (\<lambda>k. None)\<rparr>"
  have B: "?B = demo_tbuild" by (simp add: demo_tbuild_def)
  have sig: "dep_sig ?t ?B d = dep_sig demo_task ?B d" for d by (cases d) (simp_all add: env_of_def)
  have e: "explicit_deps ?t ?B = [NodeDep 3]" "implicit_deps demo_args ?t ?B = [NodeDep 5]"
    by (simp_all only: deps_cache demo_explicit demo_implicit)
  have "dep_sigs demo_args ?t ?B = dep_sigs demo_args demo_task ?B"
    by (simp add: dep_sigs_def e demo_explicit demo_implicit sig var_sigs_cache del: dep_sig.simps)
  then have h: "a_hash demo_args (concat (dep_sigs demo_args ?t ?B)) = ''2h''"
    unfolding demo_dep_sigs by (simp add: demo_args_def)
  have "outputs_apart demo_args ?t ?B"
    unfolding outputs_apart_def e by (simp add: demo_task_def demo_tree_nodes get_type_def FILE_def)
  then have "if \<forall>x \<in> set (k_outputs ?t). a_exists demo_args x
    then \<exists>B'. post_run demo_args ?t ?B = (Inr ?t, B') \<and> up_to_date demo_args ?t B' \<and>
      dep_sigs demo_args ?t B' = dep_sigs demo_args ?t ?B
    else \<exists>B'. post_run demo_args ?t ?B = (Inl missing_file, B') \<and> task_sigs B' = task_sigs ?B"
    by (intro post_run_records [where e = "[]" and i = "''2h''" and v = "[]"]) (simp_all add: h)
  moreover have "\<forall>x \<in> set (k_outputs ?t). a_exists demo_args x" by (simp add: demo_args_def)
  ultimately show ?thesis unfolding B by auto
qed

theorem skipped_means_unchanged_witness:
  "dep_sigs demo_args demo_task demo_done = [''h1'', [CHR '']'', CHR 0x27], ''h2'']"
proof -
  obtain t' B' where "runnable_status demo_args False demo_task demo_done = (Inr (SKIP_ME, t'), B')"
    using scanner_skip [OF demo_ok(3,4) _ demo_ok(1,2) demo_scan_ok] demo_done_up_to_date
    by (auto simp: demo_task_def)
  moreover have d: "dep_sigs demo_args demo_task demo_done = [''h1'', [CHR '']'', CHR 0x27], ''h2'']"
    unfolding demo_done_def by (rule demo_dep_sigs)
  ultimately have "dep_sigs demo_args demo_task demo_done = dep_sigs demo_args demo_task demo_done"
    by (intro skipped_means_unchanged [OF demo_done_up_to_date _ _ demo_ok(3,4,1,2) demo_scan_ok, where w = 2])
      simp_all
  then show ?thesis using d by simp
qed

end
