(* ===== verification/PreprocEval.thy ===== *)
theory PreprocEval
  imports PyPrelude
begin

section \<open>Waf's C preprocessor: evaluation of conditions\<close>

text \<open>
  The first part of \<open>src/tools/wafadmin/Tools/preproc.py\<close>: tokens and the evaluation of the expressions of
  \<open>#if\<close> and \<open>#elif\<close> (\<open>reduce_nums\<close>, \<open>get_num\<close>, \<open>get_term\<close>, \<open>reduce_eval\<close>). The evaluator looks one operator
  ahead. The value of a token is a string or a number; the lexer also produces pairs (octal characters) and
  \<open>None\<close> (numbers in scientific notation). Numbers of Python are unbounded.
\<close>

unbundle bit_operations_syntax

subsection \<open>Tokens\<close>

datatype ptype = NUM | OP | IDENT | STR_TOK

datatype pval = VStr string | VInt int | VPair int int | VNone

type_synonym tok = "ptype \<times> pval"

abbreviation op_tok :: "string \<Rightarrow> tok" where "op_tok s \<equiv> (OP, VStr s)"

text \<open>\<open>int(s)\<close> of a string in base 10.\<close>

definition digits_int :: "string \<Rightarrow> int res" where
  "digits_int s = (if s \<noteq> [] \<and> list_all py_isdigit s then Inr (int (digits_val s)) else Inl ValueError)"

definition py_int_str :: "string \<Rightarrow> int res" where
  "py_int_str s =
     (case py_strip s of
        [] \<Rightarrow> Inl ValueError
      | c # cs \<Rightarrow>
          if c = CHR ''-'' then rbind (digits_int cs) (\<lambda>i. Inr (- i))
          else if c = CHR ''+'' then digits_int cs
          else digits_int (c # cs))"

fun py_int :: "pval \<Rightarrow> int res" where
  "py_int (VInt i) = Inr i"
| "py_int (VStr s) = py_int_str s"
| "py_int (VPair a b) = Inl TypeError"
| "py_int VNone = Inl TypeError"

fun py_true :: "pval \<Rightarrow> bool" where
  "py_true (VInt i) = (i \<noteq> 0)"
| "py_true (VStr s) = (s \<noteq> [])"
| "py_true (VPair a b) = True"
| "py_true VNone = False"

subsection \<open>Operators\<close>

definition ops :: "string list list" where
  "ops = [[''*'', ''/'', ''%''], [''+'', ''-''], [''<<'', ''>>''], [''<'', ''<='', ''>='', ''>''], [''=='', ''!=''],
          [''&'', ''|'', ''^''], [''&&'', ''||''], ['','']]"

definition prec_table :: "(string \<times> nat) list" where
  "prec_table = concat (map (\<lambda>(i, os). map (\<lambda>s. (s, i)) os) (enumerate 0 ops))"

definition prec :: "pval \<Rightarrow> nat res" where
  "prec v = (case v of VStr s \<Rightarrow> (case map_of prec_table s of Some n \<Rightarrow> Inr n | None \<Rightarrow> Inl KeyError) | _ \<Rightarrow> Inl KeyError)"

definition apply_op :: "int \<Rightarrow> int \<Rightarrow> string \<Rightarrow> int res" where
  "apply_op a b d =
     (if d = ''%'' then (if b = 0 then Inl ZeroDivisionError else Inr (a mod b))
      else if d = ''+'' then Inr (a + b)
      else if d = ''-'' then Inr (a - b)
      else if d = ''*'' then Inr (a * b)
      else if d = ''/'' then (if b = 0 then Inl ZeroDivisionError else Inr (a div b))
      else if d = ''^'' then Inr (a XOR b)
      else if d = ''|'' then Inr (a OR b)
      else if d = ''||'' then Inr (if a \<noteq> 0 then a else b)
      else if d = ''&'' then Inr (a AND b)
      else if d = ''&&'' then Inr (if a = 0 then a else b)
      else if d = ''=='' then Inr (of_bool (a = b))
      else if d = ''!='' then Inr (of_bool (a \<noteq> b))
      else if d = ''<='' then Inr (of_bool (a \<le> b))
      else if d = ''<'' then Inr (of_bool (a < b))
      else if d = ''>'' then Inr (of_bool (a > b))
      else if d = ''>='' then Inr (of_bool (a \<ge> b))
      else if d = ''<<'' then (if b < 0 then Inl ValueError else Inr (push_bit (nat b) a))
      else if d = ''>>'' then (if b < 0 then Inl ValueError else Inr (drop_bit (nat b) a))
      else Inr 0)"

text \<open>\<open>reduce_nums\<close>: adding 0 tells numbers from the rest, which goes through \<open>int\<close>.\<close>

definition reduce_nums :: "pval \<Rightarrow> pval \<Rightarrow> pval \<Rightarrow> int res" where
  "reduce_nums v1 v2 d =
     rbind (py_int v1) (\<lambda>a. rbind (py_int v2) (\<lambda>b.
       case d of VStr s \<Rightarrow> apply_op a b s | _ \<Rightarrow> Inr 0))"

subsection \<open>Operands and terms\<close>

text \<open>The tokens up to the closing parenthesis, and those behind it.\<close>

fun split_paren :: "nat \<Rightarrow> tok list \<Rightarrow> (tok list \<times> tok list) option" where
  "split_paren k [] = None"
| "split_paren k (t # ts) =
     (if t = op_tok '')'' then
        if k = 1 then Some ([], ts)
        else map_option (\<lambda>(a, b). (t # a, b)) (split_paren (k - 1) ts)
      else if t = op_tok ''('' then map_option (\<lambda>(a, b). (t # a, b)) (split_paren (k + 1) ts)
      else map_option (\<lambda>(a, b). (t # a, b)) (split_paren k ts))"

text \<open>The tokens up to the colon of a conditional expression, and those behind it.\<close>

fun split_colon :: "int \<Rightarrow> tok list \<Rightarrow> (tok list \<times> tok list) option" where
  "split_colon k [] = None"
| "split_colon k (t # ts) =
     (if t = op_tok '')'' then map_option (\<lambda>(a, b). (t # a, b)) (split_colon (k - 1) ts)
      else if t = op_tok ''('' then map_option (\<lambda>(a, b). (t # a, b)) (split_colon (k + 1) ts)
      else if t = op_tok '':'' \<and> k = 0 then Some ([], ts)
      else map_option (\<lambda>(a, b). (t # a, b)) (split_colon k ts))"

definition perr :: "string \<Rightarrow> 'a res" where "perr s = Inl (PreprocError s)"

text \<open>What \<open>get_term\<close> does behind the first operand, and behind the second one, for any functions in place of the
  recursive calls.\<close>

definition second :: "(tok list \<Rightarrow> (pval \<times> tok list) res) \<Rightarrow> (tok list \<Rightarrow> (pval \<times> tok list) res) \<Rightarrow>
    pval \<Rightarrow> pval \<Rightarrow> pval \<Rightarrow> tok list \<Rightarrow> (pval \<times> tok list) res" where
  "second gn gt num v num2 lst =
     (case lst of
        [] \<Rightarrow> rbind (reduce_nums num num2 v) (\<lambda>i. gt [(NUM, VInt i)])
      | (p2, v2) # lst2 \<Rightarrow>
          if p2 \<noteq> OP then perr ''op expected''
          else
            rbind (prec v2) (\<lambda>k2. rbind (prec v) (\<lambda>k.
              if k2 \<ge> k then rbind (reduce_nums num num2 v) (\<lambda>i. gt ((NUM, VInt i) # lst))
              else
                rbind (gn lst2) (\<lambda>(num3, lst).
                rbind (reduce_nums num2 num3 v2) (\<lambda>i.
                  gt ((NUM, num) # (OP, v) # (NUM, VInt i) # lst))))))"

definition behind_first :: "(tok list \<Rightarrow> (pval \<times> tok list) res) \<Rightarrow> (tok list \<Rightarrow> (pval \<times> tok list) res) \<Rightarrow>
    pval \<Rightarrow> tok list \<Rightarrow> (pval \<times> tok list) res" where
  "behind_first gn gt num lst =
     (case lst of
        [] \<Rightarrow> Inr (num, [])
      | (p, v) # lst \<Rightarrow>
          if p \<noteq> OP then perr ''cannot reduce''
          else if v = VStr ''&&'' \<and> \<not> py_true num then Inr (num, [])
          else if v = VStr ''||'' \<and> py_true num then Inr (num, [])
          else if v = VStr '','' then gt lst
          else if v = VStr ''?'' then
            (case split_colon 0 lst of
               None \<Rightarrow> perr ''rparen expected''
             | Some (a, b) \<Rightarrow> rbind (py_int num) (\<lambda>i. if i \<noteq> 0 then gt a else gt b))
          else rbind (gn lst) (\<lambda>(num2, lst). second gn gt num v num2 lst))"

text \<open>The number bounds the depth of the recursion. The branch for \<open>~\<close> reads a variable that has no value.\<close>

fun get_num :: "nat \<Rightarrow> tok list \<Rightarrow> (pval \<times> tok list) res"
  and get_term :: "nat \<Rightarrow> tok list \<Rightarrow> (pval \<times> tok list) res" where
  "get_num 0 lst = Inl RecursionError"
| "get_num (Suc n) [] = perr ''empty list for get_num''"
| "get_num (Suc n) ((p, v) # lst) =
     (if p = OP then
        if v = VStr ''('' then
          (case split_paren 1 lst of
             None \<Rightarrow> perr ''rparen expected''
           | Some (inside, behind) \<Rightarrow> rbind (get_term n inside) (\<lambda>(num, _). Inr (num, behind)))
        else if v = VStr ''+'' then get_num n lst
        else if v = VStr ''-'' then
          rbind (get_num n lst) (\<lambda>(num, lst). rbind (reduce_nums (VStr ''-1'') num (VStr ''*'')) (\<lambda>i. Inr (VInt i, lst)))
        else if v = VStr ''!'' then
          rbind (get_num n lst) (\<lambda>(num, lst). rbind (py_int num) (\<lambda>i. Inr (VInt (of_bool (i = 0)), lst)))
        else if v = VStr ''~'' then Inl UnboundLocalError
        else perr ''invalid op token for get_num''
      else if p = NUM then Inr (v, lst)
      else if p = IDENT then Inr (VInt 0, lst)
      else perr ''invalid token for get_num'')"
| "get_term 0 lst = Inl RecursionError"
| "get_term (Suc n) [] = perr ''empty list for get_term''"
| "get_term (Suc n) (t # ts) =
     rbind (get_num n (t # ts)) (\<lambda>(num, lst). behind_first (get_num n) (get_term n) num lst)"

definition reduce_eval :: "tok list \<Rightarrow> tok res" where
  "reduce_eval lst = rbind (get_term (2 * length lst + 2) lst) (\<lambda>(num, _). Inr (NUM, num))"

subsection \<open>The evaluation ends\<close>

lemma split_paren_length: "split_paren k ts = Some (a, b) \<Longrightarrow> length a + length b < length ts"
  by (induction k ts arbitrary: a b rule: split_paren.induct) (auto split: if_splits)

lemma split_colon_length: "split_colon k ts = Some (a, b) \<Longrightarrow> length a + length b < length ts"
  by (induction k ts arbitrary: a b rule: split_colon.induct) (auto split: if_splits)

lemma get_num_shorter: "get_num n l = Inr (v, r) \<Longrightarrow> length r < length l"
proof (induction n arbitrary: l v r)
  case (Suc n)
  then obtain p w ts where l: "l = (p, w) # ts" by (cases l) (auto simp: perr_def)
  have ih: "get_num n ts = Inr (u, s) \<Longrightarrow> length s < length ts" for u s using Suc.IH .
  show ?case using Suc.prems ih unfolding l
    by (fastforce simp: perr_def split: if_splits option.splits dest!: split_paren_length)
qed simp

lemma get_num_step:
  assumes "\<And>x. length x < length l \<Longrightarrow> get_num n x = get_num m x"
    "\<And>x. Suc (length x) < length l \<Longrightarrow> get_term n x = get_term m x"
  shows "get_num (Suc n) l = get_num (Suc m) l"
proof (cases l)
  case (Cons t ts)
  obtain p v where t: "t = (p, v)" by (cases t)
  have g: "get_num n ts = get_num m ts" using assms(1) Cons by simp
  have "get_term n a = get_term m a" if "split_paren 1 ts = Some (a, b)" for a b
    using assms(2) [of a] split_paren_length [OF that] Cons by simp
  then have "(case split_paren 1 ts of None \<Rightarrow> perr ''rparen expected''
     | Some (inside, behind) \<Rightarrow> rbind (get_term n inside) (\<lambda>(num, _). Inr (num, behind))) =
   (case split_paren 1 ts of None \<Rightarrow> perr ''rparen expected''
     | Some (inside, behind) \<Rightarrow> rbind (get_term m inside) (\<lambda>(num, _). Inr (num, behind)))"
    by (auto split: option.splits)
  then show ?thesis using Cons t g by simp
qed simp

lemma get_num_safe:
  assumes "\<And>x. length x < length l \<Longrightarrow> get_num n x \<noteq> Inl RecursionError"
    "\<And>x. Suc (length x) < length l \<Longrightarrow> get_term n x \<noteq> Inl RecursionError"
  shows "get_num (Suc n) l \<noteq> Inl RecursionError"
proof (cases l)
  case (Cons t ts)
  obtain p v where t: "t = (p, v)" by (cases t)
  have g: "get_num n ts \<noteq> Inl RecursionError" using assms(1) Cons by simp
  have "get_term n a \<noteq> Inl RecursionError" if "split_paren 1 ts = Some (a, b)" for a b
    using assms(2) [of a] split_paren_length [OF that] Cons by simp
  then have "(case split_paren 1 ts of None \<Rightarrow> perr ''rparen expected''
     | Some (inside, behind) \<Rightarrow> rbind (get_term n inside) (\<lambda>(num, _). Inr (num, behind))) \<noteq> Inl RecursionError"
    by (auto simp: perr_def split: option.splits)
  moreover have "py_int u \<noteq> Inl RecursionError" for u
    by (cases u) (auto simp: py_int_str_def digits_int_def split: list.splits if_splits)
  moreover have "reduce_nums u w d \<noteq> Inl RecursionError" for u w d
    using calculation(2) by (auto simp: reduce_nums_def apply_op_def split: pval.splits if_splits)
  ultimately show ?thesis using Cons t g by (auto simp: perr_def)
qed (simp add: perr_def)

lemma second_cong:
  assumes "\<And>x. Suc (length x) \<le> length lst \<Longrightarrow> gn x = gn' x"
    "\<And>x. length x \<le> Suc (length lst) \<Longrightarrow> gt x = gt' x"
    "\<And>x u r. gn x = Inr (u, r) \<Longrightarrow> length r < length x"
  shows "second gn gt num v num2 lst = second gn' gt' num v num2 lst"
proof (cases lst)
  case Nil
  then show ?thesis using assms(2) by (simp add: second_def)
next
  case (Cons t l2)
  obtain p2 v2 where t: "t = (p2, v2)" by (cases t)
  have g: "gn l2 = gn' l2" using assms(1) Cons by simp
  have "gt ((NUM, num) # (OP, v) # (NUM, VInt i) # r) = gt' ((NUM, num) # (OP, v) # (NUM, VInt i) # r)"
    if "gn' l2 = Inr (u, r)" for u r i
    using assms(2) assms(3) [of l2 u r] g that Cons by simp
  then have "rbind (gn l2) (\<lambda>(num3, lst). rbind (reduce_nums num2 num3 v2) (\<lambda>i.
        gt ((NUM, num) # (OP, v) # (NUM, VInt i) # lst))) =
      rbind (gn' l2) (\<lambda>(num3, lst). rbind (reduce_nums num2 num3 v2) (\<lambda>i.
        gt' ((NUM, num) # (OP, v) # (NUM, VInt i) # lst)))"
    by (intro rbind_cong [OF g]) auto
  moreover have "gt ((NUM, VInt i) # lst) = gt' ((NUM, VInt i) # lst)" for i using assms(2) by simp
  ultimately show ?thesis using Cons t 
    by (cases "p2 = OP"; cases "prec v2"; cases "prec v") (simp_all add: second_def)
qed

lemma behind_first_cong:
  assumes "\<And>x. Suc (length x) \<le> length lst \<Longrightarrow> gn x = gn' x"
    "\<And>x. length x < Suc (length lst) \<Longrightarrow> gt x = gt' x"
    "\<And>x u r. gn x = Inr (u, r) \<Longrightarrow> length r < length x"
  shows "behind_first gn gt num lst = behind_first gn' gt' num lst"
proof (cases lst)
  case (Cons t l)
  obtain p v where t: "t = (p, v)" by (cases t)
  have g: "gn l = gn' l" "gt l = gt' l" using assms(1,2) Cons by simp_all
  have "second gn gt num v u r = second gn' gt' num v u r" if "gn' l = Inr (u, r)" for u r
    using assms(3) [of l u r] g that Cons by (intro second_cong assms) simp_all
  then have s: "rbind (gn l) (\<lambda>(num2, lst). second gn gt num v num2 lst) =
      rbind (gn' l) (\<lambda>(num2, lst). second gn' gt' num v num2 lst)"
    by (intro rbind_cong [OF g(1)]) auto
  have "gt a = gt' a" "gt b = gt' b" if "split_colon 0 l = Some (a, b)" for a b
    using assms(2) split_colon_length [OF that] Cons by simp_all
  then have "(case split_colon 0 l of None \<Rightarrow> perr ''rparen expected''
     | Some (a, b) \<Rightarrow> rbind (py_int num) (\<lambda>i. if i \<noteq> 0 then gt a else gt b)) =
    (case split_colon 0 l of None \<Rightarrow> perr ''rparen expected''
     | Some (a, b) \<Rightarrow> rbind (py_int num) (\<lambda>i. if i \<noteq> 0 then gt' a else gt' b))"
    by (auto split: option.splits intro!: rbind_cong)
  then show ?thesis using Cons t g s by (simp add: behind_first_def)
qed (simp add: behind_first_def)

lemma py_int_safe [simp]: "py_int u \<noteq> Inl RecursionError"
  by (cases u) (auto simp: py_int_str_def digits_int_def split: list.splits if_splits)

lemma reduce_nums_safe [simp]: "reduce_nums u w d \<noteq> Inl RecursionError"
  by (auto simp: reduce_nums_def apply_op_def split: pval.splits if_splits)

lemma prec_safe [simp]: "prec v \<noteq> Inl RecursionError"
  by (auto simp: prec_def split: pval.splits option.splits)

lemma second_safe:
  assumes "\<And>x. Suc (length x) \<le> length lst \<Longrightarrow> gn x \<noteq> Inl RecursionError"
    "\<And>x. length x \<le> Suc (length lst) \<Longrightarrow> gt x \<noteq> Inl RecursionError"
    "\<And>x u r. gn x = Inr (u, r) \<Longrightarrow> length r < length x"
  shows "second gn gt num v num2 lst \<noteq> Inl RecursionError"
proof (cases lst)
  case Nil
  then show ?thesis using assms(2) by (auto simp: second_def)
next
  case (Cons t l2)
  obtain p2 v2 where t: "t = (p2, v2)" by (cases t)
  have "gt ((NUM, num) # (OP, v) # (NUM, VInt i) # r) \<noteq> Inl RecursionError" if "gn l2 = Inr (u, r)" for u r i
    using assms(2) assms(3) [OF that] Cons by simp
  moreover have "gn l2 \<noteq> Inl RecursionError" using assms(1) Cons by simp
  ultimately have "rbind (gn l2) (\<lambda>(num3, lst). rbind (reduce_nums num2 num3 v2) (\<lambda>i.
        gt ((NUM, num) # (OP, v) # (NUM, VInt i) # lst))) \<noteq> Inl RecursionError"
    by auto
  moreover have "gt ((NUM, VInt i) # lst) \<noteq> Inl RecursionError" for i using assms(2) by simp
  ultimately show ?thesis using Cons t
    by (cases "p2 = OP"; cases "prec v2"; cases "prec v") (auto simp: second_def perr_def)
qed

lemma behind_first_safe:
  assumes "\<And>x. Suc (length x) \<le> length lst \<Longrightarrow> gn x \<noteq> Inl RecursionError"
    "\<And>x. length x < Suc (length lst) \<Longrightarrow> gt x \<noteq> Inl RecursionError"
    "\<And>x u r. gn x = Inr (u, r) \<Longrightarrow> length r < length x"
  shows "behind_first gn gt num lst \<noteq> Inl RecursionError"
proof (cases lst)
  case (Cons t l)
  obtain p v where t: "t = (p, v)" by (cases t)
  have g: "gn l \<noteq> Inl RecursionError" "gt l \<noteq> Inl RecursionError" using assms(1,2) Cons by simp_all
  have "second gn gt num v u r \<noteq> Inl RecursionError" if "gn l = Inr (u, r)" for u r
    using assms(3) [OF that] Cons by (intro second_safe assms) simp_all
  then have s: "rbind (gn l) (\<lambda>(num2, lst). second gn gt num v num2 lst) \<noteq> Inl RecursionError" using g(1) by auto
  have "gt a \<noteq> Inl RecursionError" "gt b \<noteq> Inl RecursionError" if "split_colon 0 l = Some (a, b)" for a b
    using assms(2) split_colon_length [OF that] Cons by simp_all
  then have "(case split_colon 0 l of None \<Rightarrow> perr ''rparen expected''
     | Some (a, b) \<Rightarrow> rbind (py_int num) (\<lambda>i. if i \<noteq> 0 then gt a else gt b)) \<noteq> Inl RecursionError"
    by (auto simp: perr_def split: option.splits)
  then show ?thesis using Cons t g s by (simp add: behind_first_def perr_def)
qed (simp add: behind_first_def)

lemma enough_fuel:
  "(2 * length l + 1 \<le> n \<longrightarrow> 2 * length l + 1 \<le> m \<longrightarrow> get_num n l = get_num m l \<and> get_num n l \<noteq> Inl RecursionError) \<and>
   (2 * length l + 2 \<le> n \<longrightarrow> 2 * length l + 2 \<le> m \<longrightarrow> get_term n l = get_term m l \<and> get_term n l \<noteq> Inl RecursionError)"
proof (induction "length l" arbitrary: l n m rule: less_induct)
  case less
  have ihn: "get_num i x = get_num j x"
    if "length x < length l" "2 * length x + 1 \<le> i" "2 * length x + 1 \<le> j" for x i j
    using less [of x i j] that by blast
  have iht: "get_term i x = get_term j x"
    if "length x < length l" "2 * length x + 2 \<le> i" "2 * length x + 2 \<le> j" for x i j
    using less [of x i j] that by blast
  have sn: "get_num i x \<noteq> Inl RecursionError" if "length x < length l" "2 * length x + 1 \<le> i" for x i
    using less [of x i i] that by blast
  have st: "get_term i x \<noteq> Inl RecursionError" if "length x < length l" "2 * length x + 2 \<le> i" for x i
    using less [of x i i] that by blast
  have num: "get_num i l = get_num j l" "get_num i l \<noteq> Inl RecursionError"
    if ij: "2 * length l + 1 \<le> i" "2 * length l + 1 \<le> j" for i j
  proof -
    obtain i' j' where s: "i = Suc i'" "j = Suc j'" using ij by (cases i; cases j) auto
    show "get_num i l = get_num j l" unfolding s
      by (rule get_num_step; (rule ihn | rule iht); use s ij in simp)
    show "get_num i l \<noteq> Inl RecursionError" unfolding s
      by (rule get_num_safe; (rule sn | rule st); use s ij in simp)
  qed
  moreover have "get_term i l = get_term j l" "get_term i l \<noteq> Inl RecursionError"
    if ij: "2 * length l + 2 \<le> i" "2 * length l + 2 \<le> j" for i j
  proof -
    obtain i' j' where s: "i = Suc i'" "j = Suc j'" using ij by (cases i; cases j) auto
    have e: "get_num i' l = get_num j' l" "get_num i' l \<noteq> Inl RecursionError"
      by (rule num; use s ij in simp)+
    have "behind_first (get_num i') (get_term i') u r = behind_first (get_num j') (get_term j') u r"
      if "get_num j' l = Inr (u, r)" for u r
      by (rule behind_first_cong; (rule ihn | rule iht | rule get_num_shorter); use get_num_shorter [OF that] s ij in simp)
    moreover have "behind_first (get_num i') (get_term i') u r \<noteq> Inl RecursionError"
      if "get_num j' l = Inr (u, r)" for u r
      by (rule behind_first_safe; (rule sn | rule st | rule get_num_shorter); use get_num_shorter [OF that] s ij in simp)
    ultimately have "rbind (get_num i' l) (\<lambda>(u, r). behind_first (get_num i') (get_term i') u r) =
        rbind (get_num j' l) (\<lambda>(u, r). behind_first (get_num j') (get_term j') u r)"
      "rbind (get_num i' l) (\<lambda>(u, r). behind_first (get_num i') (get_term i') u r) \<noteq> Inl RecursionError"
      using e by (auto intro!: rbind_cong)
    then show "get_term i l = get_term j l" "get_term i l \<noteq> Inl RecursionError"
      unfolding s by (cases l; simp add: perr_def)+
  qed
  ultimately show ?case by blast
qed

text \<open>C15: the evaluation of a condition ends: the recursion is at most twice as deep as the condition has tokens, and a
  deeper bound gives the same result, a value or a raise.\<close>

theorem condition_evaluation_ends:
  "get_term (2 * length lst + 2 + n) lst = get_term (2 * length lst + 2) lst \<and>
   get_term (2 * length lst + 2) lst \<noteq> Inl RecursionError"
proof -
  have "get_term (2 * length lst + 2) lst = get_term (2 * length lst + 2 + n) lst \<and>
      get_term (2 * length lst + 2) lst \<noteq> Inl RecursionError"
    using enough_fuel [of lst "2 * length lst + 2" "2 * length lst + 2 + n"] by (metis le_add1 order_refl)
  then show ?thesis by metis
qed

subsection \<open>Expressions with two levels of precedence\<close>

text \<open>The reference: operands, and chains of operands with operators between them. The operators bind as the table
  of precedences says, those of one level to the left. A chain in parentheses is an operand.\<close>

datatype fac = Lit pval | Pos fac | Neg fac | Not fac | Paren chain
  and chain = One fac | Chain fac string chain

primrec fac_toks :: "fac \<Rightarrow> tok list" and chain_toks :: "chain \<Rightarrow> tok list" where
  "fac_toks (Lit v) = [(NUM, v)]"
| "fac_toks (Pos f) = op_tok ''+'' # fac_toks f"
| "fac_toks (Neg f) = op_tok ''-'' # fac_toks f"
| "fac_toks (Not f) = op_tok ''!'' # fac_toks f"
| "fac_toks (Paren c) = op_tok ''('' # chain_toks c @ [op_tok '')'']"
| "chain_toks (One f) = fac_toks f"
| "chain_toks (Chain f d c) = fac_toks f @ op_tok d # chain_toks c"














definition flat :: "(string \<times> fac) list \<Rightarrow> tok list" where
  "flat r = concat (map (\<lambda>(d, f). op_tok d # fac_toks f) r)"

lemma flat_simps [simp]: "flat [] = []" "flat ((d, f) # r) = op_tok d # fac_toks f @ flat r"
  by (simp_all add: flat_def)





















text \<open>Outside of this the evaluator goes wrong. With a third level the look-ahead of one operator is too short: \<open>1
  == 2 + 3 * 4\<close> is read as \<open>1 == (2 + 3) * 4\<close>; here \<open>14 == 2 + 3 * 4\<close> is false.\<close>

lemma third_level_misread:
  "reduce_eval [(NUM, VInt 14), op_tok ''=='', (NUM, VInt 2), op_tok ''+'', (NUM, VInt 3), op_tok ''*'', (NUM, VInt 4)] =
     Inr (NUM, VInt 0)"
  by code_simp

text \<open>A literal \<open>0\<close> is a non-empty string and counts as true on the left of \<open>||\<close>, so \<open>0 || 1\<close> is \<open>0\<close>. A number \<open>0\<close>,
  as \<open>defined\<close> gives, ends the evaluation at \<open>&&\<close> whatever follows: \<open>0 && 1 || 1\<close> is \<open>0\<close>.\<close>

lemma zero_or_one:
  "reduce_eval [(NUM, VStr ''0''), op_tok ''||'', (NUM, VStr ''1'')] = Inr (NUM, VStr ''0'')"
  "reduce_eval [(NUM, VInt 0), op_tok ''&&'', (NUM, VStr ''1''), op_tok ''||'', (NUM, VStr ''1'')] = Inr (NUM, VInt 0)"
  by code_simp+

lemma complement_raises: "reduce_eval (op_tok ''~'' # ts) = Inl UnboundLocalError"
  by (simp add: reduce_eval_def)

end
