(* ===== verification/PreprocLex.thy ===== *)
theory PreprocLex
  imports PreprocEval PyRegex
begin

section \<open>Waf's C preprocessor: lines and tokens\<close>

text \<open>
  The patterns of \<open>src/tools/wafadmin/Tools/preproc.py\<close>, the removal of comments (\<open>filter_comments\<close>,
  \<open>lines_includes\<close>) and the lexer (\<open>tokenize\<close>, \<open>parse_char\<close>). The contents of a file are an argument.
\<close>

subsection \<open>Patterns\<close>

primrec StrI :: "string \<Rightarrow> rx" where
  "StrI [] = Eps"
| "StrI (c # cs) = Seq (Cls (\<lambda>d. py_lower_char d = c)) (StrI cs)"

fun AltN :: "rx list \<Rightarrow> rx" where
  "AltN [] = Cls (\<lambda>d. False)"
| "AltN [r] = r"
| "AltN (r # r' # rs) = Alt r (AltN (r' # rs))"

fun SeqN :: "rx list \<Rightarrow> rx" where
  "SeqN [] = Eps"
| "SeqN [r] = r"
| "SeqN (r # r' # rs) = Seq r (SeqN (r' # rs))"

definition OneOf :: "string \<Rightarrow> rx" where "OneOf cs = Cls (\<lambda>d. d \<in> set cs)"
definition Blank :: rx where "Blank = Cls (\<lambda>d. d = CHR '' '' \<or> d = CHR 0x09)"
definition Digit :: rx where "Digit = Cls py_isdigit"
definition Name0 :: rx where "Name0 = Cls (\<lambda>d. py_isalpha d \<or> d = CHR ''_'')"
definition Hex :: rx where "Hex = Cls (\<lambda>d. py_isdigit d \<or> d \<in> set ''abcdefABCDEF'')"

lemmas [rx_defs] = OneOf_def Blank_def Digit_def Name0_def Hex_def

text \<open>\<^verbatim>\<open>^[ \t]*(#|%:)[ \t]*(ifdef|...|pragma)[ \t]*(.*)\r*$\<close>, ignoring case.\<close>

definition directive_line :: "string list \<Rightarrow> rx" where
  "directive_line ks =
     SeqN [Bol, Star Blank, Grp 1 (Alt (Lit CHR ''#'') (Str ''%:'')), Star Blank, Grp 2 (AltN (map StrI ks)), Star Blank,
           Grp 3 (Star Any), Star (Lit CHR 0x0D), Eol]"

definition re_lines :: rx where
  "re_lines = directive_line [''ifdef'', ''ifndef'', ''if'', ''else'', ''elif'', ''endif'', ''include'', ''import'', ''define'',
     ''undef'', ''pragma'']"

definition re_inc :: rx where "re_inc = directive_line [''include'']"

definition re_mac :: rx where "re_mac = SeqN [Bos, Name0, Star Word]"
definition re_fun :: rx where
  "re_fun = SeqN [Bos, Name0, Star Word, Lit CHR ''('']"
definition re_pragma_once :: rx where
  "re_pragma_once = SeqN [Bos, Star Space, StrI ''once'', Star Space]"

text \<open>\<^verbatim>\<open>\\\r*\n\<close>.\<close>

definition re_nl :: rx where
  "re_nl = SeqN [Lit CHR 0x5C, Star (Lit CHR 0x0D), Lit CHR 0x0A]"

text \<open>\<^verbatim>\<open>(/\*[^*]*\*+([^/*][^*]*\*+)*/)|//[^\n]*|("(\\.|[^"\\])*"|'(\\.|[^'\\])*'|.[^/"'\\]*)\<close>\<close>

definition quoted :: "nat \<Rightarrow> char \<Rightarrow> rx" where
  "quoted k q = SeqN [Lit q, Star (Grp k (Alt (Seq (Lit CHR 0x5C) Any) (NotIn [q, CHR 0x5C]))), Lit q]"

definition re_cpp :: rx where
  "re_cpp =
     AltN
       [Grp 1 (SeqN [Str ''/*'', Star (NotIn ''*''), Plus (Lit CHR ''*''),
          Star (Grp 2 (SeqN [NotIn ''/*'', Star (NotIn ''*''), Plus (Lit CHR ''*'')])), Lit CHR ''/'']),
        Seq (Str ''//'') (Star (NotIn [CHR 0x0A])),
        Grp 3 (AltN [quoted 4 CHR 0x22, quoted 5 CHR 0x27, Seq Any (Star (NotIn [CHR ''/'', CHR 0x22, CHR 0x27, CHR 0x5C]))])]"

text \<open>The lexer. The groups: 1 to 4 the kinds of tokens; of numbers, 5 \<open>hex\<close>, 6 \<open>char\<close>, 7 \<open>n2\<close>, 8 \<open>n4\<close>, 9 \<open>oct\<close>,
  10 \<open>n0\<close>. The other groups of the source are not read.\<close>

definition exponent :: rx where "exponent = SeqN [OneOf ''Ee'', LazyStar (OneOf ''+-''), Plus Digit]"

definition num_rx :: rx where
  "num_rx =
     AltN
       [SeqN [Lit CHR ''0'', OneOf ''xX'', Grp 5 (Plus Hex), Star (OneOf ''uUlL'')],
        SeqN [LazyStar (Lit CHR ''L''), Lit CHR 0x27, Grp 6 (Plus (Alt (Seq (Lit CHR 0x5C) Any) (NotIn [CHR 0x5C, CHR 0x27]))), Lit CHR 0x27],
        SeqN [Plus Digit, exponent, Star (OneOf ''fFlL'')],
        SeqN [Grp 7 (SeqN [Star Digit, Lit CHR ''.'', Plus Digit]), Opt exponent, Star (OneOf ''fFlL'')],
        SeqN [Grp 8 (SeqN [Plus Digit, Lit CHR ''.'', Star Digit]), Opt exponent, Star (OneOf ''fFlL'')],
        SeqN [Grp 9 (Star (Lit CHR ''0'')), Grp 10 (Plus Digit), Star (OneOf ''uUlL'')]]"

definition str_rx :: rx where
  "str_rx = SeqN [Opt (Lit CHR ''L''), Lit CHR 0x22, Star (Alt (NotIn [CHR 0x22, CHR 0x5C]) (Seq (Lit CHR 0x5C) Any)), Lit CHR 0x22]"

definition ident_rx :: rx where "ident_rx = Seq Name0 (Star Word)"

definition op_texts :: "string list" where
  "op_texts = [''%:%:'', ''<<='', ''>>='', ''...'', ''<<'', ''<%'', ''<:'', ''<='', ''>>'', ''>='', ''++'', ''+='', ''--'', ''->'',
     ''-='', ''*='', ''/='', ''%:'', ''%='', ''%>'', ''=='', ''&&'', ''&='', ''||'', ''|='', ''^='', '':>'', ''!='', ''##'']"

definition op_rx :: rx where
  "op_rx = AltN (map Str op_texts @ [OneOf ''(){}[]<>?|^*+&=:!#;,%/-?~.''])"

definition re_clexer :: rx where
  "re_clexer = AltN [Grp 1 num_rx, Grp 2 str_rx, Grp 3 ident_rx, Grp 4 op_rx]"

subsection \<open>Comments and directives\<close>

definition cpp_repl :: "string \<Rightarrow> nat \<times> nat \<times> caps \<Rightarrow> string" where
  "cpp_repl s m =
     (case mgroup s m 1 of
        Some _ \<Rightarrow> '' ''
      | None \<Rightarrow> (case mgroup s m 3 of None \<Rightarrow> [] | Some t \<Rightarrow> t))"

text \<open>Trigraphs: the result of \<open>split\<close> is a list and has no \<open>join\<close>.\<close>

definition strip_code :: "bool \<Rightarrow> string \<Rightarrow> string res" where
  "strip_code use_trigraphs code =
     (if use_trigraphs then Inl AttributeError
      else let code = re_sub re_nl (\<lambda>_. []) code in Inr (re_sub re_cpp (cpp_repl code) code))"

definition line_of :: "string \<Rightarrow> nat \<times> nat \<times> caps \<Rightarrow> string \<times> string" where
  "line_of s m =
     (case mgroup s m 2 of None \<Rightarrow> [] | Some t \<Rightarrow> t, case mgroup s m 3 of None \<Rightarrow> [] | Some t \<Rightarrow> t)"

definition filter_comments :: "bool \<Rightarrow> string \<Rightarrow> (string \<times> string) list res" where
  "filter_comments use_trigraphs code =
     rbind (strip_code use_trigraphs code) (\<lambda>s. Inr (map (line_of s) (finditer re_lines s)))"

definition lines_includes :: "bool \<Rightarrow> string \<Rightarrow> (string \<times> string) list res" where
  "lines_includes use_trigraphs code =
     rbind (strip_code use_trigraphs code) (\<lambda>s. Inr (map (line_of s) (finditer re_inc s)))"

subsection \<open>Tokens\<close>

text \<open>\<open>int(s, base)\<close>.\<close>

definition digit_val :: "char \<Rightarrow> nat" where
  "digit_val c =
     (if py_isdigit c then ord c - 48
      else if py_isalpha c then ord (py_lower_char c) - 87 else 99)"

definition base_digits :: "nat \<Rightarrow> string \<Rightarrow> int res" where
  "base_digits b s =
     (if s \<noteq> [] \<and> list_all (\<lambda>c. digit_val c < b) s then Inr (int (foldl (\<lambda>a c. b * a + digit_val c) 0 s))
      else Inl ValueError)"

definition drop_prefix :: "nat \<Rightarrow> string \<Rightarrow> string" where
  "drop_prefix b s =
     (if b = 16 \<and> py_lower (take 2 s) = ''0x'' then drop 2 s
      else if b = 8 \<and> py_lower (take 2 s) = ''0o'' then drop 2 s else s)"

definition py_int_base :: "nat \<Rightarrow> string \<Rightarrow> int res" where
  "py_int_base b s =
     (case py_strip s of
        [] \<Rightarrow> Inl ValueError
      | c # cs \<Rightarrow>
          if c = CHR ''-'' then rbind (base_digits b (drop_prefix b cs)) (\<lambda>i. Inr (- i))
          else if c = CHR ''+'' then base_digits b (drop_prefix b cs)
          else base_digits b (drop_prefix b (c # cs)))"

definition chr_esc :: "(char \<times> int) list" where
  "chr_esc = [(CHR ''0'', 0), (CHR ''a'', 7), (CHR ''b'', 8), (CHR ''t'', 9), (CHR ''n'', 10), (CHR ''f'', 11), (CHR ''v'', 12),
     (CHR ''r'', 13), (CHR 0x5C, 92), (CHR 0x27, 39)]"

text \<open>Octal characters give a pair. The lengths are tried from 3 down.\<close>

fun octal_char :: "string \<Rightarrow> nat list \<Rightarrow> pval res" where
  "octal_char txt [] = Inr VNone"
| "octal_char txt (i # is) =
     (if i < length txt \<and> list_all py_isdigit (py_slice txt 1 (1 + i))
      then rbind (py_int_base 8 (py_slice txt 1 (1 + i))) (\<lambda>n. Inr (VPair (int (1 + i)) n))
      else octal_char txt is)"

definition parse_char :: "string \<Rightarrow> pval res" where
  "parse_char txt =
     (case txt of
        [] \<Rightarrow> perr ''attempted to parse a null char''
      | c0 # cs \<Rightarrow>
          if c0 \<noteq> CHR 0x5C then (if cs = [] then Inr (VInt (int (ord c0))) else Inl TypeError)
          else
            case cs of
              [] \<Rightarrow> Inl IndexError
            | c # _ \<Rightarrow>
                if c = CHR ''x'' then rbind (py_int_base 16 (drop 2 txt)) (\<lambda>i. Inr (VInt i))
                else if py_isdigit c then
                  if c = CHR ''0'' \<and> length txt = 2 then Inr (VInt 0) else octal_char txt [3, 2, 1]
                else (case map_of chr_esc c of Some i \<Rightarrow> Inr (VInt i) | None \<Rightarrow> perr ''could not parse char literal''))"

definition g_optrans :: "(string \<times> string) list" where
  "g_optrans = [(''not'', ''!''), (''and'', ''&&''), (''bitand'', ''&''), (''and_eq'', ''&=''), (''or'', ''||''), (''bitor'', ''|''),
     (''or_eq'', ''|=''), (''xor'', ''^''), (''xor_eq'', ''^=''), (''compl'', ''~'')]"

text \<open>A group that matched a non-empty text, as the tests of the source ask.\<close>

definition group_text :: "string \<Rightarrow> nat \<times> nat \<times> caps \<Rightarrow> nat \<Rightarrow> string option" where
  "group_text s m k = (case mgroup s m k of Some t \<Rightarrow> if t = [] then None else Some t | None \<Rightarrow> None)"

definition num_token :: "string \<Rightarrow> nat \<times> nat \<times> caps \<Rightarrow> string \<Rightarrow> tok res" where
  "num_token s m v =
     rbind
       (if group_text s m 9 \<noteq> None then rbind (py_int_base 8 v) (\<lambda>i. Inr (VInt i))
        else case group_text s m 5 of
          Some h \<Rightarrow> rbind (py_int_base 16 h) (\<lambda>i. Inr (VInt i))
        | None \<Rightarrow>
            (case group_text s m 10 of
               Some t \<Rightarrow> Inr (VStr t)
             | None \<Rightarrow>
                 (case group_text s m 6 of
                    Some t \<Rightarrow> parse_char t
                  | None \<Rightarrow>
                      (case group_text s m 7 of
                         Some t \<Rightarrow> Inr (VStr t)
                       | None \<Rightarrow> (case mgroup s m 8 of Some t \<Rightarrow> Inr (VStr t) | None \<Rightarrow> Inr VNone)))))
       (\<lambda>v. Inr (NUM, v))"

definition ident_token :: "string \<Rightarrow> tok" where
  "ident_token v =
     (case map_of g_optrans v of
        Some d \<Rightarrow> op_tok d
      | None \<Rightarrow>
          if py_lower v = ''true'' then (NUM, VInt 1)
          else if py_lower v = ''false'' then (NUM, VInt 0)
          else (IDENT, VStr v))"

definition op_token :: "string \<Rightarrow> tok" where
  "op_token v = (if v = ''%:'' then op_tok ''#'' else if v = ''%:%:'' then op_tok ''##'' else op_tok v)"

text \<open>The quotes are removed as the first and the last character, so of \<open>L"a"\<close> a quote remains.\<close>

definition str_token :: "string \<Rightarrow> tok" where
  "str_token v = (STR_TOK, VStr (butlast (tl v)))"

definition token_of :: "string \<Rightarrow> nat \<times> nat \<times> caps \<Rightarrow> tok list res" where
  "token_of s m =
     (case group_text s m 1 of
        Some v \<Rightarrow> rbind (num_token s m v) (\<lambda>t. Inr [t])
      | None \<Rightarrow>
          (case group_text s m 2 of
             Some v \<Rightarrow> Inr [str_token v]
           | None \<Rightarrow>
               (case group_text s m 3 of
                  Some v \<Rightarrow> Inr [ident_token v]
                | None \<Rightarrow> (case group_text s m 4 of Some v \<Rightarrow> Inr [op_token v] | None \<Rightarrow> Inr []))))"

fun tokens_of :: "string \<Rightarrow> (nat \<times> nat \<times> caps) list \<Rightarrow> tok list res" where
  "tokens_of s [] = Inr []"
| "tokens_of s (m # ms) = rbind (token_of s m) (\<lambda>t. rbind (tokens_of s ms) (\<lambda>ts. Inr (t @ ts)))"

definition tokenize :: "string \<Rightarrow> tok list res" where
  "tokenize s = tokens_of s (finditer re_clexer s)"

lemma tokenize_examples:
  "tokenize ''defined(A)&&B>=0x1f'' =
     Inr [(IDENT, VStr ''defined''), op_tok ''('', (IDENT, VStr ''A''), op_tok '')'', op_tok ''&&'', (IDENT, VStr ''B''), op_tok ''>='',
       (NUM, VInt 31)]"
  by code_simp

subsection \<open>Names\<close>

definition name0 :: "char \<Rightarrow> bool" where "name0 c \<longleftrightarrow> py_isalpha c \<or> c = CHR ''_''"

definition is_name :: "string \<Rightarrow> bool" where
  "is_name s \<longleftrightarrow> s \<noteq> [] \<and> name0 (hd s) \<and> list_all is_word_char s"

lemma name0_not:
  assumes "name0 c"
  shows "is_word_char c" "\<not> py_isdigit c" "c \<noteq> CHR ''0''" "c \<noteq> CHR ''.''"
  using assms by (auto simp: name0_def char_defs)

lemma rmatch_Star_none: "i \<ge> length s \<or> \<not> p (s ! i) \<Longrightarrow> rmatch (Star (Cls p)) s i c = [(i, c)]"
  by (cases "i < length s") (auto simp: rmatch_Star_Cls span_Suc simp del: rmatch.simps(5))

text \<open>In a text without quotes neither numbers nor strings start at a character that is no digit and no dot.\<close>

lemma num_rx_none:
  assumes "\<not> py_isdigit (s ! i)" "s ! i \<noteq> CHR ''.''" "CHR 0x27 \<notin> set s"
  shows "rmatch num_rx s i c = []"
proof -
  have z: "s ! i \<noteq> CHR ''0''" using assms(1) by (auto simp: char_defs)
  have "rmatch (SeqN [LazyStar (Lit CHR ''L''), Lit CHR 0x27, Grp 6 (Plus (Alt (Seq (Lit CHR 0x5C) Any) (NotIn [CHR 0x5C, CHR 0x27]))),
      Lit CHR 0x27]) s i c = []"
    unfolding SeqN.simps by (rule rmatch_Seq_Nil) (rule rmatch_Lit_Nil [OF assms(3)])
  then show ?thesis
    using assms(1,2) z
    by (simp add: num_rx_def rmatch_Star_none Lit_def Digit_def Plus_def del: rmatch.simps(5,6))
qed

lemma str_rx_none: "CHR 0x22 \<notin> set s \<Longrightarrow> rmatch str_rx s i c = []"
  unfolding str_rx_def SeqN.simps by (rule rmatch_Seq_Nil) (rule rmatch_Lit_Nil)

lemma word_run:
  assumes "i < length s" "name0 (s ! i)"
  shows "\<exists>ms. rmatch ident_rx s i c = (i + span is_word_char s i, c) # ms"
proof -
  have w: "is_word_char (s ! i)" using name0_not(1) [OF assms(2)] .
  have "rmatch ident_rx s i c = map (\<lambda>j. (j, c)) (rev [Suc i..<Suc (Suc i + span is_word_char s (Suc i))])"
    using assms rmatch_Star_Cls [of is_word_char s "Suc i" c]
    by (simp add: ident_rx_def Name0_def Word_def name0_def del: rmatch.simps(5) upt_Suc)
  then show ?thesis using assms(1) w by (simp add: run_head span_Suc)
qed

lemma clexer_name:
  assumes "i < length s" "name0 (s ! i)" "CHR 0x27 \<notin> set s" "CHR 0x22 \<notin> set s"
  shows "\<exists>ms. rmatch re_clexer s i Map.empty =
    (i + span is_word_char s i, [3 \<mapsto> (i, i + span is_word_char s i)]) # ms"
proof -
  obtain ms where "rmatch ident_rx s i Map.empty = (i + span is_word_char s i, Map.empty) # ms"
    using word_run [OF assms(1,2)] by blast
  then show ?thesis
    using num_rx_none [OF name0_not(2,4) [OF assms(2)] assms(3)] str_rx_none [OF assms(4)] by (simp add: re_clexer_def)
qed

lemma clexer_space:
  assumes "i < length s" "s ! i = CHR '' ''" "CHR 0x27 \<notin> set s" "CHR 0x22 \<notin> set s"
  shows "rmatch re_clexer s i Map.empty = []"
proof -
  have "rmatch num_rx s i Map.empty = []"
    by (rule num_rx_none) (use assms in \<open>simp_all add: char_defs\<close>)
  moreover have "rmatch ident_rx s i Map.empty = []" using assms by (simp add: ident_rx_def Name0_def char_defs)
  moreover have "rmatch op_rx s i Map.empty = []" using assms by (simp add: op_rx_def op_texts_def OneOf_def Lit_def)
  ultimately show ?thesis using str_rx_none [OF assms(4)] by (simp add: re_clexer_def)
qed

lemma clexer_end: "rmatch re_clexer s (length s) Map.empty = []"
proof -
  have "rmatch num_rx s (length s) Map.empty = []"
    by (simp add: num_rx_def Lit_def Digit_def Plus_def)
  then show ?thesis
    by (simp add: re_clexer_def str_rx_def ident_rx_def op_rx_def op_texts_def Lit_def Name0_def OneOf_def Opt_def)
qed

lemma finditer_end: "finditer_from re_clexer s (length s) = []"
  by (subst finditer_from.simps) (simp add: clexer_end, subst finditer_from.simps, simp)

text \<open>Two names with a space between them.\<close>

lemma is_name_chars: "is_name s \<Longrightarrow> CHR 0x27 \<notin> set s \<and> CHR 0x22 \<notin> set s \<and> CHR '' '' \<notin> set s"
  by (auto simp: is_name_def list_all_iff char_defs)

lemma finditer_names:
  assumes "is_name a" "is_name b"
  shows "finditer re_clexer (a @ '' '' @ b) =
    [(0, length a, [3 \<mapsto> (0, length a)]), (Suc (length a), length (a @ '' '' @ b), [3 \<mapsto> (Suc (length a), length (a @ '' '' @ b))])]"
proof -
  let ?s = "a @ '' '' @ b"
  have q: "CHR 0x27 \<notin> set ?s" "CHR 0x22 \<notin> set ?s" using is_name_chars assms by auto
  have wa: "\<forall>c \<in> set a. is_word_char c" and wb: "\<forall>c \<in> set b. is_word_char c"
    using assms by (auto simp: is_name_def list_all_iff)
  have sp: "\<not> is_word_char CHR '' ''" by (simp add: char_defs)
  have s0: "span is_word_char ?s 0 = length a" by (rule span_eq [of 0 ?s a "'' '' @ b"]) (use wa sp in auto)
  have s1: "span is_word_char ?s (Suc (length a)) = length b" by (rule span_eq [of _ ?s b "[]"]) (use wb in auto)
  have n0: "0 < length ?s" "name0 (?s ! 0)" using assms(1) by (auto simp: is_name_def nth_append hd_conv_nth)
  have n1: "Suc (length a) < length ?s" "name0 (?s ! Suc (length a))"
    using assms(2) by (auto simp: is_name_def nth_append hd_conv_nth)
  obtain m0 where m0: "rmatch re_clexer ?s 0 Map.empty = (length a, [3 \<mapsto> (0, length a)]) # m0"
    using clexer_name [OF n0 q] s0 by auto
  obtain m1 where m1: "rmatch re_clexer ?s (Suc (length a)) Map.empty =
      (length ?s, [3 \<mapsto> (Suc (length a), length ?s)]) # m1"
    using clexer_name [OF n1 q] s1 by auto
  have "?s ! length a = CHR '' ''" by (simp add: nth_append)
  then have m2: "rmatch re_clexer ?s (length a) Map.empty = []" by (intro clexer_space) (use q in auto)
  have a: "0 < length a" using assms(1) by (auto simp: is_name_def)
  have "finditer_from re_clexer ?s (Suc (length a)) = [(Suc (length a), length ?s, [3 \<mapsto> (Suc (length a), length ?s)])]"
    using m1 n1(1) finditer_end [of ?s] by (subst finditer_from.simps) simp
  moreover have "finditer_from re_clexer ?s (length a) = finditer_from re_clexer ?s (Suc (length a))"
    using m2 by (subst finditer_from.simps) simp
  ultimately show ?thesis unfolding finditer_def using m0 a by (subst finditer_from.simps) simp
qed

lemma tokenize_names:
  assumes "is_name a" "is_name b"
  shows "tokenize (a @ '' '' @ b) = Inr [ident_token a, ident_token b]"
proof -
  have "a \<noteq> []" "b \<noteq> []" using assms by (auto simp: is_name_def)
  then show ?thesis
    unfolding tokenize_def finditer_names [OF assms]
    by (simp add: token_of_def group_text_def mgroup_def py_slice_def)
qed

end
