(* ===== verification/PreprocMacro.thy ===== *)
theory PreprocMacro
  imports PreprocLex "HOL-Library.AList"
begin

section \<open>Waf's C preprocessor: macros\<close>

text \<open>
  \<open>reduce_tokens\<close>, \<open>eval_macro\<close>, \<open>extract_macro\<close> and \<open>extract_include\<close> of \<open>src/tools/wafadmin/Tools/preproc.py\<close>. A
  definition is kept as its text until the macro is used, when the table is updated with the parsed macro. So an
  operation returns its result, or the exception, together with the table.
\<close>

subsection \<open>Definitions of macros\<close>

datatype mdef = Raw string | Obj "tok list" | Fun "(string \<times> nat) list" "tok list"

type_synonym defs = "(string \<times> mdef) list"
type_synonym 'a dm = "defs \<Rightarrow> 'a res \<times> defs"

definition dret :: "'a \<Rightarrow> 'a dm" where "dret a D = (Inr a, D)"
definition dlift :: "'a res \<Rightarrow> 'a dm" where "dlift r D = (r, D)"
definition dbind :: "'a dm \<Rightarrow> ('a \<Rightarrow> 'b dm) \<Rightarrow> 'b dm" where
  "dbind x g D = (case x D of (Inl e, D) \<Rightarrow> (Inl e, D) | (Inr a, D) \<Rightarrow> g a D)"

lemma dm_simps [simp]:
  "dret a D = (Inr a, D)" "dlift r D = (r, D)" "dbind (dret a) g = g a"
  by (auto simp: dret_def dlift_def dbind_def)

lemma dbind_Inr [simp]: "x D = (Inr a, D') \<Longrightarrow> dbind x g D = g a D'"
  by (simp add: dbind_def)

lemma dbind_Inl [simp]: "x D = (Inl e, D') \<Longrightarrow> dbind x g D = (Inl e, D')"
  by (simp add: dbind_def)

text \<open>\<open>v in defs\<close> for the value of a token.\<close>

definition def_of :: "pval \<Rightarrow> defs \<Rightarrow> mdef option" where
  "def_of v D = (case v of VStr s \<Rightarrow> map_of D s | _ \<Rightarrow> None)"

text \<open>The parameters of \<open>extract_macro\<close>: the loop over the tokens behind the opening parenthesis. \<open>prev\<close> is the last
  thing read: the parenthesis, a name or a comma. Reading behind the last token raises.\<close>

datatype prev = OpenParen | AName | AComma

fun parse_params :: "prev \<Rightarrow> nat \<Rightarrow> (string \<times> nat) list \<Rightarrow> tok list \<Rightarrow> ((string \<times> nat) list \<times> tok list) res" where
  "parse_params prev i ps [] = Inl IndexError"
| "parse_params OpenParen i ps ((p, v) # ts) =
     (if p = IDENT then
        (case v of VStr s \<Rightarrow> parse_params AName (Suc i) (AList.update s i ps) ts | _ \<Rightarrow> Inl Unmodelled)
      else if (p, v) = op_tok '')'' then Inr (ps, ts)
      else perr ''unexpected token (3)'')"
| "parse_params AName i ps ((p, v) # ts) =
     (if (p, v) = op_tok '','' then parse_params AComma i ps ts
      else if (p, v) = op_tok '')'' then Inr (ps, ts)
      else perr ''comma or ... expected'')"
| "parse_params AComma i ps ((p, v) # ts) =
     (if p = IDENT then
        (case v of VStr s \<Rightarrow> parse_params AName (Suc i) (AList.update s i ps) ts | _ \<Rightarrow> Inl Unmodelled)
      else if (p, v) = op_tok ''...'' then perr ''not implemented (1)''
      else perr ''comma or ... expected (2)'')"

definition extract_macro :: "string \<Rightarrow> (pval \<times> mdef) res" where
  "extract_macro txt =
     rbind (tokenize txt) (\<lambda>t.
       if re_search re_fun txt \<noteq> None then
         (case t of
            (p0, name) # (p, v) # ts \<Rightarrow>
              if p \<noteq> OP then perr ''expected open parenthesis''
              else rbind (parse_params OpenParen 0 [] ts) (\<lambda>(ps, ts). Inr (name, Fun ps ts))
          | _ \<Rightarrow> Inl IndexError)
       else
         (case t of
            (p, v) # ts \<Rightarrow> Inr (v, Obj ts)
          | [] \<Rightarrow> Inl IndexError))"

text \<open>\<open>defs[v]\<close>, parsed when it is still a text.\<close>

definition macro_def :: "string \<Rightarrow> mdef \<Rightarrow> mdef dm" where
  "macro_def v m =
     (case m of
        Raw txt \<Rightarrow> (\<lambda>D. case extract_macro txt of Inl e \<Rightarrow> (Inl e, D) | Inr (a, b) \<Rightarrow> (Inr b, AList.update v b D))
      | _ \<Rightarrow> dret m)"

subsection \<open>Arguments\<close>

text \<open>The tokens behind the opening parenthesis: arguments read so far, the current one, the depth.\<close>

fun collect_args :: "tok list list \<Rightarrow> tok list \<Rightarrow> int \<Rightarrow> tok list \<Rightarrow> (tok list list \<times> tok list) res" where
  "collect_args args one k [] = perr ''malformed macro''"
| "collect_args args one k ((p, v) # ts) =
     (if p = OP \<and> k = 0 then
        if v = VStr ''('' then collect_args args (one @ [(p, v)]) (k + 1) ts
        else if v = VStr '')'' then Inr (if one \<noteq> [] then args @ [one] else args, ts)
        else if v = VStr '','' then
          if one = [] then perr ''empty param in funcall'' else collect_args (args @ [one]) [] k ts
        else collect_args args (one @ [(p, v)]) k ts
      else
        collect_args args (one @ [(p, v)])
          (if v = VStr ''('' then k + 1 else if v = VStr '')'' then k - 1 else k) ts)"

definition py_str_int :: "int \<Rightarrow> string" where
  "py_str_int i = (if i < 0 then CHR ''-'' # py_str_nat (nat (- i)) else py_str_nat (nat i))"

fun py_str_val :: "pval \<Rightarrow> string" where
  "py_str_val (VStr s) = s"
| "py_str_val (VInt i) = py_str_int i"
| "py_str_val (VPair a b) = ''('' @ py_str_int a @ '', '' @ py_str_int b @ '')''"
| "py_str_val VNone = ''None''"

definition stringize :: "tok list \<Rightarrow> string" where
  "stringize lst = concat (map (\<lambda>(p, v). py_str_val v) lst)"

text \<open>The sum of two values: strings are joined, numbers added. (Pairs have no sum here.)\<close>

fun py_add :: "pval \<Rightarrow> pval \<Rightarrow> pval res" where
  "py_add (VStr a) (VStr b) = Inr (VStr (a @ b))"
| "py_add (VInt a) (VInt b) = Inr (VInt (a + b))"
| "py_add (VPair a b) (VPair c d) = Inl Unmodelled"
| "py_add a b = Inl TypeError"

definition paste_tokens :: "tok \<Rightarrow> tok \<Rightarrow> tok res" where
  "paste_tokens t1 t2 =
     (if fst t1 = OP \<and> fst t2 = OP then rbind (py_add (snd t1) (snd t2)) (\<lambda>v. Inr (OP, v))
      else if fst t1 = IDENT \<and> (fst t2 = IDENT \<or> fst t2 = NUM) then rbind (py_add (snd t1) (snd t2)) (\<lambda>v. Inr (IDENT, v))
      else if fst t1 = NUM \<and> fst t2 = NUM then rbind (py_add (snd t1) (snd t2)) (\<lambda>v. Inr (NUM, v))
      else perr ''tokens do not make a valid paste'')"

text \<open>\<open>args[arg_table[v]]\<close>, when \<open>v\<close> is a parameter.\<close>

definition param :: "(string \<times> nat) list \<Rightarrow> tok \<Rightarrow> nat option" where
  "param tbl t = (case t of (IDENT, VStr s) \<Rightarrow> map_of tbl s | _ \<Rightarrow> None)"

text \<open>\<open>__VA_ARGS__\<close>: the arguments from an index on, negative ones counted from the end, joined with commas.\<close>

definition va_args :: "nat \<Rightarrow> tok list list \<Rightarrow> tok list" where
  "va_args st args =
     (let k = int (length args) - int st + 1;
          k = (if k < 0 then max 0 (k + int (length args)) else k)
      in butlast (concat (map (\<lambda>x. x @ [op_tok '','']) (drop (nat k) args))))"

definition va_paste :: "nat \<Rightarrow> tok list list \<Rightarrow> tok list \<Rightarrow> tok list" where
  "va_paste st args accu =
     (let accu' =
        (if 1 < length accu \<and> snd (last accu) = VStr ''##'' then
           let a = butlast accu in
           if snd (last a) = VStr '','' \<and> length args < st then butlast a else a
         else accu)
      in accu' @ va_args st args)"

text \<open>One \<open>##\<close> with a token on both sides.\<close>

definition paste_step :: "(string \<times> nat) list \<Rightarrow> tok list list \<Rightarrow> tok list \<Rightarrow> tok \<Rightarrow> tok list res" where
  "paste_step tbl args accu t2 =
     (case param tbl t2 of
        Some k \<Rightarrow>
          if k < length args then
            (case args ! k of
               [] \<Rightarrow> Inr (accu @ [op_tok ''##''])
             | a # as \<Rightarrow> rbind (paste_tokens (last accu) a) (\<lambda>t. Inr (butlast accu @ [t] @ as)))
          else Inl IndexError
      | None \<Rightarrow>
          if t2 = (IDENT, VStr ''__VA_ARGS__'') then Inr (va_paste (length tbl) args accu)
          else rbind (paste_tokens (last accu) t2) (\<lambda>t. Inr (butlast accu @ [t])))"

subsection \<open>Replacing macros\<close>

text \<open>The value of \<open>defined\<close>.\<close>

definition defined_tok :: "pval \<Rightarrow> defs \<Rightarrow> tok" where
  "defined_tok v D = (NUM, VInt (of_bool (def_of v D \<noteq> None)))"

text \<open>\<open>reduce_tokens\<close>: the tokens are replaced from the left. The index moves on by one behind each replacement, so
  the token behind an expanded macro without parameters is passed over, and so is the first token of an expanded call.
  The number bounds iterations and nested expansions; the parameter \<open>ban\<close> is never read. An argument is expanded in
  place: the list of arguments changes. \<open>subst\<close> is the loop over the tokens of the macro.\<close>

fun reduce_tokens :: "nat \<Rightarrow> tok list \<Rightarrow> tok list dm"
  and subst :: "nat \<Rightarrow> (string \<times> nat) list \<Rightarrow> tok list list \<Rightarrow> tok list \<Rightarrow> tok list \<Rightarrow> tok list dm"
  and pass_over :: "nat \<Rightarrow> tok list \<Rightarrow> tok list dm" where
  "reduce_tokens 0 lst = dlift (Inl RecursionError)"
| "reduce_tokens (Suc n) [] = dret []"
| "reduce_tokens (Suc n) ((p, v) # lst) =
     (\<lambda>D.
       if p = IDENT \<and> v = VStr ''defined'' then
         (case lst of
            [] \<Rightarrow> (Inr [], D)
          | (p2, v2) # lst2 \<Rightarrow>
              if p2 = IDENT then dbind (reduce_tokens n lst2) (\<lambda>r. dret (defined_tok v2 D # r)) D
              else if (p2, v2) = op_tok ''('' then
                (case lst2 of
                   (p3, v3) # (p4, v4) # lst4 \<Rightarrow> dbind (reduce_tokens n lst4) (\<lambda>r. dret (defined_tok v3 D # r)) D
                 | _ \<Rightarrow> (Inl IndexError, D))
              else (perr ''invalid define expression'', D))
       else
         case (if p = IDENT then def_of v D else None) of
           None \<Rightarrow> dbind (reduce_tokens n lst) (\<lambda>r. dret ((p, v) # r)) D
         | Some m \<Rightarrow>
             dbind (macro_def (py_str_val v) m) (\<lambda>m.
               case m of
                 Fun tbl body \<Rightarrow>
                   (case lst of
                      [] \<Rightarrow> dlift (perr ''expected '(' (got nothing)'')
                    | t2 # lst2 \<Rightarrow>
                        if t2 \<noteq> op_tok ''('' then dlift (perr ''expected '(' '')
                        else
                          (case collect_args [] [] 0 lst2 of
                             Inl e \<Rightarrow> dlift (Inl e)
                           | Inr (args, lst3) \<Rightarrow>
                               dbind (subst n tbl args [] body) (\<lambda>accu.
                               dbind (reduce_tokens n accu) (\<lambda>accu. pass_over n (accu @ lst3)))))
               | Obj body \<Rightarrow> dbind (pass_over n lst) (\<lambda>r. dret (body @ r))
               | Raw txt \<Rightarrow> dlift (Inl Unmodelled)) D)"
| "subst 0 tbl args accu body = dlift (Inl RecursionError)"
| "subst (Suc n) tbl args accu [] = dret accu"
| "subst (Suc n) tbl args accu (t # ts) =
     (if t = op_tok ''#'' then
        (case ts of
           [] \<Rightarrow> subst n tbl args (accu @ [t]) ts
         | t2 # ts2 \<Rightarrow>
             (case param tbl t2 of
                Some k \<Rightarrow>
                  if k < length args then subst n tbl args (accu @ [(STR_TOK, VStr (stringize (args ! k)))]) ts2
                  else dlift (Inl IndexError)
              | None \<Rightarrow> subst n tbl args (accu @ [t]) ts))
      else if t = op_tok ''##'' then
        (case ts of
           [] \<Rightarrow> subst n tbl args (accu @ [t]) ts
         | t2 # ts2 \<Rightarrow>
             if accu = [] then subst n tbl args (accu @ [t]) ts
             else dbind (dlift (paste_step tbl args accu t2)) (\<lambda>accu. subst n tbl args accu ts2))
      else
        (case param tbl t of
           Some k \<Rightarrow>
             if k < length args then
               dbind (reduce_tokens n (args ! k)) (\<lambda>toks. subst n tbl (args[k := toks]) (accu @ toks) ts)
             else dlift (Inl IndexError)
         | None \<Rightarrow> subst n tbl args (accu @ [t]) ts))"
| "pass_over 0 lst = dlift (Inl RecursionError)"
| "pass_over (Suc n) [] = dret []"
| "pass_over (Suc n) (t # ts) = dbind (reduce_tokens n ts) (\<lambda>r. dret (t # r))"

definition eval_macro :: "nat \<Rightarrow> tok list \<Rightarrow> bool dm" where
  "eval_macro n lst =
     dbind (reduce_tokens n lst) (\<lambda>lst.
       if lst = [] then dlift (perr ''missing tokens to evaluate'')
       else dlift (rbind (reduce_eval lst) (\<lambda>(p, v). rbind (py_int v) (\<lambda>i. Inr (i \<noteq> 0)))))"

subsection \<open>Includes\<close>

text \<open>\<^verbatim>\<open>^\s*(<(?P<a>.*)>|"(?P<b>.*)")\<close>\<close>

definition re_include :: rx where
  "re_include =
     SeqN [Bos, Star Space, Alt (SeqN [Lit CHR ''<'', Grp 2 (Star Any), Lit CHR ''>''])
       (SeqN [Lit CHR 0x22, Grp 3 (Star Any), Lit CHR 0x22])]"

definition lstrip_chars :: "char \<Rightarrow> string \<Rightarrow> string" where "lstrip_chars c s = dropWhile (\<lambda>d. d = c) s"
definition rstrip_chars :: "char \<Rightarrow> string \<Rightarrow> string" where "rstrip_chars c s = rev (dropWhile (\<lambda>d. d = c) (rev s))"

text \<open>A file name and its quote. In the last case the source returns the name alone; the caller takes it apart into
  two variables, which works for names of two characters only.\<close>

definition unpack_two :: "string \<Rightarrow> (string \<times> string) res" where
  "unpack_two s = (case s of [a, b] \<Rightarrow> Inr ([a], [b]) | _ \<Rightarrow> Inl ValueError)"

definition extract_include :: "nat \<Rightarrow> string \<Rightarrow> (string \<times> string) dm" where
  "extract_include n txt =
     (let m = re_search re_include txt;
          a = (case m of None \<Rightarrow> None | Some m \<Rightarrow> group_text txt m 2);
          b = (case m of None \<Rightarrow> None | Some m \<Rightarrow> group_text txt m 3)
      in
      case a of
        Some f \<Rightarrow> dret (''<'', f)
      | None \<Rightarrow>
          (case b of
             Some f \<Rightarrow> dret ([CHR 0x22], f)
           | None \<Rightarrow>
               dbind (dlift (tokenize txt)) (\<lambda>toks.
               dbind (reduce_tokens n toks) (\<lambda>toks. dlift
                 (case toks of
                    [] \<Rightarrow> perr ''could not parse include''
                  | [(p, v)] \<Rightarrow> if p = STR_TOK then Inr ([CHR 0x22], py_str_val v) else perr ''could not parse include''
                  | t # ts \<Rightarrow>
                      if snd t = VStr ''<'' \<and> snd (last ts) = VStr ''>''
                      then unpack_two (rstrip_chars CHR ''>'' (lstrip_chars CHR ''<'' (stringize toks)))
                      else perr ''could not parse include'')))))"

end
