(* ===== verification/PreprocParser.thy ===== *)
theory PreprocParser
  imports PreprocMacro
begin

section \<open>Waf's C preprocessor: finding dependencies\<close>

text \<open>
  \<open>c_parser\<close>, \<open>get_deps\<close> and \<open>get_deps_simple\<close> of \<open>src/tools/wafadmin/Tools/preproc.py\<close>: the lines of a file and of the
  files it includes are processed in order; conditionals are a stack of states. Nodes are numbers; how a folder finds a
  file (\<open>find_resource\<close>), the folder of a file and its contents are arguments, together with the switches of the module.
  The top of a stack is the head of its list. A raise keeps the changes made before it.
\<close>

subsection \<open>State\<close>

datatype cond = Accepted | Ignored | Undefined | Skipped

type_synonym line = "string \<times> string"

record pargs =
  w_find :: "nat \<Rightarrow> string \<Rightarrow> nat option"
  w_parent :: "nat \<Rightarrow> nat"
  w_text :: "nat \<Rightarrow> string option"        \<comment> \<open>\<open>None\<close>: \<open>readf\<close> raises \<open>IOError\<close>\<close>
  use_trigraphs :: bool
  strict_quotes :: bool
  recursion_limit :: nat
  expansion_limit :: nat

record cparser =
  lines :: "line list"
  macros :: defs
  conds :: "cond list"
  count_files :: nat
  currentnode_stack :: "nat list"
  nodepaths :: "nat list"
  nodes :: "nat list"
  names :: "string list"
  curfile :: string
  ban_includes :: "string list"
  parse_cache :: "(nat \<times> line list) list"

definition c_parser :: "nat list \<Rightarrow> defs \<Rightarrow> (nat \<times> line list) list \<Rightarrow> cparser" where
  "c_parser paths defines cache =
     \<lparr>lines = [], macros = defines, conds = [], count_files = 0, currentnode_stack = [], nodepaths = paths, nodes = [],
      names = [], curfile = [], ban_includes = [], parse_cache = cache\<rparr>"

type_synonym 'a pm = "cparser \<Rightarrow> 'a res \<times> cparser"

definition POPFILE :: string where "POPFILE = ''-''"

subsection \<open>Files\<close>

definition addlines :: "pargs \<Rightarrow> nat \<Rightarrow> unit pm" where
  "addlines W node st =
     (let st = st\<lparr>currentnode_stack := w_parent W node # currentnode_stack st, count_files := count_files st + 1\<rparr> in
      if count_files st > recursion_limit W then (perr ''recursion limit exceeded'', st)
      else
        case map_of (parse_cache st) node of
          Some lns \<Rightarrow> (Inr (), st\<lparr>lines := lns @ lines st\<rparr>)
        | None \<Rightarrow>
            (case w_text W node of
               None \<Rightarrow> (perr ''could not read the file'', st)
             | Some code \<Rightarrow>
                 (case filter_comments (use_trigraphs W) code of
                    Inl e \<Rightarrow> (Inr (), st)
                  | Inr lns \<Rightarrow>
                      let lns = lns @ [(POPFILE, [])]
                      in (Inr (), st\<lparr>parse_cache := (node, lns) # parse_cache st, lines := lns @ lines st\<rparr>))))"

fun find_in :: "pargs \<Rightarrow> string \<Rightarrow> nat list \<Rightarrow> nat option" where
  "find_in W f [] = None"
| "find_in W f (n # ns) = (case w_find W n f of Some x \<Rightarrow> Some x | None \<Rightarrow> find_in W f ns)"

definition is_moc :: "string \<Rightarrow> bool" where "is_moc f \<longleftrightarrow> drop (length f - 4) f = ''.moc''"

definition tryfind :: "pargs \<Rightarrow> string \<Rightarrow> unit pm" where
  "tryfind W filename st =
     (let st = st\<lparr>curfile := filename\<rparr> in
      case currentnode_stack st of
        [] \<Rightarrow> (Inl IndexError, st)
      | cur # _ \<Rightarrow>
          (case find_in W filename (cur # nodepaths st) of
             None \<Rightarrow> (Inr (), if filename \<in> set (names st) then st else st\<lparr>names := names st @ [filename]\<rparr>)
           | Some found \<Rightarrow>
               let st = st\<lparr>nodes := nodes st @ [found]\<rparr>
               in if is_moc filename then (Inr (), st) else addlines W found st))"

subsection \<open>Lines\<close>

text \<open>Evaluation of a condition in the parser's table of macros.\<close>

definition eval_cond :: "pargs \<Rightarrow> string \<Rightarrow> bool pm" where
  "eval_cond W line st =
     (case dbind (dlift (tokenize line)) (eval_macro (expansion_limit W)) (macros st) of
        (r, D) \<Rightarrow> (r, st\<lparr>macros := D\<rparr>))"

definition mac_name :: "string \<Rightarrow> string option" where
  "mac_name line = (case re_search re_mac line of None \<Rightarrow> None | Some (a, b, c) \<Rightarrow> Some (py_slice line a b))"

definition is_defined :: "string \<Rightarrow> cparser \<Rightarrow> bool" where
  "is_defined line st = (case mac_name line of None \<Rightarrow> False | Some m \<Rightarrow> map_of (macros st) m \<noteq> None)"

definition set_top :: "cond \<Rightarrow> cparser \<Rightarrow> cparser" where
  "set_top c st = st\<lparr>conds := c # tl (conds st)\<rparr>"

definition dead :: "cparser \<Rightarrow> bool" where
  "dead st \<longleftrightarrow> Skipped \<in> set (conds st) \<or> Ignored \<in> set (conds st)"

definition do_include :: "pargs \<Rightarrow> bool \<Rightarrow> string \<Rightarrow> unit pm" where
  "do_include W import_once line st =
     (case extract_include (expansion_limit W) line (macros st) of
        (Inl e, D) \<Rightarrow> (Inl e, st\<lparr>macros := D\<rparr>)
      | (Inr (kind, inc), D) \<Rightarrow>
          let st = st\<lparr>macros := D\<rparr> in
          if inc \<in> set (ban_includes st) then (Inr (), st)
          else
            let st = (if import_once then st\<lparr>ban_includes := ban_includes st @ [inc]\<rparr> else st) in
            if kind = [CHR 0x22] \<or> \<not> strict_quotes W then tryfind W inc st else (Inr (), st))"

definition do_elif :: "pargs \<Rightarrow> string \<Rightarrow> unit pm" where
  "do_elif W line st =
     (case conds st of
        [] \<Rightarrow> (Inl IndexError, st)
      | c # _ \<Rightarrow>
          if c = Accepted then (Inr (), set_top Skipped st)
          else if c = Ignored then
            (case eval_cond W line st of
               (Inl e, st) \<Rightarrow> (Inl e, st)
             | (Inr b, st) \<Rightarrow> (Inr (), if b then set_top Accepted st else st))
          else (Inr (), st))"

definition do_else :: "unit pm" where
  "do_else st =
     (case conds st of
        [] \<Rightarrow> (Inl IndexError, st)
      | c # _ \<Rightarrow>
          (Inr (), if c = Accepted then set_top Skipped st else if c = Ignored then set_top Accepted st else st))"

definition do_if :: "pargs \<Rightarrow> string \<Rightarrow> unit pm" where
  "do_if W line st =
     (case eval_cond W line st of
        (Inl e, st) \<Rightarrow> (Inl e, st)
      | (Inr b, st) \<Rightarrow> (Inr (), set_top (if b then Accepted else Ignored) st))"

text \<open>A directive that is neither skipped nor one of the conditionals' ends.\<close>

definition live_line :: "pargs \<Rightarrow> string \<Rightarrow> string \<Rightarrow> unit pm" where
  "live_line W token line st =
     (if token = ''if'' then do_if W line st
      else if token = ''ifdef'' then (Inr (), set_top (if is_defined line st then Accepted else Ignored) st)
      else if token = ''ifndef'' then (Inr (), set_top (if is_defined line st then Ignored else Accepted) st)
      else if token = ''include'' then do_include W False line st
      else if token = ''import'' then do_include W True line st
      else if token = ''elif'' then do_elif W line st
      else if token = ''else'' then do_else st
      else if token = ''define'' then
        (case mac_name line of
           Some m \<Rightarrow> (Inr (), st\<lparr>macros := AList.update m (Raw line) (macros st)\<rparr>)
         | None \<Rightarrow> (perr ''invalid define line'', st))
      else if token = ''undef'' then
        (case mac_name line of
           Some m \<Rightarrow> (Inr (), st\<lparr>macros := AList.delete m (macros st)\<rparr>)
         | None \<Rightarrow> (Inr (), st))
      else if token = ''pragma'' then
        (Inr (), if re_search re_pragma_once (py_lower line) \<noteq> None
                 then st\<lparr>ban_includes := ban_includes st @ [curfile st]\<rparr> else st)
      else (Inr (), st))"

definition process_line :: "pargs \<Rightarrow> string \<Rightarrow> string \<Rightarrow> unit pm" where
  "process_line W token line st =
     (if token \<in> {''ifdef'', ''ifndef'', ''if''} then
        let st = st\<lparr>conds := Undefined # conds st\<rparr> in
        if dead st then (Inr (), st) else live_line W token line st
      else if token = ''endif'' then
        (case conds st of [] \<Rightarrow> (Inl IndexError, st) | c # cs \<Rightarrow> (Inr (), st\<lparr>conds := cs\<rparr>))
      else if token \<notin> {''else'', ''elif''} \<and> dead st then (Inr (), st)
      else live_line W token line st)"

subsection \<open>The loop\<close>

text \<open>A raise of \<open>process_line\<close> is dropped.\<close>

definition attempt :: "pargs \<Rightarrow> line \<Rightarrow> cparser \<Rightarrow> cparser" where
  "attempt W l st = snd (process_line W (fst l) (snd l) st)"

lemma addlines_progress:
  assumes "addlines W x st = (r, st')"
  shows "count_files st' = Suc (count_files st) \<and> (lines st' = lines st \<or> count_files st < recursion_limit W)"
  using assms by (auto simp: addlines_def Let_def perr_def split: if_splits option.splits sum.splits)

text \<open>Processing a line leaves the lines alone, or it counts one more file.\<close>

definition counted :: "pargs \<Rightarrow> cparser \<Rightarrow> cparser \<Rightarrow> bool" where
  "counted W st st' \<longleftrightarrow>
     count_files st' = count_files st \<and> lines st' = lines st \<or>
     count_files st' = Suc (count_files st) \<and> (lines st' = lines st \<or> count_files st < recursion_limit W)"

lemma tryfind_progress: "counted W st (snd (tryfind W f st))"
proof -
  have "counted W st (snd (addlines W x (st\<lparr>curfile := f, nodes := ns\<rparr>)))" for x ns
    using addlines_progress [of W x "st\<lparr>curfile := f, nodes := ns\<rparr>"]
    by (cases "addlines W x (st\<lparr>curfile := f, nodes := ns\<rparr>)") (auto simp: counted_def)
  then show ?thesis by (auto simp: tryfind_def Let_def counted_def split: list.splits option.splits)
qed

lemma progress_fields:
  "counted W (st\<lparr>macros := D\<rparr>) st' = counted W st st'" "counted W (st\<lparr>ban_includes := b\<rparr>) st' = counted W st st'"
  "counted W (st\<lparr>conds := c\<rparr>) st' = counted W st st'"
  by (simp_all add: counted_def)

lemma do_include_progress: "counted W st (snd (do_include W b line st))"
proof -
  obtain r D where r: "extract_include (expansion_limit W) line (macros st) = (r, D)" by fastforce
  show ?thesis
  proof (cases r)
    case (Inl e)
    then show ?thesis using r by (simp add: do_include_def counted_def)
  next
    case (Inr ki)
    obtain kind inc where k: "ki = (kind, inc)" by (cases ki)
    let ?st = "if b then st\<lparr>macros := D, ban_includes := ban_includes st @ [inc]\<rparr> else st\<lparr>macros := D\<rparr>"
    have "counted W ?st (snd (tryfind W inc ?st))" by (rule tryfind_progress)
    then have "counted W st (snd (tryfind W inc ?st))" by (simp add: counted_def split: if_splits)
    moreover have "counted W st ?st" "counted W st (st\<lparr>macros := D\<rparr>)" by (simp_all add: counted_def)
    ultimately show ?thesis using r Inr k by (cases b) (simp_all add: do_include_def Let_def)
  qed
qed

lemma eval_cond_fields: "eval_cond W line st = (r, st') \<Longrightarrow> \<exists>D. st' = st\<lparr>macros := D\<rparr>"
  by (auto simp: eval_cond_def split: prod.splits)

lemma live_line_progress: "counted W st (snd (live_line W token line st))"
proof -
  have p: "counted W st (st\<lparr>conds := c\<rparr>)" "counted W st (st\<lparr>macros := D\<rparr>)" "counted W st (set_top t (st\<lparr>macros := D\<rparr>))"
    "counted W st (set_top t st)" "counted W st st" "counted W st (st\<lparr>ban_includes := b\<rparr>)" for c D t b
    by (simp_all add: counted_def set_top_def)
  have i: "counted W st (snd (do_if W line st))"
    using eval_cond_fields [of W line st] p by (cases "eval_cond W line st") (auto simp: do_if_def split: sum.splits)
  have e: "counted W st (snd (do_elif W line st))"
    using eval_cond_fields [of W line st] p
    by (cases "eval_cond W line st") (auto simp: do_elif_def split: sum.splits list.splits)
  have "counted W st (snd (do_else st))" using p by (auto simp: do_else_def split: list.splits)
  then show ?thesis using p i e do_include_progress unfolding live_line_def by (auto split: option.splits)
qed

lemma process_line_progress: "counted W st (snd (process_line W token line st))"
proof -
  have "counted W (st\<lparr>conds := c\<rparr>) (snd (live_line W tk line (st\<lparr>conds := c\<rparr>)))" for c tk
    by (rule live_line_progress)
  then have "counted W st (snd (live_line W tk line (st\<lparr>conds := c\<rparr>)))" for c tk
    by (simp only: progress_fields)
  moreover have "counted W st st" "counted W st (st\<lparr>conds := c\<rparr>)" for c by (simp_all add: counted_def)
  ultimately show ?thesis
    using live_line_progress [of W st] by (simp add: process_line_def Let_def split: list.split)
qed

function run_lines :: "pargs \<Rightarrow> cparser \<Rightarrow> cparser res" where
  "run_lines W st =
     (case lines st of
        [] \<Rightarrow> Inr st
      | l # ls \<Rightarrow>
          if fst l = POPFILE then
            (case currentnode_stack st of
               [] \<Rightarrow> Inl IndexError
             | n # ns \<Rightarrow> run_lines W (st\<lparr>lines := ls, currentnode_stack := ns\<rparr>))
          else run_lines W (attempt W l (st\<lparr>lines := ls\<rparr>)))"
  by pat_completeness auto
termination
proof (relation "measures [\<lambda>(W, st). recursion_limit W - count_files st, \<lambda>(W, st). length (lines st)]")
  fix W and st :: cparser and l ls
  assume "lines st = l # ls" "\<not> fst l = POPFILE"
  then show "((W, attempt W l (st\<lparr>lines := ls\<rparr>)), (W, st)) \<in>
      measures [\<lambda>(W, st). recursion_limit W - count_files st, \<lambda>(W, st). length (lines st)]"
    using process_line_progress [of W "st\<lparr>lines := ls\<rparr>" "fst l" "snd l"]
    by (auto simp: attempt_def counted_def)
qed auto

declare run_lines.simps [simp del]

definition start :: "pargs \<Rightarrow> nat \<Rightarrow> string list \<Rightarrow> cparser \<Rightarrow> cparser res" where
  "start W node deflines st =
     (case addlines W node st of
        (Inl e, st) \<Rightarrow> Inl e
      | (Inr _, st) \<Rightarrow> run_lines W (st\<lparr>lines := map (Pair ''define'') deflines @ lines st\<rparr>))"

definition get_deps :: "pargs \<Rightarrow> nat \<Rightarrow> string list \<Rightarrow> nat list \<Rightarrow> (nat \<times> line list) list \<Rightarrow> (nat list \<times> string list) res" where
  "get_deps W node deflines paths cache =
     rbind (start W node deflines (c_parser paths [] cache)) (\<lambda>st. Inr (nodes st, names st))"

subsection \<open>The simple scanner\<close>

text \<open>\<open>get_deps_simple\<close>: for every new file found, the function calls itself on the node it already scans.\<close>

record sstate =
  s_nodes :: "nat list"
  s_names :: "string list"
  s_defs :: defs

definition note_name :: "string \<Rightarrow> sstate \<Rightarrow> sstate" where
  "note_name f s = (if f \<in> set (s_names s) then s else s\<lparr>s_names := s_names s @ [f]\<rparr>)"

fun find_deps :: "nat \<Rightarrow> pargs \<Rightarrow> nat list \<Rightarrow> nat \<Rightarrow> sstate \<Rightarrow> unit res \<times> sstate"
  and deps_loop :: "nat \<Rightarrow> pargs \<Rightarrow> nat list \<Rightarrow> nat \<Rightarrow> line list \<Rightarrow> sstate \<Rightarrow> unit res \<times> sstate" where
  "find_deps 0 W paths node s = (Inl RecursionError, s)"
| "find_deps (Suc n) W paths node s =
     (case w_text W node of
        None \<Rightarrow> (Inl IOError, s)
      | Some code \<Rightarrow>
          (case lines_includes (use_trigraphs W) code of
             Inl e \<Rightarrow> (Inl e, s)
           | Inr lst \<Rightarrow> deps_loop n W paths node lst s))"
| "deps_loop n W paths node [] s = (Inr (), s)"
| "deps_loop n W paths node (l # ls) s =
     (case extract_include (expansion_limit W) (snd l) (s_defs s) of
        (Inl e, D) \<Rightarrow> (Inl e, s\<lparr>s_defs := D\<rparr>)
      | (Inr (t, filename), D) \<Rightarrow>
          let s = s\<lparr>s_defs := D\<rparr> in
          if filename \<in> set (s_names s) then deps_loop n W paths node ls s
          else
            let s = (if py_endswith filename ''.moc'' then s\<lparr>s_names := s_names s @ [filename]\<rparr> else s) in
            case find_in W filename paths of
              None \<Rightarrow> deps_loop n W paths node ls (note_name filename s)
            | Some found \<Rightarrow>
                if found \<in> set (s_nodes s) then deps_loop n W paths node ls s
                else
                  (case find_deps n W paths node (s\<lparr>s_nodes := s_nodes s @ [found]\<rparr>) of
                     (Inl e, s) \<Rightarrow> (Inl e, s)
                   | (Inr _, s) \<Rightarrow> deps_loop n W paths node ls s))"

definition get_deps_simple :: "nat \<Rightarrow> pargs \<Rightarrow> nat \<Rightarrow> nat list \<Rightarrow> defs \<Rightarrow> (nat list \<times> string list) res" where
  "get_deps_simple n W node paths defines =
     (case find_deps n W paths node \<lparr>s_nodes = [], s_names = [], s_defs = defines\<rparr> of
        (Inl e, s) \<Rightarrow> Inl e
      | (Inr _, s) \<Rightarrow> Inr (s_nodes s, s_names s))"

subsection \<open>Structured code\<close>

text \<open>The reference: code in which conditionals are properly nested, as a tree, and its lines.\<close>

datatype code = Done | Then block code
  and block = Plain string string | If string string code branch
  and branch = EndIf string | Else string code string | Elif string code branch

primrec code_lines :: "code \<Rightarrow> line list" and block_lines :: "block \<Rightarrow> line list" and branch_lines :: "branch \<Rightarrow> line list" where
  "code_lines Done = []"
| "code_lines (Then b c) = block_lines b @ code_lines c"
| "block_lines (Plain k l) = [(k, l)]"
| "block_lines (If k l c br) = (k, l) # code_lines c @ branch_lines br"
| "branch_lines (EndIf l) = [(''endif'', l)]"
| "branch_lines (Else l c l') = (''else'', l) # code_lines c @ [(''endif'', l')]"
| "branch_lines (Elif l c br) = (''elif'', l) # code_lines c @ branch_lines br"

primrec wf_code :: "code \<Rightarrow> bool" and wf_block :: "block \<Rightarrow> bool" and wf_branch :: "branch \<Rightarrow> bool" where
  "wf_code Done \<longleftrightarrow> True"
| "wf_code (Then b c) \<longleftrightarrow> wf_block b \<and> wf_code c"
| "wf_block (Plain k l) \<longleftrightarrow> k \<notin> {''if'', ''ifdef'', ''ifndef'', ''elif'', ''else'', ''endif''}"
| "wf_block (If k l c br) \<longleftrightarrow> k \<in> {''if'', ''ifdef'', ''ifndef''} \<and> wf_code c \<and> wf_branch br"
| "wf_branch (EndIf l) \<longleftrightarrow> True"
| "wf_branch (Else l c l') \<longleftrightarrow> wf_code c"
| "wf_branch (Elif l c br) \<longleftrightarrow> wf_code c \<and> wf_branch br"

text \<open>What the code means: a condition that holds selects its code; one that does not hold, the rest of the
  conditional; and one that cannot be evaluated selects the code of all branches. A later condition that cannot be
  evaluated counts as one that does not hold.\<close>

definition open_verdict :: "pargs \<Rightarrow> string \<Rightarrow> string \<Rightarrow> cparser \<Rightarrow> cond \<times> cparser" where
  "open_verdict W k l st =
     (if k = ''if'' then
        (case eval_cond W l st of
           (Inl e, st) \<Rightarrow> (Undefined, st)
         | (Inr b, st) \<Rightarrow> (if b then Accepted else Ignored, st))
      else if k = ''ifdef'' then (if is_defined l st then Accepted else Ignored, st)
      else (if is_defined l st then Ignored else Accepted, st))"

primrec exec_code :: "pargs \<Rightarrow> code \<Rightarrow> cparser \<Rightarrow> cparser"
  and exec_block :: "pargs \<Rightarrow> block \<Rightarrow> cparser \<Rightarrow> cparser"
  and exec_branch :: "pargs \<Rightarrow> branch \<Rightarrow> bool \<Rightarrow> cparser \<Rightarrow> cparser" where
  "exec_code W Done = (\<lambda>st. st)"
| "exec_code W (Then b c) = (\<lambda>st. exec_code W c (exec_block W b st))"
| "exec_block W (Plain k l) = (\<lambda>st. (attempt W (k, l) (st\<lparr>conds := []\<rparr>))\<lparr>conds := conds st\<rparr>)"
| "exec_block W (If k l c br) =
     (\<lambda>st. case open_verdict W k l st of
        (v, st) \<Rightarrow>
          if v = Accepted then exec_code W c st
          else if v = Ignored then exec_branch W br False st
          else exec_branch W br True (exec_code W c st))"
| "exec_branch W (EndIf l) = (\<lambda>all st. st)"
| "exec_branch W (Else l c l') = (\<lambda>all st. exec_code W c st)"
| "exec_branch W (Elif l c br) =
     (\<lambda>all st.
        if all then exec_branch W br True (exec_code W c st)
        else
          case eval_cond W l st of
            (Inl e, st) \<Rightarrow> exec_branch W br False st
          | (Inr b, st) \<Rightarrow> if b then exec_code W c st else exec_branch W br False st)"

abbreviation process :: "pargs \<Rightarrow> line list \<Rightarrow> cparser \<Rightarrow> cparser" where
  "process W \<equiv> fold (attempt W)"

text \<open>One line at a time.\<close>

lemma attempt_endif [simp]: "attempt W (''endif'', l) (st\<lparr>conds := c # cs\<rparr>) = st\<lparr>conds := cs\<rparr>"
  by (simp add: attempt_def process_line_def)

lemma attempt_else [simp]:
  "attempt W (''else'', l) (st\<lparr>conds := c # cs\<rparr>) =
     st\<lparr>conds := (if c = Accepted then Skipped else if c = Ignored then Accepted else c) # cs\<rparr>"
  by (simp add: attempt_def process_line_def live_line_def do_else_def set_top_def)

lemma attempt_elif [simp]:
  "c \<noteq> Ignored \<Longrightarrow>
   attempt W (''elif'', l) (st\<lparr>conds := c # cs\<rparr>) = st\<lparr>conds := (if c = Accepted then Skipped else c) # cs\<rparr>"
  by (simp add: attempt_def process_line_def live_line_def do_elif_def set_top_def)

lemma eval_cond_conds:
  "eval_cond W l (st\<lparr>conds := cs\<rparr>) = (case eval_cond W l st of (r, st') \<Rightarrow> (r, st'\<lparr>conds := cs\<rparr>))"
  by (simp add: eval_cond_def split: prod.split)

lemma attempt_elif_ignored:
  "attempt W (''elif'', l) (st\<lparr>conds := Ignored # cs\<rparr>) =
     (case eval_cond W l st of
        (Inl e, st') \<Rightarrow> st'\<lparr>conds := Ignored # cs\<rparr>
      | (Inr b, st') \<Rightarrow> st'\<lparr>conds := (if b then Accepted else Ignored) # cs\<rparr>)"
  by (simp add: attempt_def process_line_def live_line_def do_elif_def set_top_def eval_cond_conds
      split: prod.split sum.split)

lemma dead_simps [simp]:
  "dead (st\<lparr>conds := c # cs\<rparr>) \<longleftrightarrow> c = Skipped \<or> c = Ignored \<or> dead (st\<lparr>conds := cs\<rparr>)"
  "dead (st\<lparr>conds := []\<rparr>) \<longleftrightarrow> False" "dead (st\<lparr>macros := D, conds := cs\<rparr>) \<longleftrightarrow> dead (st\<lparr>conds := cs\<rparr>)"
  by (auto simp: dead_def)

lemma attempt_dead_plain [simp]: "wf_block (Plain k l) \<Longrightarrow> dead st \<Longrightarrow> attempt W (k, l) st = st"
  by (simp add: attempt_def process_line_def)

lemma attempt_dead_open:
  "k \<in> {''if'', ''ifdef'', ''ifndef''} \<Longrightarrow> dead st \<Longrightarrow> attempt W (k, l) st = st\<lparr>conds := Undefined # conds st\<rparr>"
  by (auto simp: attempt_def process_line_def Let_def dead_def)

lemma attempt_open:
  assumes "k \<in> {''if'', ''ifdef'', ''ifndef''}" "\<not> dead st"
  shows "attempt W (k, l) st = (case open_verdict W k l st of (v, st') \<Rightarrow> st'\<lparr>conds := v # conds st\<rparr>)"
proof -
  have "\<not> dead (st\<lparr>conds := Undefined # conds st\<rparr>)" using assms(2) by (simp add: dead_def)
  then have a: "attempt W (k, l) st = snd (live_line W k l (st\<lparr>conds := Undefined # conds st\<rparr>))"
    using assms(1) by (auto simp: attempt_def process_line_def Let_def)
  have d: "is_defined l (st\<lparr>conds := cs\<rparr>) = is_defined l st" for cs
    by (simp add: is_defined_def split: option.split)
  consider "k = ''if''" | "k = ''ifdef''" | "k = ''ifndef''" using assms(1) by blast
  then show ?thesis
  proof cases
    case 1
    obtain r st1 where r: "eval_cond W l st = (r, st1)" by fastforce
    then show ?thesis
      using eval_cond_conds [where st = st and cs = "Undefined # conds st"] a 1 eval_cond_fields [OF r]
      by (cases r) (auto simp: live_line_def do_if_def set_top_def open_verdict_def)
  qed (use a d in \<open>simp_all add: live_line_def set_top_def open_verdict_def\<close>)
qed

text \<open>Dead code.\<close>

lemma process_dead:
  "wf_code c \<Longrightarrow> dead st \<Longrightarrow> process W (code_lines c) st = st"
  "wf_block b \<Longrightarrow> dead st \<Longrightarrow> process W (block_lines b) st = st"
  "wf_branch br \<Longrightarrow> t = Skipped \<or> t = Undefined \<and> dead (st\<lparr>conds := cs\<rparr>) \<Longrightarrow>
     process W (branch_lines br) (st\<lparr>conds := t # cs\<rparr>) = st\<lparr>conds := cs\<rparr>"
proof (induction c and b and br arbitrary: st and st and st t cs)
  case (If k l c br)
  have "dead (st\<lparr>conds := Undefined # conds st\<rparr>)" "dead (st\<lparr>conds := conds st\<rparr>)" using If.prems by (simp_all add: dead_def)
  then show ?case using If attempt_dead_open [of k st W l] by simp
next
  case (Else l c l')
  then have "dead (st\<lparr>conds := t # cs\<rparr>)" "t \<noteq> Accepted" "t \<noteq> Ignored" by auto
  then show ?case using Else by simp
next
  case (Elif l c br)
  then have "dead (st\<lparr>conds := t # cs\<rparr>)" "t \<noteq> Accepted" "t \<noteq> Ignored" by auto
  then show ?case using Elif by simp
qed simp_all

lemma process_accepted:
  "wf_branch br \<Longrightarrow> process W (branch_lines br) (st\<lparr>conds := Accepted # cs\<rparr>) = st\<lparr>conds := cs\<rparr>"
  using process_dead(1) process_dead(3) by (cases br) simp_all

text \<open>The stack of conditions is no argument of anything else.\<close>

abbreviation with_conds :: "cond list \<Rightarrow> 'a res \<times> cparser \<Rightarrow> 'a res \<times> cparser" where
  "with_conds cs x \<equiv> map_prod id (\<lambda>st. st\<lparr>conds := cs\<rparr>) x"

lemma addlines_conds: "addlines W x (st\<lparr>conds := cs\<rparr>) = with_conds cs (addlines W x st)"
  by (simp add: addlines_def Let_def split: option.split sum.split)

lemma tryfind_conds: "tryfind W f (st\<lparr>conds := cs\<rparr>) = with_conds cs (tryfind W f st)"
proof -
  have "addlines W x (st\<lparr>conds := cs, curfile := f, nodes := ns\<rparr>) =
      with_conds cs (addlines W x (st\<lparr>curfile := f, nodes := ns\<rparr>))" for x ns
  proof -
    have "st\<lparr>conds := cs, curfile := f, nodes := ns\<rparr> = st\<lparr>curfile := f, nodes := ns, conds := cs\<rparr>" by simp
    then show ?thesis using addlines_conds [where st = "st\<lparr>curfile := f, nodes := ns\<rparr>"] by metis
  qed
  then show ?thesis by (simp add: tryfind_def Let_def split: option.split list.split)
qed

lemma do_include_conds: "do_include W b l (st\<lparr>conds := cs\<rparr>) = with_conds cs (do_include W b l st)"
proof -
  obtain r D where r: "extract_include (expansion_limit W) l (macros st) = (r, D)" by fastforce
  have a: "tryfind W f (st\<lparr>conds := cs, macros := D\<rparr>) = with_conds cs (tryfind W f (st\<lparr>macros := D\<rparr>))" for f
  proof -
    have "st\<lparr>conds := cs, macros := D\<rparr> = st\<lparr>macros := D, conds := cs\<rparr>" by simp
    then show ?thesis using tryfind_conds [where st = "st\<lparr>macros := D\<rparr>"] by metis
  qed
  have "tryfind W f (st\<lparr>conds := cs, macros := D, ban_includes := bs\<rparr>) =
      with_conds cs (tryfind W f (st\<lparr>macros := D, ban_includes := bs\<rparr>))" for f bs
  proof -
    have "st\<lparr>conds := cs, macros := D, ban_includes := bs\<rparr> = st\<lparr>macros := D, ban_includes := bs, conds := cs\<rparr>" by simp
    then show ?thesis using tryfind_conds [where st = "st\<lparr>macros := D, ban_includes := bs\<rparr>"] by metis
  qed
  then show ?thesis using r a by (cases b) (simp_all add: do_include_def Let_def split: sum.split prod.split)
qed

lemma live_line_conds:
  assumes "wf_block (Plain k l)"
  shows "live_line W k l (st\<lparr>conds := cs\<rparr>) = with_conds cs (live_line W k l st)"
  using assms by (simp add: live_line_def do_include_conds split: option.split)

lemma attempt_plain:
  assumes "wf_block (Plain k l)" "\<not> dead st"
  shows "attempt W (k, l) st = exec_block W (Plain k l) st"
proof -
  have "\<not> dead (st\<lparr>conds := []\<rparr>)" by simp
  then have "process_line W k l (st\<lparr>conds := []\<rparr>) = with_conds [] (live_line W k l st)"
    using assms(1) live_line_conds [OF assms(1), where st = st and cs = "[]"] by (simp add: process_line_def)
  moreover have "process_line W k l st = with_conds (conds st) (live_line W k l st)"
    using assms live_line_conds [OF assms(1), where st = st and cs = "conds st"] by (simp add: process_line_def)
  ultimately show ?thesis by (simp add: attempt_def)
qed

lemma verdict_conds:
  "open_verdict W k l (st\<lparr>conds := cs\<rparr>) = (case open_verdict W k l st of (v, st') \<Rightarrow> (v, st'\<lparr>conds := cs\<rparr>))"
proof -
  have "is_defined l (st\<lparr>conds := cs\<rparr>) = is_defined l st" by (simp add: is_defined_def split: option.split)
  then show ?thesis by (simp add: open_verdict_def eval_cond_conds split: prod.split sum.split)
qed

lemma exec_conds:
  "exec_code W c (st\<lparr>conds := cs\<rparr>) = (exec_code W c st)\<lparr>conds := cs\<rparr>"
  "exec_block W b (st\<lparr>conds := cs\<rparr>) = (exec_block W b st)\<lparr>conds := cs\<rparr>"
  "exec_branch W br all (st\<lparr>conds := cs\<rparr>) = (exec_branch W br all st)\<lparr>conds := cs\<rparr>"
proof (induction c and b and br arbitrary: st and st and st all)
  case (If k l c br)
  then show ?case by (cases "open_verdict W k l st") (simp add: verdict_conds)
next
  case (Elif l c br)
  then show ?case by (cases "eval_cond W l st"; cases "fst (eval_cond W l st)") (simp_all add: eval_cond_conds)
qed simp_all

lemma verdict_keeps: "open_verdict W k l st = (v, st') \<Longrightarrow> conds st' = conds st \<and> v \<noteq> Skipped"
  by (auto simp: open_verdict_def eval_cond_def split: if_splits prod.splits sum.splits)

lemma exec_keeps:
  "conds (exec_code W c st) = conds st" "conds (exec_block W b st) = conds st"
  "conds (exec_branch W br all st) = conds st"
proof (induction c and b and br arbitrary: st and st and st all)
  case (If k l c br)
  then show ?case using verdict_keeps by (auto split: prod.split)
next
  case (Elif l c br)
  then show ?case by (auto simp: eval_cond_def split: prod.split sum.split)
qed simp_all

text \<open>Live code.\<close>

lemma process_live:
  "wf_code c \<Longrightarrow> \<not> dead st \<Longrightarrow> process W (code_lines c) st = exec_code W c st"
  "wf_block b \<Longrightarrow> \<not> dead st \<Longrightarrow> process W (block_lines b) st = exec_block W b st"
  "wf_branch br \<Longrightarrow> \<not> dead (st\<lparr>conds := cs\<rparr>) \<Longrightarrow>
     process W (branch_lines br) (st\<lparr>conds := Ignored # cs\<rparr>) = (exec_branch W br False st)\<lparr>conds := cs\<rparr> \<and>
     process W (branch_lines br) (st\<lparr>conds := Undefined # cs\<rparr>) = (exec_branch W br True st)\<lparr>conds := cs\<rparr>"
proof (induction c and b and br arbitrary: st and st and st cs)
  case (Then b c)
  then show ?case using exec_keeps(2) by (simp add: dead_def)
next
  case (Plain k l)
  then show ?case using attempt_plain [OF Plain] by (simp del: exec_block.simps)
next
  case (If k l c br)
  obtain v st1 where v: "open_verdict W k l st = (v, st1)" by fastforce
  have k: "conds st1 = conds st" "v \<noteq> Skipped" using verdict_keeps [OF v] by simp_all
  have wf: "k \<in> {''if'', ''ifdef'', ''ifndef''}" "wf_code c" "wf_branch br" using If.prems(1) by simp_all
  have a: "attempt W (k, l) st = st1\<lparr>conds := v # conds st\<rparr>" using attempt_open [OF wf(1) If.prems(2)] v by simp
  have live: "\<not> dead (x\<lparr>conds := conds st\<rparr>)" for x using If.prems(2) by (simp add: dead_def)
  have restore: "x\<lparr>conds := conds st\<rparr> = x" if "conds x = conds st" for x :: cparser
    using that by (cases x) simp
  have body: "process W (code_lines c) (st1\<lparr>conds := v # conds st\<rparr>) = (exec_code W c st1)\<lparr>conds := v # conds st\<rparr>"
    if "v \<noteq> Ignored"
    using If.IH(1) [OF wf(2), of "st1\<lparr>conds := v # conds st\<rparr>"] that k(2) live by (simp add: exec_conds)
  show ?case
  proof (cases v)
    case Accepted
    then show ?thesis using a v body process_accepted [OF wf(3)] exec_keeps(1) [of W c st1] k(1) restore by simp
  next
    case Ignored
    then show ?thesis
      using a v If.IH(2) [OF wf(3) live] process_dead(1) [OF wf(2)] exec_keeps(3) [of W br False st1] k(1) restore by simp
  next
    case Undefined
    then show ?thesis
      using a v body If.IH(2) [OF wf(3) live, of "exec_code W c st1"] exec_keeps(1,3) k(1) restore by simp
  qed (use k(2) in simp)
next
  case (Else l c l')
  then show ?case using Else.IH [of "st\<lparr>conds := t # cs\<rparr>" for t] by (simp add: exec_conds)
next
  case (Elif l c br)
  have wf: "wf_code c" "wf_branch br" using Elif.prems(1) by simp_all
  have live: "\<not> dead (x\<lparr>conds := cs\<rparr>)" for x using Elif.prems(2) by (simp add: dead_def)
  have u: "process W (branch_lines (Elif l c br)) (st\<lparr>conds := Undefined # cs\<rparr>) = (exec_branch W (Elif l c br) True st)\<lparr>conds := cs\<rparr>"
    using Elif.IH(1) [OF wf(1), of "st\<lparr>conds := Undefined # cs\<rparr>"] Elif.IH(2) [OF wf(2) live] live by (simp add: exec_conds)
  obtain r st1 where r: "eval_cond W l st = (r, st1)" by fastforce
  have "process W (branch_lines (Elif l c br)) (st\<lparr>conds := Ignored # cs\<rparr>) = (exec_branch W (Elif l c br) False st)\<lparr>conds := cs\<rparr>"
  proof (cases "r = Inr True")
    case True
    then show ?thesis
      using r Elif.IH(1) [OF wf(1), of "st1\<lparr>conds := Accepted # cs\<rparr>"] live process_accepted [OF wf(2)]
      by (simp add: attempt_elif_ignored exec_conds)
  next
    case False
    then have "attempt W (''elif'', l) (st\<lparr>conds := Ignored # cs\<rparr>) = st1\<lparr>conds := Ignored # cs\<rparr>"
      using r by (cases r) (simp_all add: attempt_elif_ignored)
    moreover have "process W (code_lines c) (st1\<lparr>conds := Ignored # cs\<rparr>) = st1\<lparr>conds := Ignored # cs\<rparr>"
      by (rule process_dead(1) [OF wf(1)]) simp
    ultimately show ?thesis using Elif.IH(2) [OF wf(2) live, of st1] r False by (cases r) simp_all
  qed
  then show ?case using u by simp
qed simp_all

subsection \<open>Properties\<close>

text \<open>C13: properly nested conditionals select code as the reference says: every directive of a selected branch is
  processed, in order, those of the others have no effect, and at the end the stack of conditions is what it was.\<close>

theorem conditionals_select_code:
  assumes "wf_code c" "\<not> dead st"
  shows "process W (code_lines c) st = exec_code W c st \<and> conds (process W (code_lines c) st) = conds st"
  using process_live(1) [OF assms] exec_keeps(1) by simp

definition demo_code :: code where
  "demo_code =
     Then (If ''ifdef'' ''A'' (Then (Plain ''define'' ''X 1'') Done)
            (Elif ''B'' (Then (Plain ''define'' ''Y 1'') Done)
              (Else '''' (Then (Plain ''define'' ''Z 1'') (Then (Plain ''include'' ''<z.h>'') Done)) '''')))
       Done"

definition demo_pargs :: pargs where
  "demo_pargs =
     \<lparr>w_find = (\<lambda>n f. None), w_parent = (\<lambda>n. 0), w_text = (\<lambda>n. None), use_trigraphs = False, strict_quotes = False,
      recursion_limit = 100, expansion_limit = 50\<rparr>"

definition demo_parser :: cparser where
  "demo_parser = (c_parser [] [] [])\<lparr>currentnode_stack := [0]\<rparr>"

theorem conditionals_select_code_witness:
  "map fst (macros (process demo_pargs (code_lines demo_code) demo_parser)) = [''Z''] \<and>
   names (process demo_pargs (code_lines demo_code) demo_parser) = [''z.h'']"
proof -
  have "wf_code demo_code" by (simp add: demo_code_def)
  moreover have "\<not> dead demo_parser" by (simp add: demo_parser_def c_parser_def dead_def)
  ultimately have "process demo_pargs (code_lines demo_code) demo_parser = exec_code demo_pargs demo_code demo_parser"
    using conditionals_select_code by blast
  moreover have "map fst (macros (exec_code demo_pargs demo_code demo_parser)) = [''Z'']"
    "names (exec_code demo_pargs demo_code demo_parser) = [''z.h'']"
    by code_simp+
  ultimately show ?thesis by simp
qed

text \<open>Code in a branch that is not selected has no effect at all: no macro is defined or parsed, no file is
  looked for or read, no name is recorded and no inclusion is banned.\<close>

theorem dead_code_ignored:
  assumes "wf_code c" "dead st"
  shows "process W (code_lines c) st = st"
  by (rule process_dead(1) [OF assms])

theorem dead_code_ignored_witness:
  "process demo_pargs (code_lines demo_code) (demo_parser\<lparr>conds := [Accepted, Ignored]\<rparr>) =
     demo_parser\<lparr>conds := [Accepted, Ignored]\<rparr>"
  by (rule dead_code_ignored) (simp_all add: demo_code_def dead_def)

text \<open>A name that is neither an operator of C++ nor a truth value.\<close>

definition plain_name :: "string \<Rightarrow> bool" where
  "plain_name x \<longleftrightarrow> is_name x \<and> map_of g_optrans x = None \<and> py_lower x \<noteq> ''true'' \<and> py_lower x \<noteq> ''false''"

lemma mac_name_name:
  assumes "is_name x"
  shows "mac_name x = Some x"
proof -
  have n: "0 < length x" "name0 (x ! 0)" using assms by (auto simp: is_name_def hd_conv_nth)
  have sp: "span is_word_char x 0 = length x"
    by (rule span_eq [of 0 x x "[]"]) (use assms in \<open>auto simp: is_name_def list_all_iff\<close>)
  obtain ms where "rmatch ident_rx x 0 Map.empty = (length x, Map.empty) # ms"
    using word_run [OF n, of Map.empty] sp by auto
  then have "rmatch re_mac x 0 Map.empty = (length x, Map.empty) # ms" by (simp add: re_mac_def ident_rx_def)
  then have "re_search re_mac x = Some (0, length x, Map.empty)"
    by (simp add: re_search_def finditer_def finditer_from.simps [of re_mac x 0])
  then show ?thesis by (simp add: mac_name_def py_slice_def)
qed

lemma eval_defined:
  "eval_macro (Suc (Suc n)) [(IDENT, VStr ''defined''), (IDENT, v)] D = (Inr (def_of v D \<noteq> None), D)"
  by (simp add: eval_macro_def reduce_eval_def numeral_3_eq_3 defined_tok_def behind_first_def)

lemma eval_cond_defined:
  assumes "plain_name x" "2 \<le> expansion_limit W"
  shows "eval_cond W (''defined '' @ x) st = (Inr (map_of (macros st) x \<noteq> None), st)"
proof -
  have "is_name ''defined''" by (simp add: is_name_def name0_def char_defs)
  then have "tokenize (''defined '' @ x) = Inr [ident_token ''defined'', ident_token x]"
    using tokenize_names [of "''defined''" x] assms(1) by (simp add: plain_name_def)
  moreover have "ident_token ''defined'' = (IDENT, VStr ''defined'')" by code_simp
  moreover have "ident_token x = (IDENT, VStr x)" using assms(1) by (simp add: plain_name_def ident_token_def)
  moreover obtain n where "expansion_limit W = Suc (Suc n)" using assms(2) by (metis add_2_eq_Suc le_Suc_ex)
  ultimately show ?thesis by (simp add: eval_cond_def dbind_def eval_defined def_of_def)
qed

text \<open>\<open>#ifdef X\<close> and \<open>#if defined X\<close> are the same directive, for every name \<open>X\<close> but the operators and truth
  values of C++: through the lexer, the expansion of macros and the evaluator of conditions.\<close>

theorem ifdef_is_if_defined:
  assumes "plain_name x" "2 \<le> expansion_limit W"
  shows "process_line W ''if'' (''defined '' @ x) st = process_line W ''ifdef'' x st"
proof -
  have "is_defined x st' = (map_of (macros st') x \<noteq> None)" for st'
    using mac_name_name assms(1) by (simp add: is_defined_def plain_name_def)
  then show ?thesis
    using eval_cond_defined [OF assms] by (simp add: process_line_def Let_def live_line_def do_if_def)
qed

theorem ifdef_is_if_defined_witness:
  "process_line demo_pargs ''if'' ''defined HAVE_X'' demo_parser = process_line demo_pargs ''ifdef'' ''HAVE_X'' demo_parser"
proof -
  have "plain_name ''HAVE_X''" by code_simp
  then show ?thesis using ifdef_is_if_defined [of "''HAVE_X''" demo_pargs demo_parser] by (simp add: demo_pargs_def)
qed

subsection \<open>Where the code goes wrong\<close>

text \<open>The simple scanner never reads a header: its result depends on the text of the file it starts with alone.\<close>

lemma find_in_text [simp]: "find_in (W\<lparr>w_text := f\<rparr>) x ns = find_in W x ns"
  by (induction ns) (simp_all split: option.split)

lemma simple_scanner_ignores_headers:
  assumes "f node = w_text W node"
  shows "find_deps n (W\<lparr>w_text := f\<rparr>) paths node s = find_deps n W paths node s"
proof (induction n arbitrary: s)
  case (Suc n)
  have "deps_loop n (W\<lparr>w_text := f\<rparr>) paths node ls s = deps_loop n W paths node ls s" for ls s
  proof (induction ls arbitrary: s)
    case (Cons l ls)
    then show ?case using Suc.IH by (simp add: Let_def split: prod.split sum.split option.split)
  qed simp
  then show ?case using assms by (simp split: option.split sum.split)
qed simp

text \<open>A macro without parameters is not expanded again: with \<open>A\<close> defined as \<open>B\<close> and \<open>B\<close> as \<open>1\<close>, \<open>#if A\<close> is false. And the
  token behind an empty macro is passed over.\<close>

lemma nested_macro_not_expanded:
  "fst (eval_macro 9 [(IDENT, VStr ''A'')] [(''A'', Raw ''A B''), (''B'', Raw ''B 1'')]) = Inr False"
  "fst (eval_macro 9 [(IDENT, VStr ''E''), (IDENT, VStr ''B'')] [(''E'', Raw ''E''), (''B'', Raw ''B 1'')]) = Inr False"
  by code_simp+

text \<open>An octal number with a suffix cannot be read; an octal character is a pair, which has no value.\<close>

lemma octal_fails:
  "tokenize ''010L'' = Inl ValueError"
  "tokenize [CHR 0x27, CHR 0x5C, CHR ''1'', CHR ''2'', CHR 0x27] = Inr [(NUM, VPair 3 10)]"
  by code_simp+

text \<open>A file in angle brackets that comes from a macro is never found.\<close>

lemma bracketed_include_fails:
  "fst (extract_include 9 ''H'' [(''H'', Raw ''H <a.h>'')]) = Inl ValueError"
  by code_simp

text \<open>Over the limit a file is not read, but its folder stays on the stack: later files are looked for there.\<close>

lemma limit_leaves_folder:
  assumes "recursion_limit W \<le> count_files st"
  shows "fst (addlines W x st) = perr ''recursion limit exceeded'' \<and> lines (snd (addlines W x st)) = lines st \<and>
    currentnode_stack (snd (addlines W x st)) = w_parent W x # currentnode_stack st"
  using assms by (simp add: addlines_def Let_def)

text \<open>\<open>#pragma once\<close> bans the file that was looked for last, not the one it stands in.\<close>

lemma pragma_once_bans_last:
  "\<not> dead st \<Longrightarrow> ban_includes (attempt W (''pragma'', ''once'') st) = ban_includes st @ [curfile st]"
proof -
  have "re_search re_pragma_once (py_lower ''once'') \<noteq> None" by code_simp
  then show "\<not> dead st \<Longrightarrow> ban_includes (attempt W (''pragma'', ''once'') st) = ban_includes st @ [curfile st]"
    by (simp add: attempt_def process_line_def live_line_def)
qed

end
