(* ===== verification/WafTaskGen.thy ===== *)
theory WafTaskGen
  imports PyPrelude "HOL-Library.AList"
begin

section \<open>Waf: task generators\<close>

text \<open>
  \<open>src/tools/wafadmin/TaskGen.py\<close>: a task generator runs methods to create tasks. Decorators declare features, orders of
  methods and hooks for file extensions; \<open>apply\<close> collects the methods of the features, sorts them topologically and
  runs them over a list that the methods themselves may change. Methods other than the three of this module are an
  argument, and so is how the folder of the generator finds and declares files.
\<close>

subsection \<open>Tables and their decorators\<close>

type_synonym prec_tbl = "(string \<times> string list) list"

text \<open>The attributes of the class \<open>task_gen\<close>. A missing entry of \<open>prec\<close> and \<open>traits\<close> is empty (\<open>DefaultDict\<close>).\<close>

record tables =
  t_prec :: prec_tbl
  t_traits :: "(string \<times> string list) list"
  t_mappings :: "(string \<times> string) list"
  t_methods :: "string list"              \<comment> \<open>set as attributes of the class\<close>

definition default :: "(string \<times> 'a list) list \<Rightarrow> string \<Rightarrow> 'a list" where
  "default tbl k = (case map_of tbl k of None \<Rightarrow> [] | Some l \<Rightarrow> l)"

text \<open>\<open>tbl[k].append(x)\<close> unless it is there; the access itself makes the entry.\<close>

definition add_to :: "string \<Rightarrow> string \<Rightarrow> (string \<times> string list) list \<Rightarrow> (string \<times> string list) list" where
  "add_to k x tbl = AList.update k (if x \<in> set (default tbl k) then default tbl k else default tbl k @ [x]) tbl"

definition set_method :: "string \<Rightarrow> tables \<Rightarrow> tables" where
  "set_method f T = T\<lparr>t_methods := (if f \<in> set (t_methods T) then t_methods T else f # t_methods T)\<rparr>"

definition feature :: "string list \<Rightarrow> string \<Rightarrow> tables \<Rightarrow> tables" where
  "feature ks f T = fold (\<lambda>k T. T\<lparr>t_traits := add_to k f (t_traits T)\<rparr>) ks (set_method f T)"

definition bind_feature :: "string \<Rightarrow> string list \<Rightarrow> tables \<Rightarrow> tables" where
  "bind_feature name ms T = T\<lparr>t_traits := fold (add_to name) ms (t_traits T)\<rparr>"

text \<open>\<open>before(k)(f)\<close>: \<open>f\<close> runs before \<open>k\<close>; the table lists for every method those that run before it.\<close>

definition before :: "string list \<Rightarrow> string \<Rightarrow> tables \<Rightarrow> tables" where
  "before ks f T = fold (\<lambda>k T. T\<lparr>t_prec := add_to k f (t_prec T)\<rparr>) ks (set_method f T)"

definition after :: "string list \<Rightarrow> string \<Rightarrow> tables \<Rightarrow> tables" where
  "after ks f T = fold (\<lambda>k T. T\<lparr>t_prec := add_to f k (t_prec T)\<rparr>) ks (set_method f T)"

fun declare_order :: "string list \<Rightarrow> tables \<Rightarrow> tables res" where
  "declare_order (f1 # f2 # fs) T =
     (let T = T\<lparr>t_prec := add_to f2 f1 (t_prec T)\<rparr> in
      if fs = [] then Inr T else declare_order (f2 # fs) T)"
| "declare_order fs T = Inl AssertionError"

definition extension :: "string list \<Rightarrow> string \<Rightarrow> tables \<Rightarrow> tables" where
  "extension exts f T = (set_method f T)\<lparr>t_mappings := fold (\<lambda>x. AList.update x f) exts (t_mappings T)\<rparr>"

definition declare_extension :: "string list \<Rightarrow> string \<Rightarrow> tables \<Rightarrow> tables" where
  "declare_extension exts f T = T\<lparr>t_mappings := fold (\<lambda>x. AList.update x f) exts (t_mappings T)\<rparr>"

subsection \<open>The order of the methods\<close>

text \<open>The topological sort. The head of \<open>tmp\<close> is the end of the source's list. Behind the loop the order is reversed.\<close>

definition in_lists :: "prec_tbl \<Rightarrow> string \<Rightarrow> bool" where
  "in_lists prec x \<longleftrightarrow> list_ex (\<lambda>(y, l). x \<in> set l) prec"

fun push_free :: "prec_tbl \<Rightarrow> string list \<Rightarrow> string list \<Rightarrow> string list" where
  "push_free prec [] tmp = tmp"
| "push_free prec (x # xs) tmp = push_free prec xs (if in_lists prec x then tmp else x # tmp)"

function sort_loop :: "string list \<Rightarrow> prec_tbl \<Rightarrow> string list \<Rightarrow> string list \<Rightarrow> string list \<times> prec_tbl" where
  "sort_loop keys prec [] out = (out, prec)"
| "sort_loop keys prec (e # tmp) out =
     (let out = (if e \<in> set keys then out @ [e] else out) in
      case map_of prec e of
        None \<Rightarrow> sort_loop keys prec tmp out
      | Some nlst \<Rightarrow>
          let prec = AList.delete e prec in sort_loop keys prec (push_free prec nlst tmp) out)"
  by pat_completeness auto
termination
proof (relation "measures [\<lambda>(keys, prec, tmp, out). length prec, \<lambda>(keys, prec, tmp, out). length tmp]")
  fix keys e nlst and tmp out x :: "string list" and prec xa :: prec_tbl
  assume "map_of prec e = Some nlst" "xa = AList.delete e prec"
  then have "length xa < length prec"
    using map_of_SomeD [of prec e nlst] length_filter_less [of "(e, nlst)" prec] by (auto simp: AList.delete_eq)
  then show "((keys, xa, push_free xa nlst tmp, x), keys, prec, e # tmp, out) \<in>
    measures [\<lambda>(keys, prec, tmp, out). length prec, \<lambda>(keys, prec, tmp, out). length tmp]" by simp
qed auto

definition has_cycle :: py_error where "has_cycle = WafError ''graph has a cycle''"

text \<open>The methods of the features, each once, in the order in which the set yields them; here, that of their
  appearance.\<close>

definition collect_keys :: "tables \<Rightarrow> string list \<Rightarrow> string list \<Rightarrow> string list" where
  "collect_keys T meths features = remdups (meths @ concat (map (default (t_traits T)) (features @ [''*''])))"

definition sort_methods :: "string list \<Rightarrow> prec_tbl \<Rightarrow> string list res" where
  "sort_methods keys tbl =
     (let prec = filter (\<lambda>(x, l). x \<in> set keys) tbl;
          tmp = rev (filter (\<lambda>a. \<not> in_lists prec a) keys);
          (out, left) = sort_loop keys prec tmp []
      in if left \<noteq> [] then Inl has_cycle else Inr (rev out))"

subsection \<open>The sort is right\<close>

definition precedes :: "'a list \<Rightarrow> 'a \<Rightarrow> 'a \<Rightarrow> bool" where
  "precedes xs a b \<longleftrightarrow> (\<exists>us vs. xs = us @ a # vs \<and> b \<in> set vs)"

text \<open>The pairs of methods that run, the first of which has to run before the second.\<close>

definition edges :: "string list \<Rightarrow> prec_tbl \<Rightarrow> (string \<times> string) set" where
  "edges keys tbl = {(a, b). a \<in> set keys \<and> b \<in> set keys \<and> (\<exists>l. (b, l) \<in> set tbl \<and> a \<in> set l)}"

lemma in_lists_iff: "in_lists prec x \<longleftrightarrow> (\<exists>y l. (y, l) \<in> set prec \<and> x \<in> set l)"
  by (auto simp: in_lists_def list_ex_iff)

lemma push_free_set: "set (push_free prec xs tmp) = set tmp \<union> {x \<in> set xs. \<not> in_lists prec x}"
  by (induction xs arbitrary: tmp) auto

lemma push_free_distinct:
  "distinct xs \<Longrightarrow> distinct tmp \<Longrightarrow> \<forall>x \<in> set xs. x \<notin> set tmp \<Longrightarrow> distinct (push_free prec xs tmp)"
proof (induction xs arbitrary: tmp)
  case (Cons x xs)
  then have "\<forall>y \<in> set xs. y \<notin> set (x # tmp)" by auto
  then show ?case using Cons.IH [of "x # tmp"] Cons.IH [of tmp] Cons.prems by simp
qed simp

text \<open>The invariant of the loop: \<open>ds\<close> are the names taken so far, in order.\<close>

definition sort_inv :: "string list \<Rightarrow> prec_tbl \<Rightarrow> prec_tbl \<Rightarrow> string list \<Rightarrow> string list \<Rightarrow> bool" where
  "sort_inv keys P prec tmp ds \<longleftrightarrow>
     prec = filter (\<lambda>(y, l). y \<notin> set ds) P \<and> distinct (tmp @ ds) \<and>
     (\<forall>x. x \<in> set keys \<or> in_lists P x \<longrightarrow> (x \<in> set tmp \<union> set ds \<longleftrightarrow> \<not> in_lists prec x)) \<and>
     (\<forall>x \<in> set tmp \<union> set ds. x \<in> set keys \<or> in_lists P x) \<and>
     (\<forall>us y vs z l. ds = us @ y # vs \<longrightarrow> (z, l) \<in> set P \<longrightarrow> y \<in> set l \<longrightarrow> z \<in> set us)"

lemma sort_step:
  assumes "sort_inv keys P prec (e # tmp) ds" "distinct (map fst P)" "\<forall>(y, l) \<in> set P. distinct l"
    "prec' = filter (\<lambda>(y, l). y \<notin> set (ds @ [e])) P"
    "tmp' = (case map_of prec e of None \<Rightarrow> tmp | Some nlst \<Rightarrow> push_free prec' nlst tmp)"
  shows "sort_inv keys P prec' tmp' (ds @ [e])"
proof -
  have prec: "prec = filter (\<lambda>(y, l). y \<notin> set ds) P" and dist: "distinct ((e # tmp) @ ds)"
    and ready: "\<And>x. x \<in> set keys \<or> in_lists P x \<Longrightarrow> (x \<in> set (e # tmp) \<union> set ds \<longleftrightarrow> \<not> in_lists prec x)"
    and uni: "\<And>x. x \<in> set (e # tmp) \<union> set ds \<Longrightarrow> x \<in> set keys \<or> in_lists P x"
    and ord: "\<And>us y vs z l. ds = us @ y # vs \<Longrightarrow> (z, l) \<in> set P \<Longrightarrow> y \<in> set l \<Longrightarrow> z \<in> set us"
    using assms(1) unfolding sort_inv_def by auto
  define new where "new = (case map_of prec e of None \<Rightarrow> [] | Some nlst \<Rightarrow> nlst)"
  have tmp': "tmp' = push_free prec' new tmp" using assms(5) by (simp add: new_def split: option.split)
  have dp: "distinct (map fst prec)" using assms(2) by (simp add: prec distinct_map_filter)
  have new_in: "x \<in> set new \<Longrightarrow> in_lists prec x" for x
    by (cases "map_of prec e") (auto simp: new_def in_lists_iff dest!: map_of_SomeD)
  have still: "in_lists prec' x \<longleftrightarrow> (\<exists>y l. (y, l) \<in> set prec \<and> y \<noteq> e \<and> x \<in> set l)" for x
    by (auto simp: in_lists_iff assms(4) prec)
  have gone: "x \<in> set new" if lx: "in_lists prec x" "\<not> in_lists prec' x" for x
  proof -
    obtain y l where yl: "(y, l) \<in> set prec" "x \<in> set l" using lx(1) unfolding in_lists_iff by blast
    then have "y = e" using lx(2) still by blast
    then have "(e, l) \<in> set prec" "x \<in> set l" using yl by simp_all
    then show ?thesis using dp by (simp add: new_def)
  qed
  have sub: "in_lists prec' x \<Longrightarrow> in_lists prec x" for x using still by (auto simp: in_lists_iff)
  have pP: "in_lists prec x \<Longrightarrow> in_lists P x" for x by (auto simp: in_lists_iff prec)
  have e_free: "\<not> in_lists prec e" using ready [of e] uni [of e] by simp
  have set': "set tmp' = set tmp \<union> {x \<in> set new. \<not> in_lists prec' x}" by (simp add: tmp' push_free_set)
  have "distinct new"
    using assms(3) by (cases "map_of prec e") (auto simp: new_def prec dest!: map_of_SomeD)
  moreover have nt: "\<forall>x \<in> set new. x \<notin> set (e # tmp) \<union> set ds" using new_in ready pP by blast
  ultimately have "distinct tmp'" unfolding tmp' using dist by (intro push_free_distinct) auto
  then have d: "distinct (tmp' @ ds @ [e])" using dist nt set' by auto
  have r: "x \<in> set tmp' \<union> set (ds @ [e]) \<longleftrightarrow> \<not> in_lists prec' x" if "x \<in> set keys \<or> in_lists P x" for x
    using ready [OF that] gone [of x] sub [of x] set' e_free new_in by auto
  have u: "x \<in> set keys \<or> in_lists P x" if "x \<in> set tmp' \<union> set (ds @ [e])" for x
    using that uni new_in pP set' by auto
  have o: "z \<in> set us" if "ds @ [e] = us @ y # vs" "(z, l) \<in> set P" "y \<in> set l" for us y vs z l
  proof (cases vs rule: rev_cases)
    case Nil
    then have "y = e" "us = ds" using that(1) by simp_all
    moreover have "(z, l) \<notin> set prec" using e_free that(3) \<open>y = e\<close> by (auto simp: in_lists_iff)
    ultimately show ?thesis using that(2) by (auto simp: prec)
  next
    case (snoc vs' v)
    then show ?thesis using that ord [of us y vs' z l] by simp
  qed
  show ?thesis unfolding sort_inv_def using assms(4) d r u o by blast
qed

lemma sort_loop_inv:
  assumes "sort_inv keys P prec tmp ds" "distinct (map fst P)" "\<forall>(y, l) \<in> set P. distinct l"
    "out = filter (\<lambda>x. x \<in> set keys) ds" "sort_loop keys prec tmp out = (out', left)"
  shows "\<exists>ds'. sort_inv keys P left [] ds' \<and> out' = filter (\<lambda>x. x \<in> set keys) ds'"
  using assms
proof (induction keys prec tmp out arbitrary: ds rule: sort_loop.induct)
  case (1 keys prec out)
  then show ?case by auto
next
  case (2 keys prec e tmp out)
  have prec: "prec = filter (\<lambda>(y, l). y \<notin> set ds) P" using 2(3) by (simp add: sort_inv_def)
  define prec' where "prec' = filter (\<lambda>(y, l). y \<notin> set (ds @ [e])) P"
  have del: "AList.delete e prec = prec'"
    by (auto simp: prec prec'_def AList.delete_eq intro!: filter_cong)
  have out: "(if e \<in> set keys then out @ [e] else out) = filter (\<lambda>x. x \<in> set keys) (ds @ [e])" using 2(6) by simp
  note step = sort_step [OF 2(3,4,5) prec'_def refl]
  show ?case
  proof (cases "map_of prec e")
    case None
    then have "e \<notin> fst ` set prec" by (simp add: map_of_eq_None_iff)
    then have "prec' = prec" unfolding del [symmetric] AList.delete_eq by (intro filter_True) force
    then show ?thesis using 2(1) [OF refl None, of "ds @ [e]"] 2(4,5,7) None step out by simp
  next
    case (Some nlst)
    then show ?thesis using 2(2) [OF refl Some refl, of "ds @ [e]"] 2(4,5,7) step out del by simp
  qed
qed

lemma sort_inv_start:
  assumes "distinct keys" "P = filter (\<lambda>(x, l). x \<in> set keys) tbl"
  shows "sort_inv keys P P (rev (filter (\<lambda>a. \<not> in_lists P a) keys)) []"
  using assms by (auto simp: sort_inv_def)

text \<open>What is left over when nothing is free any more is part of a cycle.\<close>

lemma leftover_cyclic:
  assumes "sort_inv keys P left [] ds" "left \<noteq> []" "P = filter (\<lambda>(x, l). x \<in> set keys) tbl"
  shows "\<not> acyclic (edges keys tbl)"
proof
  let ?L = "fst ` set left"
  assume ac: "acyclic (edges keys tbl)"
  have "finite (edges keys tbl)"
    by (rule finite_subset [of _ "set keys \<times> set keys"]) (auto simp: edges_def)
  then have "wf ((edges keys tbl)\<inverse>)" using ac by (rule finite_acyclic_wf_converse)
  moreover have "?L \<noteq> {}" using assms(2) by simp
  ultimately obtain z where z: "z \<in> ?L" "\<And>y. (y, z) \<in> (edges keys tbl)\<inverse> \<Longrightarrow> y \<notin> ?L"
    by (metis all_not_in_conv wfE_min)
  have left: "left = filter (\<lambda>(y, l). y \<notin> set ds) P" using assms(1) by (simp add: sort_inv_def)
  have zk: "z \<in> set keys" "z \<notin> set ds" using z(1) left assms(3) by auto
  then have "in_lists left z" using assms(1) by (auto simp: sort_inv_def)
  then obtain y l where y: "(y, l) \<in> set left" "z \<in> set l" by (auto simp: in_lists_iff)
  then have "(z, y) \<in> edges keys tbl" using zk left assms(3) by (auto simp: edges_def)
  then show False using z(2) [of y] y(1) by force
qed

lemma precedes_filter:
  assumes "xs = us @ b # vs" "a \<in> set us" "a \<in> S" "b \<in> S"
  shows "precedes (rev (filter (\<lambda>x. x \<in> S) xs)) b a"
proof -
  have "rev (filter (\<lambda>x. x \<in> S) xs) = rev (filter (\<lambda>x. x \<in> S) vs) @ b # rev (filter (\<lambda>x. x \<in> S) us)"
    using assms(1,4) by simp
  then show ?thesis unfolding precedes_def using assms(2,3) by fastforce
qed

lemma precedes_acyclic:
  assumes "distinct xs" "\<And>a b. (a, b) \<in> E \<Longrightarrow> precedes xs a b"
  shows "acyclic E"
proof -
  define pos where "pos x = length (takeWhile (\<lambda>y. y \<noteq> x) xs)" for x
  have "pos a < pos b" if ab: "(a, b) \<in> E" for a b
  proof -
    obtain us vs where xs: "xs = us @ a # vs" "b \<in> set vs" using assms(2) [OF ab] by (auto simp: precedes_def)
    have "a \<notin> set us" "b \<notin> set us" "b \<noteq> a" using assms(1) xs by auto
    then have "pos a = length us" "length us < pos b"
      unfolding pos_def xs(1) by (simp_all add: takeWhile_append)
    then show ?thesis by simp
  qed
  then have "E \<subseteq> measure pos" by auto
  then show ?thesis by (meson acyclic_subset wf_acyclic wf_measure)
qed

text \<open>C34: the methods of a task generator are sorted topologically. When the declared order of the methods that run has
  no cycle, every method runs once, behind those declared to run before it. Otherwise the sort raises, and it raises
  only then.\<close>

theorem sort_methods_correct:
  assumes "distinct keys" "distinct (map fst tbl)" "\<forall>(y, l) \<in> set tbl. distinct l"
  shows "case sort_methods keys tbl of
      Inr out \<Rightarrow> acyclic (edges keys tbl) \<and> distinct out \<and> set out = set keys \<and>
        (\<forall>(a, b) \<in> edges keys tbl. precedes out a b)
    | Inl e \<Rightarrow> e = has_cycle \<and> \<not> acyclic (edges keys tbl)"
proof -
  define P where "P = filter (\<lambda>(x, l). x \<in> set keys) tbl"
  have dp: "distinct (map fst P)" "\<forall>(y, l) \<in> set P. distinct l" using assms(2,3) by (auto simp: P_def distinct_map_filter)
  obtain out left where s: "sort_loop keys P (rev (filter (\<lambda>a. \<not> in_lists P a) keys)) [] = (out, left)" by fastforce
  obtain ds where inv: "sort_inv keys P left [] ds" and out: "out = filter (\<lambda>x. x \<in> set keys) ds"
    using sort_loop_inv [OF sort_inv_start [OF assms(1) P_def] dp _ s] by auto
  have res: "sort_methods keys tbl = (if left \<noteq> [] then Inl has_cycle else Inr (rev out))"
    using s by (simp add: sort_methods_def P_def [symmetric] Let_def)
  show ?thesis
  proof (cases "left = []")
    case False
    then show ?thesis using res leftover_cyclic [OF inv False P_def] by simp
  next
    case True
    have "set keys \<subseteq> set ds" using inv True by (auto simp: sort_inv_def in_lists_iff)
    then have so: "distinct (rev out)" "set (rev out) = set keys" using inv out by (auto simp: sort_inv_def)
    have pr: "precedes (rev out) a b" if ab: "(a, b) \<in> edges keys tbl" for a b
    proof -
      obtain l where l: "(b, l) \<in> set P" "a \<in> set l" "a \<in> set keys" "b \<in> set keys"
        using ab by (auto simp: edges_def P_def)
      then obtain us vs where ds: "ds = us @ a # vs" using \<open>set keys \<subseteq> set ds\<close> by (metis split_list subsetD)
      then have "b \<in> set us" using inv l(1,2) unfolding sort_inv_def by blast
      then show ?thesis unfolding out using ds l(3,4) by (intro precedes_filter)
    qed
    then have "acyclic (edges keys tbl)" using precedes_acyclic [OF so(1)] by blast
    then show ?thesis using res True so pr by auto
  qed
qed

theorem sort_methods_correct_witness:
  "precedes [''exec_rule'', ''apply_core'', ''link''] ''exec_rule'' ''link'' \<and>
   sort_methods [''link'', ''apply_core'', ''exec_rule''] [(''apply_core'', [''exec_rule'']), (''link'', [''apply_core'', ''exec_rule''])] =
     Inr [''exec_rule'', ''apply_core'', ''link'']"
proof -
  let ?k = "[''link'', ''apply_core'', ''exec_rule'']"
  let ?t = "[(''apply_core'', [''exec_rule'']), (''link'', [''apply_core'', ''exec_rule''])]"
  have s: "sort_methods ?k ?t = Inr [''exec_rule'', ''apply_core'', ''link'']" by code_simp
  moreover have "(''exec_rule'', ''link'') \<in> edges ?k ?t" by (simp add: edges_def)
  ultimately show ?thesis using sort_methods_correct [of ?k ?t] by auto
qed

subsection \<open>Generators\<close>

text \<open>A value that is a string or a list of strings, and \<open>to_list\<close>.\<close>

datatype names = Text string | Names "string list"

fun to_list :: "names \<Rightarrow> string list" where
  "to_list (Text s) = py_split_ws s"
| "to_list (Names l) = l"

definition given :: "names \<Rightarrow> bool" where
  "given v \<longleftrightarrow> v \<noteq> Text [] \<and> v \<noteq> Names []"

text \<open>A rule: a command, or a function by its hash.\<close>

datatype grule = Cmd string | Func string

record gtask =
  gt_class :: string
  gt_inputs :: "nat list"
  gt_outputs :: "nat list"
  gt_dep_vars :: "string list"
  gt_ruledeps :: string
  gt_install_path :: string
  gt_cwd :: string
  gt_quiet :: bool
  gt_scan :: bool
  gt_on_results :: bool
  gt_always :: bool

record tgen =
  g_name :: string
  g_source :: names
  g_target :: names
  g_features :: names
  g_meths :: "string list"
  g_prec :: prec_tbl
  g_mappings :: "(string \<times> string) list"
  g_allnodes :: "nat list"
  g_tasks :: "gtask list"
  g_posted :: bool
  g_idx :: nat
  g_rule :: "grule option"
  g_dep_vars :: "string list option"
  g_install_path :: string
  g_cwd :: string
  g_scan :: bool
  g_on_results :: bool
  g_always :: bool
  g_seq_start :: bool

text \<open>The generators of a build, the last one of a sequence (\<open>bld.prev\<close>), and the orders set between tasks: the second
  task runs before the first. A task is given by its generator and its place there.\<close>

record gbuild =
  gens :: "tgen list"
  seq_prev :: "nat option"
  orders :: "((nat \<times> nat) \<times> (nat \<times> nat)) list"

text \<open>The arguments: files of the generator's folder, hooks by the name of their function (they get a file name or a
  node), and the other methods.\<close>

record gargs =
  ga_find :: "string \<Rightarrow> nat option"
  ga_declare :: "string \<Rightarrow> nat"
  ga_suffix :: "nat \<Rightarrow> string"
  ga_hook :: "string \<Rightarrow> string + nat \<Rightarrow> tgen \<Rightarrow> tgen res"
  ga_method :: "string \<Rightarrow> (nat \<Rightarrow> gbuild \<Rightarrow> gbuild res) option"

definition get_hook :: "tables \<Rightarrow> tgen \<Rightarrow> string \<Rightarrow> string option" where
  "get_hook T g ext = (case map_of (g_mappings g) ext of Some f \<Rightarrow> Some f | None \<Rightarrow> map_of (t_mappings T) ext)"

definition create_task :: "string \<Rightarrow> nat list \<Rightarrow> nat list \<Rightarrow> tgen \<Rightarrow> tgen" where
  "create_task name src tgt g =
     g\<lparr>g_tasks := g_tasks g @
       [\<lparr>gt_class = name, gt_inputs = src, gt_outputs = tgt, gt_dep_vars = [], gt_ruledeps = [], gt_install_path = [],
         gt_cwd = [], gt_quiet = False, gt_scan = False, gt_on_results = False, gt_always = False\<rparr>]\<rparr>"

subsection \<open>The methods of the module\<close>

definition source_not_found :: py_error where "source_not_found = WafError ''source not found''"
definition cannot_guess :: py_error where "cannot_guess = WafError ''Cannot guess how to process''"

text \<open>\<open>apply_core\<close>: names first, then the nodes; a hook may append to \<open>allnodes\<close> while the loop runs over it, which the
  number bounds.\<close>

fun core_names :: "gargs \<Rightarrow> tables \<Rightarrow> string list \<Rightarrow> tgen \<Rightarrow> tgen res" where
  "core_names A T [] g = Inr g"
| "core_names A T (f # fs) g =
     (case get_hook T g f of
        Some h \<Rightarrow> rbind (ga_hook A h (Inl f) g) (core_names A T fs)
      | None \<Rightarrow>
          (case ga_find A f of
             None \<Rightarrow> Inl source_not_found
           | Some x \<Rightarrow> core_names A T fs (g\<lparr>g_allnodes := g_allnodes g @ [x]\<rparr>)))"

fun core_nodes :: "nat \<Rightarrow> gargs \<Rightarrow> tables \<Rightarrow> nat \<Rightarrow> tgen \<Rightarrow> tgen res" where
  "core_nodes 0 A T i g = Inl RecursionError"
| "core_nodes (Suc n) A T i g =
     (if length (g_allnodes g) \<le> i then Inr g
      else
        case get_hook T g (ga_suffix A (g_allnodes g ! i)) of
          None \<Rightarrow> Inl cannot_guess
        | Some h \<Rightarrow> rbind (ga_hook A h (Inr (g_allnodes g ! i)) g) (core_nodes n A T (Suc i)))"

definition apply_core :: "nat \<Rightarrow> gargs \<Rightarrow> tables \<Rightarrow> tgen \<Rightarrow> tgen res" where
  "apply_core n A T g = rbind (core_names A T (to_list (g_source g)) g) (core_nodes n A T 0)"

text \<open>The name of the class that \<open>exec_rule\<close> makes.\<close>

definition rule_name :: "grule \<Rightarrow> tgen \<Rightarrow> string" where
  "rule_name r g =
     (if g_name g \<noteq> [] then g_name g
      else if given (g_target g) then (case g_target g of Text t \<Rightarrow> t | Names l \<Rightarrow> py_str_nat (g_idx g))
      else case r of Cmd s \<Rightarrow> if s = [] then py_str_nat (g_idx g) else s | Func h \<Rightarrow> py_str_nat (g_idx g))"

fun rule_inputs :: "gargs \<Rightarrow> string list \<Rightarrow> nat list res" where
  "rule_inputs A [] = Inr []"
| "rule_inputs A (f # fs) =
     (case ga_find A f of
        None \<Rightarrow> Inl (WafError ''input file could not be found'')
      | Some x \<Rightarrow> rbind (rule_inputs A fs) (\<lambda>xs. Inr (x # xs)))"

definition exec_rule :: "gargs \<Rightarrow> tgen \<Rightarrow> tgen res" where
  "exec_rule A g =
     (case g_rule g of
        None \<Rightarrow> Inr g
      | Some r \<Rightarrow>
          if r = Cmd [] then Inr g
          else
            let g = g\<lparr>g_meths := remove1 ''apply_core'' (g_meths g)\<rparr>;
                outs = (if given (g_target g) then map (ga_declare A) (to_list (g_target g)) else [])
            in
            rbind (if given (g_source g) then rule_inputs A (to_list (g_source g)) else Inr []) (\<lambda>ins.
              Inr (g\<lparr>g_tasks := g_tasks g @
                [\<lparr>gt_class = rule_name r g, gt_inputs = ins @ g_allnodes g, gt_outputs = outs,
                  gt_dep_vars = (case g_dep_vars g of None \<Rightarrow> [''ruledeps''] | Some vs \<Rightarrow> vs),
                  gt_ruledeps = (case r of Cmd s \<Rightarrow> s | Func h \<Rightarrow> h), gt_install_path = g_install_path g, gt_cwd = g_cwd g,
                  gt_quiet = given (g_target g) \<or> given (g_source g), gt_scan = g_scan g,
                  gt_on_results = g_on_results g, gt_always = g_always g\<rparr>]\<rparr>)))"

definition with_gen :: "nat \<Rightarrow> (tgen \<Rightarrow> tgen res) \<Rightarrow> gbuild \<Rightarrow> gbuild res" where
  "with_gen k f s = rbind (f (gens s ! k)) (\<lambda>g. Inr (s\<lparr>gens := (gens s)[k := g]\<rparr>))"

text \<open>All pairs of a task of generator \<open>k\<close> and a task of generator \<open>p\<close>.\<close>

definition order_all :: "nat \<Rightarrow> nat \<Rightarrow> gbuild \<Rightarrow> ((nat \<times> nat) \<times> (nat \<times> nat)) list" where
  "order_all k p s =
     concat (map (\<lambda>x. map (\<lambda>y. ((k, y), (p, x))) [0..<length (g_tasks (gens s ! k))]) [0..<length (g_tasks (gens s ! p))])"

definition invalid_method :: py_error where "invalid_method = WafError ''not a valid method''"

definition target_name :: "tgen \<Rightarrow> tgen" where
  "target_name g =
     (if g_name g \<noteq> [] then g
      else g\<lparr>g_name := (case g_target g of Names l \<Rightarrow> py_join '' '' l | Text t \<Rightarrow> t)\<rparr>)"

text \<open>\<open>apply\<close> runs the methods over the list of the generator by index: a method that removes or appends changes what
  runs next. \<open>sequence_order\<close> puts itself at the end first.\<close>

fun post :: "nat \<Rightarrow> gargs \<Rightarrow> tables \<Rightarrow> nat \<Rightarrow> gbuild \<Rightarrow> gbuild res"
  and run_meths :: "nat \<Rightarrow> gargs \<Rightarrow> tables \<Rightarrow> nat \<Rightarrow> nat \<Rightarrow> gbuild \<Rightarrow> gbuild res"
  and sequence_order :: "nat \<Rightarrow> gargs \<Rightarrow> tables \<Rightarrow> nat \<Rightarrow> gbuild \<Rightarrow> gbuild res" where
  "post 0 A T k s = Inl RecursionError"
| "post (Suc n) A T k s =
     rbind (with_gen k (\<lambda>g. Inr (target_name g)) s) (\<lambda>s.
       if g_posted (gens s ! k) then Inr s
       else
         let g = gens s ! k;
             features = to_list (g_features g);
             tbl = (if g_prec g \<noteq> [] then g_prec g else t_prec T)
         in
         rbind (sort_methods (collect_keys T (g_meths g) features) tbl) (\<lambda>out.
         rbind (with_gen k (\<lambda>g. Inr (g\<lparr>g_features := Names features, g_meths := out\<rparr>)) s) (\<lambda>s.
         rbind (run_meths n A T k 0 s) (\<lambda>s.
           with_gen k (\<lambda>g. Inr (g\<lparr>g_posted := True\<rparr>)) s))))"
| "run_meths 0 A T k i s = Inl RecursionError"
| "run_meths (Suc n) A T k i s =
     (if length (g_meths (gens s ! k)) \<le> i then Inr s
      else
        let m = g_meths (gens s ! k) ! i in
        rbind
          (if m = ''apply_core'' then with_gen k (apply_core n A T) s
           else if m = ''exec_rule'' then with_gen k (exec_rule A) s
           else if m = ''sequence_order'' then sequence_order n A T k s
           else case ga_method A m of None \<Rightarrow> Inl invalid_method | Some f \<Rightarrow> f k s)
          (run_meths n A T k (Suc i)))"
| "sequence_order 0 A T k s = Inl RecursionError"
| "sequence_order (Suc n) A T k s =
     (let ms = g_meths (gens s ! k) in
      if ms \<noteq> [] \<and> last ms \<noteq> ''sequence_order'' then with_gen k (\<lambda>g. Inr (g\<lparr>g_meths := ms @ [''sequence_order'']\<rparr>)) s
      else if g_seq_start (gens s ! k) then Inr s
      else
        rbind (case seq_prev s of
                 None \<Rightarrow> Inr s
               | Some p \<Rightarrow> rbind (post n A T p s) (\<lambda>s. Inr (s\<lparr>orders := orders s @ order_all k p s\<rparr>)))
          (\<lambda>s. Inr (s\<lparr>seq_prev := Some k\<rparr>)))"

subsection \<open>Methods that change the list\<close>

text \<open>With a rule, \<open>exec_rule\<close> takes \<open>apply_core\<close> out of the list that is being run, so that it never runs: the order
  declared for the two puts it behind.\<close>

lemma rule_disables_apply_core:
  assumes "k < length (gens s)" "g_meths (gens s ! k) = us @ ''exec_rule'' # vs @ ''apply_core'' # ws"
    "''apply_core'' \<notin> set us \<union> set vs" "g_rule (gens s ! k) = Some r" "r \<noteq> Cmd []"
    "with_gen k (exec_rule A) s = Inr s'"
  shows "run_meths (Suc n) A T k (length us) s = run_meths n A T k (Suc (length us)) s' \<and>
    drop (Suc (length us)) (g_meths (gens s' ! k)) = vs @ ws"
proof -
  have "g_meths (gens s' ! k) = us @ ''exec_rule'' # vs @ ws"
    using assms by (auto simp: with_gen_def exec_rule_def Let_def remove1_append)
  moreover have "g_meths (gens s ! k) ! length us = ''exec_rule''" using assms(2) by simp
  ultimately show ?thesis using assms(2,6) by simp
qed

text \<open>\<open>sequence_order\<close> runs in the last position: at any other it only appends itself.\<close>

lemma sequence_runs_last:
  assumes "k < length (gens s)" "last (g_meths (gens s ! k)) \<noteq> ''sequence_order''" "g_meths (gens s ! k) \<noteq> []"
  shows "sequence_order (Suc n) A T k s =
    Inr (s\<lparr>gens := (gens s)[k := (gens s ! k)\<lparr>g_meths := g_meths (gens s ! k) @ [''sequence_order'']\<rparr>]\<rparr>)"
  using assms by (simp add: with_gen_def Let_def)

text \<open>A generator that starts a new sequence does not become its first member: \<open>bld.prev\<close> stays the end of the old
  one, and the next generator is ordered behind that.\<close>

lemma seq_start_keeps_old_sequence:
  assumes "last (g_meths (gens s ! k)) = ''sequence_order''" "g_seq_start (gens s ! k)"
  shows "sequence_order (Suc n) A T k s = Inr s"
  using assms by (simp add: Let_def)

lemma order_all_complete:
  "((k, y), (p, x)) \<in> set (order_all k p s) \<longleftrightarrow> y < length (g_tasks (gens s ! k)) \<and> x < length (g_tasks (gens s ! p))"
  by (force simp: order_all_def)

end
