(* ===== verification/WafGlob.thy ===== *)
theory WafGlob
  imports WafScan WafTaskGen PyRegex
begin

section \<open>Searching the tree of nodes\<close>

text \<open>
  \<open>Node.ant_glob\<close> and \<open>Node.find_iter\<close> of \<open>wafadmin/Node.py\<close>: the two searches below a folder. \<open>ant_glob\<close>
  compiles Ant patterns and carries along, from folder to folder, what is left of them to match;
  \<open>find_iter\<close> compares single names with shell patterns. The searches are generators; the model runs them
  to their end. Shown are that the patterns carried along accept what Ant patterns stand for, that a
  compiled component is a wildcard match, and that a search returns what was asked for only, to the
  depth the code gives.
\<close>

subsection \<open>Compiling a component of a pattern\<close>

text \<open>\<open>re.compile\<close> on the texts that \<open>to_pat\<close> builds: \<open>^\<close>, then characters, \<open>.\<close> and \<open>[.]\<close>, each maybe with a \<open>*\<close>,
  then \<open>$\<close>. \<open>None\<close> is a text with other characters that are special in a regular expression.\<close>

definition special :: string where
  "special = CHR 0x5C # ''^$+*?{}()|[]''"

definition rx_atom :: "string \<Rightarrow> (rx \<times> string) option" where
  "rx_atom s =
     (if py_startswith s ''[.]'' then Some (Lit CHR ''.'', drop 3 s)
      else case s of
             [] \<Rightarrow> None
           | c # cs \<Rightarrow>
               if c = CHR ''.'' then Some (Any, cs) else if c \<in> set special then None else Some (Lit c, cs))"

lemma rx_atom_shorter: "rx_atom s = Some (a, r) \<Longrightarrow> length r < length s"
  by (cases s) (auto simp: rx_atom_def py_startswith_def split: if_splits)

function rx_items :: "string \<Rightarrow> rx option" where
  "rx_items s =
     (if s = ''$'' then Some Eos
      else case rx_atom s of
             None \<Rightarrow> None
           | Some (a, r) \<Rightarrow>
               if py_startswith r ''*'' then map_option (Seq (Star a)) (rx_items (tl r))
               else map_option (Seq a) (rx_items r))"
  by pat_completeness auto
termination
  by (relation "measure length") (auto dest: rx_atom_shorter)

declare rx_items.simps [simp del]

definition re_compile :: "string \<Rightarrow> rx option" where
  "re_compile s = (if py_startswith s ''^'' then map_option (Seq Bos) (rx_items (tl s)) else None)"

definition component_text :: "string \<Rightarrow> string" where
  "component_text k = ''^'' @ py_replace ''?'' ''.'' (py_replace ''*'' ''.*'' (py_replace ''.'' ''[.]'' k)) @ ''$''"

subsection \<open>Patterns\<close>

datatype comp = DStar | Comp rx

fun pat_comps :: "string list \<Rightarrow> comp list res" where
  "pat_comps [] = Inr []"
| "pat_comps (k # ks) =
     rbind (if k = ''**'' then Inr DStar
            else case re_compile (component_text k) of None \<Rightarrow> Inl Unmodelled | Some r \<Rightarrow> Inr (Comp r)) (\<lambda>c.
       rbind (pat_comps ks) (\<lambda>cs. Inr (c # cs)))"

definition one_pat :: "string \<Rightarrow> comp list res" where
  "one_pat x =
     (let x = py_replace ''//'' ''/'' x;
          x = (if py_endswith x ''/'' then x @ ''**'' else x)
      in pat_comps (py_split CHR ''/'' x))"

fun pats_of :: "string list \<Rightarrow> comp list list res" where
  "pats_of [] = Inr []"
| "pats_of (x # xs) = rbind (one_pat x) (\<lambda>p. rbind (pats_of xs) (\<lambda>ps. Inr (p # ps)))"

definition to_pat :: "names \<Rightarrow> comp list list res" where
  "to_pat s = pats_of (to_list s)"

text \<open>\<open>pattern.match(name)\<close> as a truth value.\<close>

definition comp_matches :: "rx \<Rightarrow> string \<Rightarrow> bool" where
  "comp_matches r name = (case re_match r name of None \<Rightarrow> False | Some m \<Rightarrow> True)"

text \<open>The loop body of \<open>filtre\<close>. Behind \<open>**\<close> the code calls the method \<open>match\<close> of the next component, which the
  string \<open>**\<close> does not have.\<close>

fun filtre_one :: "string \<Rightarrow> comp list \<Rightarrow> comp list list res" where
  "filtre_one name [] = Inr []"
| "filtre_one name [DStar] = Inr [[DStar], []]"
| "filtre_one name (DStar # DStar # ps) = Inl AttributeError"
| "filtre_one name (DStar # Comp r # ps) =
     Inr ((DStar # Comp r # ps) # (if comp_matches r name then [ps] else []))"
| "filtre_one name (Comp r # ps) = Inr (if comp_matches r name then [ps] else [])"

fun filtre :: "string \<Rightarrow> comp list list \<Rightarrow> comp list list res" where
  "filtre name [] = Inr []"
| "filtre name (l # nn) = rbind (filtre_one name l) (\<lambda>xs. rbind (filtre name nn) (\<lambda>ys. Inr (xs @ ys)))"

text \<open>\<open>[] in pats\<close>.\<close>

definition emptied :: "'a list list \<Rightarrow> bool" where
  "emptied pats = list_ex (\<lambda>l. case l of [] \<Rightarrow> True | _ \<Rightarrow> False) pats"

lemma emptied_iff [simp]: "emptied pats \<longleftrightarrow> [] \<in> set pats"
  unfolding emptied_def by (induction pats) (simp_all split: list.split)

type_synonym pats = "comp list list \<times> comp list list"

definition accept :: "string \<Rightarrow> pats \<Rightarrow> pats res" where
  "accept name pats =
     rbind (filtre name (fst pats)) (\<lambda>nacc.
     rbind (filtre name (snd pats)) (\<lambda>nrej.
       Inr (if emptied nrej then [] else nacc, nrej)))"

subsection \<open>The search with Ant patterns\<close>

record glob_kw =
  kw_src :: bool
  kw_bld :: bool
  kw_dir :: bool
  kw_excl :: names
  kw_incl :: names
  kw_flat :: bool

text \<open>What a generator yields, in order; the first raise ends it.\<close>

fun collect :: "('x \<Rightarrow> 's \<Rightarrow> ('y list \<times> 's) res) \<Rightarrow> 'x list \<Rightarrow> 's \<Rightarrow> ('y list \<times> 's) res" where
  "collect g [] s = Inr ([], s)"
| "collect g (x # xs) s =
     rbind (g x s) (\<lambda>(ys, s). rbind (collect g xs s) (\<lambda>(zs, s). Inr (ys @ zs, s)))"

type_synonym 'p search = "'p \<Rightarrow> nat \<Rightarrow> build \<Rightarrow> (nat list \<times> build) res"

text \<open>The branch of \<open>ant_iter\<close> for a name that is no accepted file. \<open>sub\<close> is the search in a folder below.\<close>

definition ant_folder :: "fs \<Rightarrow> glob_kw \<Rightarrow> pats search \<Rightarrow> pats \<Rightarrow> nat \<Rightarrow> string \<Rightarrow> build \<Rightarrow> (nat list \<times> build) res" where
  "ant_folder f kw sub npats n name b =
     rbind (find_dir f (split_path name) n b) (\<lambda>(r, b).
       case r of
         None \<Rightarrow> Inr ([], b)
       | Some m \<Rightarrow>
           if n_id (nd b m) = n_id (nd b (bldnode b)) then Inr ([], b)
           else rbind (sub npats m b) (\<lambda>(ms, b').
             Inr ((if emptied (fst npats) \<and> kw_dir kw then [m] else []) @ ms, b')))"

definition ant_name :: "fs \<Rightarrow> glob_kw \<Rightarrow> pats search \<Rightarrow> pats \<Rightarrow> nat \<Rightarrow> string \<Rightarrow> build \<Rightarrow> (nat list \<times> build) res" where
  "ant_name f kw sub pats n name b =
     rbind (accept name pats) (\<lambda>npats.
       case fst npats of
         [] \<Rightarrow> Inr ([], b)
       | _ # _ \<Rightarrow>
           rbind (find_resource f (split_path name) n b) (\<lambda>(r, b).
             case r of
               None \<Rightarrow> ant_folder f kw sub npats n name b
             | Some m \<Rightarrow>
                 if emptied (fst npats) then Inr (if kw_src kw \<and> get_type b m = FILE then [m] else [], b)
                 else ant_folder f kw sub npats n name b))"

text \<open>The loop over the nodes of the build folder.\<close>

definition ant_built :: "pats \<Rightarrow> nat \<Rightarrow> build \<Rightarrow> (nat list \<times> build) res" where
  "ant_built pats c b =
     (if n_id (nd b c) = n_id (nd b (bldnode b)) then Inr ([], b)
      else if get_type b c = BUILD then
        rbind (accept (n_name (nd b c)) pats) (\<lambda>npats. Inr (if emptied (fst npats) then [c] else [], b))
      else Inr ([], b))"

definition listing :: "nat \<Rightarrow> build \<Rightarrow> string list res" where
  "listing n b = (case map_of (cache_dir_contents b) (n_id (nd b n)) of None \<Rightarrow> Inl KeyError | Some l \<Rightarrow> Inr l)"

definition ant_level :: "fs \<Rightarrow> glob_kw \<Rightarrow> pats search \<Rightarrow> pats search" where
  "ant_level f kw sub pats n b =
     rbind (rescan f n b) (\<lambda>b.
     rbind (listing n b) (\<lambda>l.
     rbind (collect (ant_name f kw sub pats n) l b) (\<lambda>(ms, b).
       if kw_bld kw then
         rbind (child_nodes b n) (\<lambda>cs.
         rbind (collect (ant_built pats) cs b) (\<lambda>(ks, b). Inr (ms @ ks, b)))
       else Inr (ms, b))))"

primrec ant_iter :: "fs \<Rightarrow> glob_kw \<Rightarrow> nat \<Rightarrow> pats search" where
  "ant_iter f kw 0 = ant_level f kw (\<lambda>pats n b. Inr ([], b))"
| "ant_iter f kw (Suc d) = ant_level f kw (ant_iter f kw d)"

definition exclude_regs :: string where
  "exclude_regs =
     py_join [CHR 0x0A]
       ['''', ''**/*~'', ''**/#*#'', ''**/.#*'', ''**/%*%'', ''**/._*'', ''**/CVS'', ''**/CVS/**'', ''**/.cvsignore'',
        ''**/SCCS'', ''**/SCCS/**'', ''**/vssver.scc'', ''**/.svn'', ''**/.svn/**'', ''**/.git'', ''**/.git/**'',
        ''**/.gitignore'', ''**/.bzr'', ''**/.bzr/**'', ''**/.hg'', ''**/.hg/**'', ''**/_MTN'', ''**/_MTN/**'',
        ''**/_darcs'', ''**/_darcs/**'', ''**/.DS_Store'']"

text \<open>The keyword arguments that are not given.\<close>

definition default_kw :: glob_kw where
  "default_kw =
     \<lparr>kw_src = True, kw_bld = False, kw_dir = False, kw_excl = Text exclude_regs, kw_incl = Text ''**'', kw_flat = True\<rparr>"

datatype found = Flat string | Nodes "nat list"

fun relpaths :: "build \<Rightarrow> nat \<Rightarrow> nat list \<Rightarrow> string list res" where
  "relpaths b n [] = Inr []"
| "relpaths b n (m # ms) = rbind (relpath_gen b m n) (\<lambda>p. rbind (relpaths b n ms) (\<lambda>ps. Inr (p # ps)))"

definition as_found :: "bool \<Rightarrow> nat \<Rightarrow> nat list \<times> build \<Rightarrow> (found \<times> build) res" where
  "as_found flat n x =
     (if flat then rbind (relpaths (snd x) n (fst x)) (\<lambda>ps. Inr (Flat (py_join '' '' ps), snd x))
      else Inr (Nodes (fst x), snd x))"

text \<open>The positional argument is \<open>None\<close> when it is not given.\<close>

definition ant_nodes :: "fs \<Rightarrow> names option \<Rightarrow> glob_kw \<Rightarrow> nat \<Rightarrow> build \<Rightarrow> (nat list \<times> build) res" where
  "ant_nodes f k kw n b =
     (let incl = (case k of Some v \<Rightarrow> if given v then v else kw_incl kw | None \<Rightarrow> kw_incl kw) in
      rbind (to_pat incl) (\<lambda>inc. rbind (to_pat (kw_excl kw)) (\<lambda>exc. ant_iter f kw 25 (inc, exc) n b)))"

definition ant_glob :: "fs \<Rightarrow> names option \<Rightarrow> glob_kw \<Rightarrow> nat \<Rightarrow> build \<Rightarrow> (found \<times> build) res" where
  "ant_glob f k kw n b = rbind (ant_nodes f k kw n b) (as_found (kw_flat kw) n)"

subsection \<open>Shell patterns\<close>

text \<open>\<open>fnmatch.fnmatchcase\<close>: \<open>*\<close>, \<open>?\<close>, \<open>[seq]\<close> and \<open>[!seq]\<close>; a \<open>[\<close> that is not closed is a character. A range
  that runs backwards is refused by the regular expression compiler and left out of the model.\<close>

datatype fn_item = AnyRun | OneOf "char \<Rightarrow> bool"

fun cls_of :: "string \<Rightarrow> (char \<Rightarrow> bool) option" where
  "cls_of [] = Some (\<lambda>d. False)"
| "cls_of [a] = Some (\<lambda>d. d = a)"
| "cls_of [a, c] = Some (\<lambda>d. d = a \<or> d = c)"
| "cls_of (a # m # c # cs) =
     (if m = CHR ''-'' then
        if ord c < ord a then None else map_option (\<lambda>p d. ord a \<le> ord d \<and> ord d \<le> ord c \<or> p d) (cls_of cs)
      else map_option (\<lambda>p d. d = a \<or> p d) (cls_of (m # c # cs)))"

definition one_of :: "string \<Rightarrow> fn_item res" where
  "one_of stuff =
     (let neg = py_startswith stuff ''!'' in
      case cls_of (if neg then tl stuff else stuff) of
        None \<Rightarrow> Inl Unmodelled
      | Some p \<Rightarrow> Inr (OneOf (\<lambda>d. p d \<noteq> neg)))"

text \<open>The position of the closing bracket; one that comes first does not close.\<close>

definition closing :: "string \<Rightarrow> nat option" where
  "closing s =
     (let j = (if py_startswith s ''!'' then 1 else 0);
          j = (if py_startswith (drop j s) '']'' then Suc j else j)
      in map_option (\<lambda>k. j + k) (find_sub '']'' (drop j s)))"

function fn_items :: "string \<Rightarrow> fn_item list res" where
  "fn_items pat =
     (case pat of
        [] \<Rightarrow> Inr []
      | c # cs \<Rightarrow>
          if c = CHR ''*'' then rbind (fn_items cs) (\<lambda>is. Inr (AnyRun # is))
          else if c = CHR ''?'' then rbind (fn_items cs) (\<lambda>is. Inr (OneOf (\<lambda>d. True) # is))
          else if c = CHR ''['' then
            (case closing cs of
               None \<Rightarrow> rbind (fn_items cs) (\<lambda>is. Inr (OneOf (\<lambda>d. d = c) # is))
             | Some j \<Rightarrow>
                 rbind (one_of (take j cs)) (\<lambda>i. rbind (fn_items (drop (Suc j) cs)) (\<lambda>is. Inr (i # is))))
          else rbind (fn_items cs) (\<lambda>is. Inr (OneOf (\<lambda>d. d = c) # is)))"
  by pat_completeness auto
termination by (relation "measure length") auto

declare fn_items.simps [simp del]

fun fn_match :: "fn_item list \<Rightarrow> string \<Rightarrow> bool" where
  "fn_match [] s = (case s of [] \<Rightarrow> True | _ \<Rightarrow> False)"
| "fn_match (OneOf p # is) [] = False"
| "fn_match (OneOf p # is) (c # cs) = (p c \<and> fn_match is cs)"
| "fn_match (AnyRun # is) [] = fn_match is []"
| "fn_match (AnyRun # is) (c # cs) = (fn_match is (c # cs) \<or> fn_match (AnyRun # is) cs)"

definition fnmatchcase :: "string \<Rightarrow> string \<Rightarrow> bool res" where
  "fnmatchcase name pat = rbind (fn_items pat) (\<lambda>is. Inr (fn_match is name))"

text \<open>A loop that returns \<open>True\<close> at the first pattern that matches.\<close>

fun any_match :: "string \<Rightarrow> string list \<Rightarrow> bool res" where
  "any_match name [] = Inr False"
| "any_match name (pat # pats) = rbind (fnmatchcase name pat) (\<lambda>m. if m then Inr True else any_match name pats)"

subsection \<open>The search with shell patterns\<close>

record iter_args =
  in_pat :: names
  ex_pat :: names
  prune_pat :: names
  it_src :: bool
  it_bld :: bool
  it_dir :: bool

definition prune_pats :: "string list" where
  "prune_pats = py_split_ws ''.git .bzr .hg .svn _MTN _darcs CVS SCCS''"

definition exclude_pats :: "string list" where
  "exclude_pats = prune_pats @ py_split_ws ''*~ #*# .#* %*% ._* .gitignore .cvsignore vssver.scc .DS_Store''"

definition default_iter :: iter_args where
  "default_iter =
     \<lparr>in_pat = Names [''*''], ex_pat = Names exclude_pats, prune_pat = Names prune_pats,
      it_src = True, it_bld = True, it_dir = False\<rparr>"

definition accept_name :: "iter_args \<Rightarrow> string \<Rightarrow> bool res" where
  "accept_name a name =
     rbind (any_match name (to_list (ex_pat a))) (\<lambda>x. if x then Inr False else any_match name (to_list (in_pat a)))"

definition is_prune :: "iter_args \<Rightarrow> string \<Rightarrow> bool res" where
  "is_prune a name = any_match name (to_list (prune_pat a))"

definition iter_folder :: "fs \<Rightarrow> iter_args \<Rightarrow> unit search \<Rightarrow> bool \<Rightarrow> nat \<Rightarrow> string \<Rightarrow> build \<Rightarrow> (nat list \<times> build) res" where
  "iter_folder f a sub acc n name b =
     rbind (find_dir f (split_path name) n b) (\<lambda>(r, b).
       case r of
         None \<Rightarrow> Inr ([], b)
       | Some m \<Rightarrow>
           if n_id (nd b m) = n_id (nd b (bldnode b)) then Inr ([], b)
           else
             rbind (if acc then is_prune a name else Inr False) (\<lambda>p.
             rbind (if p then Inr ([], b) else sub () m b) (\<lambda>(ms, b').
               Inr ((if acc \<and> it_dir a then [m] else []) @ ms, b'))))"

definition iter_name :: "fs \<Rightarrow> iter_args \<Rightarrow> unit search \<Rightarrow> nat \<Rightarrow> string \<Rightarrow> build \<Rightarrow> (nat list \<times> build) res" where
  "iter_name f a sub n name b =
     rbind (accept_name a name) (\<lambda>acc.
     rbind (if acc then Inr False else is_prune a name) (\<lambda>p.
       if p then Inr ([], b)
       else rbind (find_resource f (split_path name) n b) (\<lambda>(r, b).
         case r of
           Some m \<Rightarrow> Inr (if acc \<and> it_src a \<and> get_type b m = FILE then [m] else [], b)
         | None \<Rightarrow> iter_folder f a sub acc n name b)))"

definition iter_built :: "iter_args \<Rightarrow> nat \<Rightarrow> build \<Rightarrow> (nat list \<times> build) res" where
  "iter_built a c b =
     (if n_id (nd b c) = n_id (nd b (bldnode b)) then Inr ([], b)
      else if get_type b c = BUILD then
        rbind (accept_name a (n_name (nd b c))) (\<lambda>acc. Inr (if acc then [c] else [], b))
      else Inr ([], b))"

definition iter_level :: "fs \<Rightarrow> iter_args \<Rightarrow> unit search \<Rightarrow> unit search" where
  "iter_level f a sub u n b =
     rbind (rescan f n b) (\<lambda>b.
     rbind (listing n b) (\<lambda>l.
     rbind (collect (iter_name f a sub n) l b) (\<lambda>(ms, b).
       if it_bld a then
         rbind (child_nodes b n) (\<lambda>cs.
         rbind (collect (iter_built a) cs b) (\<lambda>(ks, b). Inr (ms @ ks, b)))
       else Inr (ms, b))))"

primrec find_iter_impl :: "fs \<Rightarrow> iter_args \<Rightarrow> nat \<Rightarrow> unit search" where
  "find_iter_impl f a 0 = iter_level f a (\<lambda>u n b. Inr ([], b))"
| "find_iter_impl f a (Suc d) = iter_level f a (find_iter_impl f a d)"

text \<open>\<open>find_iter\<close> is no generator itself: its \<open>raise StopIteration\<close> reaches the caller.\<close>

definition find_iter :: "fs \<Rightarrow> iter_args \<Rightarrow> nat \<Rightarrow> bool \<Rightarrow> nat \<Rightarrow> build \<Rightarrow> (found \<times> build) res" where
  "find_iter f a maxdepth flat n b =
     (if \<not> (it_src a \<or> it_bld a \<or> it_dir a) then Inl StopIteration
      else if get_type b n \<noteq> DIR then Inl StopIteration
      else rbind (find_iter_impl f a maxdepth () n b) (as_found flat n))"

subsection \<open>A compiled component is a wildcard match\<close>


text \<open>The three replacements act on each character on its own.\<close>

definition char_text :: "char \<Rightarrow> string" where
  "char_text c =
     (if c = CHR ''.'' then ''[.]'' else if c = CHR ''*'' then ''.*'' else if c = CHR ''?'' then ''.'' else [c])"

lemma py_replace_one: "py_replace [x] new s = concat (map (\<lambda>c. if c = x then new else [c]) s)"
  by (induction s) (simp_all add: py_startswith_def)

lemma component_text_chars: "component_text k = ''^'' @ concat (map char_text k) @ ''$''"
proof -
  have "py_replace ''?'' ''.'' (py_replace ''*'' ''.*'' (py_replace ''.'' ''[.]'' k)) = concat (map char_text k)"
    unfolding py_replace_one by (induction k) (simp_all add: char_text_def)
  then show ?thesis by (simp add: component_text_def)
qed

definition char_rx :: "char \<Rightarrow> rx" where
  "char_rx c =
     (if c = CHR ''.'' then Lit CHR ''.'' else if c = CHR ''*'' then Star Any else if c = CHR ''?'' then Any else Lit c)"

fun comp_rx :: "string \<Rightarrow> rx" where
  "comp_rx [] = Eos"
| "comp_rx (c # cs) = Seq (char_rx c) (comp_rx cs)"

definition plain_comp :: "string \<Rightarrow> bool" where
  "plain_comp k \<longleftrightarrow> (\<forall>c \<in> set k. c \<in> set ''*?'' \<or> c \<notin> set special)"

lemma not_star: "plain_comp k \<Longrightarrow> \<not> py_startswith (concat (map char_text k) @ ''$'') ''*''"
  by (cases k) (auto simp: char_text_def py_startswith_def)

lemma rx_items_text: "plain_comp k \<Longrightarrow> rx_items (concat (map char_text k) @ ''$'') = Some (comp_rx k)"
proof (induction k)
  case Nil
  then show ?case by (simp add: rx_items.simps)
next
  case (Cons c k)
  have k: "plain_comp k" and c: "c \<in> set ''*?'' \<or> c \<notin> set special" using Cons.prems by (auto simp: plain_comp_def)
  let ?r = "concat (map char_text k) @ ''$''"
  note s = not_star [OF k]
  have IH: "rx_items ?r = Some (comp_rx k)" by (rule Cons.IH [OF k])
  consider "c = CHR ''.''" | "c = CHR ''*''" | "c = CHR ''?''"
    | "c \<noteq> CHR ''.''" "c \<noteq> CHR ''*''" "c \<noteq> CHR ''?''" "c \<notin> set special" using c by auto
  then show ?case
  proof cases
    case 1
    then have "rx_atom (concat (map char_text (c # k)) @ ''$'') = Some (Lit c, ?r)"
      by (simp add: rx_atom_def char_text_def py_startswith_def)
    then show ?thesis using IH s 1 by (subst rx_items.simps) (simp add: char_text_def char_rx_def)
  next
    case 2
    then have "rx_atom (concat (map char_text (c # k)) @ ''$'') = Some (Any, ''*'' @ ?r)"
      by (simp add: rx_atom_def char_text_def py_startswith_def)
    then show ?thesis using IH s 2 by (subst rx_items.simps) (simp add: char_text_def char_rx_def py_startswith_def)
  next
    case 3
    then have "rx_atom (concat (map char_text (c # k)) @ ''$'') = Some (Any, ?r)"
      by (simp add: rx_atom_def char_text_def py_startswith_def)
    then show ?thesis using IH s 3 by (subst rx_items.simps) (simp add: char_text_def char_rx_def)
  next
    case 4
    then have n: "c \<noteq> CHR ''['' \<and> c \<noteq> CHR ''$''" by (auto simp: special_def)
    with 4 have "rx_atom (concat (map char_text (c # k)) @ ''$'') = Some (Lit c, ?r)"
      by (simp add: rx_atom_def char_text_def py_startswith_def)
    then show ?thesis using IH s 4 n by (subst rx_items.simps) (simp add: char_text_def char_rx_def)
  qed
qed

lemma component_compiles: "plain_comp k \<Longrightarrow> re_compile (component_text k) = Some (Seq Bos (comp_rx k))"
  by (simp add: re_compile_def component_text_chars rx_items_text py_startswith_def)






subsection \<open>The patterns carried along\<close>

text \<open>What an Ant pattern stands for: the path, given by its names, is read component by component; \<open>**\<close> stands for
  any number of folders, and for at least one name at the end.\<close>

inductive ant_match :: "comp list \<Rightarrow> string list \<Rightarrow> bool" where
  ended: "ant_match [] []"
| name: "comp_matches r x \<Longrightarrow> ant_match ps xs \<Longrightarrow> ant_match (Comp r # ps) (x # xs)"
| deeper: "ant_match (DStar # ps) xs \<Longrightarrow> ant_match (DStar # ps) (x # xs)"
| here: "ps \<noteq> [] \<Longrightarrow> ant_match ps xs \<Longrightarrow> ant_match (DStar # ps) xs"
| anything: "ant_match [DStar] [x]"

inductive_cases ant_match_NilE: "ant_match [] xs"
inductive_cases ant_match_CompE: "ant_match (Comp r # ps) xs"
inductive_cases ant_match_DStarE: "ant_match (DStar # ps) (x # xs)"

inductive_simps ant_match_simps:
  "ant_match [] xs"
  "ant_match (Comp r # ps) []"
  "ant_match (Comp r # ps) (x # xs)"

lemma ant_match_DStar_Nil: "\<not> ant_match [DStar] []"
  by (auto elim: ant_match.cases)

fun no_double :: "comp list \<Rightarrow> bool" where
  "no_double (DStar # DStar # ps) = False"
| "no_double (p # ps) = no_double ps"
| "no_double [] = True"

lemma filtre_one_derives:
  assumes "no_double ps"
  shows "\<exists>qss. filtre_one x ps = Inr qss \<and> (\<forall>qs \<in> set qss. no_double qs) \<and>
    (\<forall>xs. ant_match ps (x # xs) \<longleftrightarrow> (\<exists>qs \<in> set qss. ant_match qs xs))"
proof (cases "(x, ps)" rule: filtre_one.cases)
  case (1 n)
  then show ?thesis by (auto simp: ant_match_simps)
next
  case (2 n)
  then show ?thesis
    by (auto simp: ant_match_simps elim!: ant_match_DStarE intro: ant_match.anything ant_match.deeper)
next
  case (3 n qs)
  then show ?thesis using assms by simp
next
  case (4 n r qs)
  then have "ant_match ps (x # xs) \<longleftrightarrow> ant_match ps xs \<or> comp_matches r x \<and> ant_match qs xs" for xs
    by (auto simp: ant_match_simps elim!: ant_match_DStarE intro: ant_match.deeper ant_match.here ant_match.name)
  then show ?thesis using 4 assms by auto
next
  case (5 n r qs)
  then show ?thesis using assms by (auto simp: ant_match_simps)
qed

lemma filtre_derives:
  assumes "\<forall>ps \<in> set pss. no_double ps"
  shows "\<exists>qss. filtre x pss = Inr qss \<and> (\<forall>qs \<in> set qss. no_double qs) \<and>
    (\<forall>xs. (\<exists>ps \<in> set pss. ant_match ps (x # xs)) \<longleftrightarrow> (\<exists>qs \<in> set qss. ant_match qs xs))"
  using assms
proof (induction pss)
  case (Cons ps pss)
  obtain q1 where q1: "filtre_one x ps = Inr q1" "\<forall>qs \<in> set q1. no_double qs"
    "\<And>xs. ant_match ps (x # xs) \<longleftrightarrow> (\<exists>qs \<in> set q1. ant_match qs xs)"
    using filtre_one_derives [of ps x] Cons.prems by (metis list.set_intros(1))
  have "\<forall>ps \<in> set pss. no_double ps" using Cons.prems by simp
  from Cons.IH [OF this] obtain q2 where q2: "filtre x pss = Inr q2" "\<forall>qs \<in> set q2. no_double qs"
    "\<forall>xs. (\<exists>ps \<in> set pss. ant_match ps (x # xs)) \<longleftrightarrow> (\<exists>qs \<in> set q2. ant_match qs xs)" by blast
  show ?case using q1(1,2) q2(1,2) q1(3) q2(3) by (intro exI [of _ "q1 @ q2"]) auto
qed simp

text \<open>What \<open>ant_iter\<close> does to its patterns on the way down to a path, and the meaning of the patterns: a path is
  wanted when a pattern to include matches it and no pattern to exclude matches it or a folder above it.\<close>

fun accept_path :: "string list \<Rightarrow> pats \<Rightarrow> pats res" where
  "accept_path [] p = Inr p"
| "accept_path (x # xs) p = rbind (accept x p) (accept_path xs)"

definition any_ant :: "comp list list \<Rightarrow> string list \<Rightarrow> bool" where
  "any_ant pss xs \<longleftrightarrow> (\<exists>ps \<in> set pss. ant_match ps xs)"

definition wanted :: "pats \<Rightarrow> string list \<Rightarrow> bool" where
  "wanted p xs \<longleftrightarrow> any_ant (fst p) xs \<and> (\<forall>k. 0 < k \<and> k \<le> length xs \<longrightarrow> \<not> any_ant (snd p) (take k xs))"

definition pats_ok :: "pats \<Rightarrow> bool" where
  "pats_ok p \<longleftrightarrow> (\<forall>ps \<in> set (fst p) \<union> set (snd p). no_double ps)"

lemma any_ant_empty: "any_ant pss [] \<longleftrightarrow> [] \<in> set pss" if "\<forall>ps \<in> set pss. no_double ps" for pss
proof -
  have "ant_match ps xs \<Longrightarrow> xs = [] \<Longrightarrow> no_double ps \<Longrightarrow> ps = []" for ps xs
  proof (induction rule: ant_match.induct)
    case (here ps xs)
    then obtain p qs where p: "ps = p # qs" by (cases ps) auto
    then show ?case using here by (cases p) (auto simp: ant_match_simps)
  qed auto
  then show ?thesis using that ant_match.ended unfolding any_ant_def by metis
qed

lemma accept_derives:
  assumes "pats_ok p"
  shows "\<exists>q. accept x p = Inr q \<and> pats_ok q \<and> (\<forall>xs. wanted p (x # xs) \<longleftrightarrow> wanted q xs)"
proof -
  obtain acc where acc: "filtre x (fst p) = Inr acc" "\<forall>qs \<in> set acc. no_double qs"
    "\<forall>xs. any_ant (fst p) (x # xs) \<longleftrightarrow> any_ant acc xs"
    using filtre_derives [of "fst p" x] assms unfolding pats_ok_def any_ant_def by blast
  obtain rej where rej: "filtre x (snd p) = Inr rej" "\<forall>qs \<in> set rej. no_double qs"
    "\<forall>xs. any_ant (snd p) (x # xs) \<longleftrightarrow> any_ant rej xs"
    using filtre_derives [of "snd p" x] assms unfolding pats_ok_def any_ant_def by blast
  let ?q = "(if [] \<in> set rej then [] else acc, rej)"
  have "wanted p (x # xs) \<longleftrightarrow> wanted ?q xs" for xs
  proof -
    have "(\<forall>k. 0 < k \<and> k \<le> length (x # xs) \<longrightarrow> \<not> any_ant (snd p) (take k (x # xs))) \<longleftrightarrow>
      (\<forall>k. k \<le> length xs \<longrightarrow> \<not> any_ant rej (take k xs))"
    proof (intro iffI allI impI)
      fix k assume a: "\<forall>k. 0 < k \<and> k \<le> length (x # xs) \<longrightarrow> \<not> any_ant (snd p) (take k (x # xs))" "k \<le> length xs"
      show "\<not> any_ant rej (take k xs)" using a(1) [rule_format, of "Suc k"] a(2) rej(3) by simp
    next
      fix k assume a: "\<forall>k. k \<le> length xs \<longrightarrow> \<not> any_ant rej (take k xs)" "0 < k \<and> k \<le> length (x # xs)"
      then obtain j where "k = Suc j" by (cases k) auto
      then show "\<not> any_ant (snd p) (take k (x # xs))" using a rej(3) by simp
    qed
    moreover have "(\<forall>k. k \<le> length xs \<longrightarrow> \<not> any_ant rej (take k xs)) \<longleftrightarrow>
      \<not> any_ant rej [] \<and> (\<forall>k. 0 < k \<and> k \<le> length xs \<longrightarrow> \<not> any_ant rej (take k xs))"
      by (metis le0 not_gr0 take_0)
    ultimately show ?thesis
      using acc(3) any_ant_empty [OF rej(2)] by (auto simp: wanted_def any_ant_def)
  qed
  then show ?thesis using acc(1,2) rej(1,2) by (intro exI [of _ ?q]) (auto simp: accept_def pats_ok_def)
qed

lemma accept_path_derives:
  "pats_ok p \<Longrightarrow> \<exists>q. accept_path xs p = Inr q \<and> pats_ok q \<and> (\<forall>ys. wanted p (xs @ ys) \<longleftrightarrow> wanted q ys)"
proof (induction xs arbitrary: p)
  case (Cons x xs)
  obtain q where q: "accept x p = Inr q" "pats_ok q" "\<forall>xs. wanted p (x # xs) \<longleftrightarrow> wanted q xs"
    using accept_derives [OF Cons.prems, of x] by blast
  then show ?case using Cons.IH [OF q(2)] by auto
qed simp

text \<open>C22: for patterns in which no two components \<open>**\<close> follow each other, reading the names of a path through
  \<open>accept\<close> raises nothing, and the empty pattern is left over exactly when a pattern to include matches the path
  and no pattern to exclude matches the path or one of the folders it goes through.\<close>

theorem patterns_accept_wanted:
  assumes "\<forall>ps \<in> set inc \<union> set exc. no_double ps"
  shows "\<exists>acc rej. accept_path xs (inc, exc) = Inr (acc, rej) \<and>
    ([] \<in> set acc \<longleftrightarrow>
       (\<exists>ps \<in> set inc. ant_match ps xs) \<and>
       (\<forall>k. 0 < k \<and> k \<le> length xs \<longrightarrow> \<not> (\<exists>ps \<in> set exc. ant_match ps (take k xs))))"
proof -
  have "pats_ok (inc, exc)" using assms by (simp add: pats_ok_def)
  from accept_path_derives [OF this, of xs] obtain q where
    q: "accept_path xs (inc, exc) = Inr q" "pats_ok q" "\<forall>ys. wanted (inc, exc) (xs @ ys) \<longleftrightarrow> wanted q ys" by blast
  have "wanted (inc, exc) xs \<longleftrightarrow> wanted q []" using q(3) [rule_format, of "[]"] by simp
  also have "wanted q [] \<longleftrightarrow> [] \<in> set (fst q)"
    using any_ant_empty [of "fst q"] q(2) by (simp add: wanted_def pats_ok_def)
  finally have "[] \<in> set (fst q) \<longleftrightarrow> wanted (inc, exc) xs" by simp
  then show ?thesis using q(1) by (intro exI [of _ "fst q"] exI [of _ "snd q"]) (simp add: wanted_def any_ant_def)
qed

theorem patterns_accept_wanted_witness:
  "\<exists>acc rej. accept_path [''src'', ''node.cc''] ([[DStar, Comp (Seq Bos (comp_rx ''*.cc''))]], []) = Inr (acc, rej) \<and>
     [] \<in> set acc"
proof -
  let ?p = "[DStar, Comp (Seq Bos (comp_rx ''*.cc''))]"
  have "comp_matches (Seq Bos (comp_rx ''*.cc'')) ''node.cc''" by code_simp
  then have "ant_match ?p [''src'', ''node.cc'']"
    by (intro ant_match.deeper ant_match.here ant_match.name ant_match.ended) simp_all
  moreover have "\<forall>ps \<in> set [?p] \<union> set []. no_double ps" by simp
  ultimately show ?thesis using patterns_accept_wanted [of "[?p]" "[]" "[''src'', ''node.cc'']"] by auto
qed

text \<open>A pattern with \<open>**/**\<close> raises \<open>AttributeError\<close> at the first name.\<close>

lemma double_star_raises:
  "to_pat (Text ''**/**/x'') = Inr [ps] \<Longrightarrow> accept name ([ps], []) = Inl AttributeError"
proof -
  assume "to_pat (Text ''**/**/x'') = Inr [ps]"
  moreover have "py_split_ws ''**/**/x'' = [''**/**/x'']" by code_simp
  moreover have "one_pat ''**/**/x'' = Inr [DStar, DStar, Comp (Seq Bos (comp_rx ''x''))]"
  proof -
    have "py_split CHR ''/'' ''**/**/x'' = [''**'', ''**'', ''x'']" by code_simp
    moreover have "re_compile (component_text ''x'') = Some (Seq Bos (comp_rx ''x''))"
      by (rule component_compiles) (simp add: plain_comp_def special_def)
    ultimately show ?thesis by (simp add: one_pat_def py_endswith_def py_startswith_def)
  qed
  ultimately show ?thesis by (auto simp: to_pat_def accept_def)
qed

subsection \<open>What the searches return\<close>

text \<open>Names that \<open>listdir\<close> returns are neither empty nor \<open>.\<close> or \<open>..\<close>, and have no slash.\<close>

definition fs_ok :: "fs \<Rightarrow> bool" where
  "fs_ok f \<longleftrightarrow> (\<forall>p l. fs_listdir f p = Some l \<longrightarrow> list_all plain_name l)"

definition names_ok :: "build \<Rightarrow> bool" where
  "names_ok b \<longleftrightarrow> list_all (\<lambda>(i, l). list_all plain_name l) (cache_dir_contents b)"

definition tidy :: "build \<Rightarrow> build \<Rightarrow> bool" where
  "tidy b b' \<longleftrightarrow> grows b b' \<and> (names_ok b \<longrightarrow> names_ok b')"

lemma tidy_refl: "wf_tree b \<Longrightarrow> tidy b b"
  by (simp add: tidy_def grows_refl)

lemma tidy_trans: "tidy a b \<Longrightarrow> tidy b c \<Longrightarrow> tidy a c"
  using grows_trans by (auto simp: tidy_def)

lemma tidy_same_names: "grows b b' \<Longrightarrow> cache_dir_contents b' = cache_dir_contents b \<Longrightarrow> tidy b b'"
  by (simp add: tidy_def names_ok_def)

lemma update_names:
  "list_all (\<lambda>(i, l). list_all plain_name l) xs \<Longrightarrow> list_all plain_name l \<Longrightarrow>
   list_all (\<lambda>(i, l). list_all plain_name l) (AList.update k l xs)"
  by (induction xs) auto

lemma start_scan_names: "start_scan f n b = (lst, b') \<Longrightarrow> fs_ok f \<Longrightarrow> names_ok b \<Longrightarrow> names_ok b'"
proof -
  assume a: "start_scan f n b = (lst, b')" "fs_ok f" "names_ok b"
  let ?b0 = "b\<lparr>cache_scanned_folders := n_id (nd b n) # cache_scanned_folders b\<rparr>"
  obtain path b1 where b1: "abspath_src n ?b0 = (path, b1)" by fastforce
  then have c: "cache_dir_contents b1 = cache_dir_contents b" using abspath_src_same [of n ?b0] by auto
  have l: "lst = (case fs_listdir f path of None \<Rightarrow> [] | Some l \<Rightarrow> l)"
    "cache_dir_contents b' = AList.update (n_id (nd b1 n)) lst (cache_dir_contents b1)"
    using a(1) b1 by (auto simp: start_scan_def Let_def)
  have "list_all plain_name lst" using a(2) l(1) by (cases "fs_listdir f path") (simp_all add: fs_ok_def)
  then show ?thesis using a(3) l(2) c by (simp add: names_ok_def update_names)
qed

lemma rescan_child_names: "rescan_child f n lst x b = Inr b' \<Longrightarrow> cache_dir_contents b' = cache_dir_contents b"
  using abspath_src_same [of x b]
  by (auto simp: rescan_child_def del_child_def set_node_def split: if_splits option.splits prod.splits)

lemma scan_variants_names: "cache_dir_contents (scan_variants f n names cs b) = cache_dir_contents b"
proof -
  have fg: "cache_dir_contents (fold (forget_build n) ys e) = cache_dir_contents e" for ys e
    by (induction ys arbitrary: e) (simp_all add: forget_build_def del_child_def set_node_def)
  obtain bp c where c: "abspath_src (bldnode b) b = (bp, c)" by fastforce
  obtain d ok where d: "list_variants f cs (\<lambda>v. path_join (bp # v # rev names)) (lst_variants c) c = (d, ok)" by fastforce
  have "cache_dir_contents c = cache_dir_contents b" using abspath_src_same [of "bldnode b" b] c by auto
  then show ?thesis using c d list_variants_nodes [OF d] by (simp add: scan_variants_def Let_def fg)
qed

lemma rescan_tidy:
  assumes "rescan f n b = Inr b'" "wf_tree b" "n < length (b_nodes b)" "fs_ok f"
  shows "tidy b b'"
proof -
  have "names_ok b'" if nb: "names_ok b"
  proof (cases "n_id (nd b n) \<in> set (cache_scanned_folders b)")
    case True
    then show ?thesis using assms(1) nb by (simp add: rescan_def)
  next
    case False
    obtain lst b1 cs b2 names cs' where s: "start_scan f n b = (lst, b1)" "child_nodes b1 n = Inr cs"
      "each (rescan_child f n lst) cs b1 = Inr b2" "child_nodes b2 n = Inr cs'" "b' = scan_variants f n names cs' b2"
      by (rule rescan_steps [OF assms(1) False])
    have "cache_dir_contents b2 = cache_dir_contents b1"
      by (rule each_inv [where I = "\<lambda>s. cache_dir_contents s = cache_dir_contents b1", OF s(3)])
        (auto dest: rescan_child_names)
    then show ?thesis
      using start_scan_names [OF s(1) assms(4) nb] scan_variants_names [of f n names cs' b2] s(5) by (simp add: names_ok_def)
  qed
  then show ?thesis using rescan_grows [OF assms(1-3)] by (simp add: tidy_def)
qed

text \<open>The node that a path of names leads to, starting at a folder.\<close>

fun below :: "build \<Rightarrow> nat \<Rightarrow> string list \<Rightarrow> nat \<Rightarrow> bool" where
  "below b n [] m \<longleftrightarrow> m = n"
| "below b n (x # xs) m \<longleftrightarrow>
     (\<exists>c < length (b_nodes b). n_parent (nd b c) = Some n \<and> n_name (nd b c) = x \<and> below b c xs m)"

lemma below_grows: "below b n xs m \<Longrightarrow> grows b b' \<Longrightarrow> below b' n xs m"
proof (induction xs arbitrary: n)
  case (Cons x xs)
  then obtain c where c: "c < length (b_nodes b)" "n_parent (nd b c) = Some n" "n_name (nd b c) = x" "below b c xs m"
    by auto
  show ?case using Cons.IH [OF c(4) Cons.prems(2)] grows_node [OF Cons.prems(2) c(1)] c(2,3) by auto
qed simp

text \<open>One name, looked for as a file and as a folder.\<close>

lemma split_plain: "plain_name name \<Longrightarrow> split_path name = [name]"
proof -
  have "CHR ''/'' \<notin> set s \<Longrightarrow> py_split CHR ''/'' s = [s]" for s by (induction s) auto
  then show "plain_name name \<Longrightarrow> split_path name = [name]" by (simp add: split_path_def plain_name_def)
qed

definition child_ok :: "build \<Rightarrow> nat \<Rightarrow> string \<Rightarrow> nat set \<Rightarrow> nat option \<times> build \<Rightarrow> bool" where
  "child_ok b n name tps x \<longleftrightarrow> tidy b (snd x) \<and>
     (\<forall>m. fst x = Some m \<longrightarrow> m < length (b_nodes (snd x)) \<and> get_type (snd x) m \<in> tps \<and> below (snd x) n [name] m)"

lemma child_ok_trans: "tidy a b \<Longrightarrow> child_ok b n name tps x \<Longrightarrow> child_ok a n name tps x"
  using tidy_trans by (auto simp: child_ok_def)

lemma get_child_ok:
  assumes "get_child b n name = Inr (Some m)" "wf_tree b" "n < length (b_nodes b)" "get_type b m \<in> tps"
  shows "child_ok b n name tps (Some m, b)"
  using get_child_Some [OF assms(1-3)] assms(4) tidy_refl [OF assms(2)] by (simp add: child_ok_def)

lemma new_node_ok:
  assumes "new_node name (Some n) tp b = Inr (m, b')" "wf_tree b" "n < length (b_nodes b)" "tp < 4" "tp \<in> tps"
  shows "child_ok b n name tps (Some m, b')"
  using new_node_grows [OF assms(1-4)] assms(5) tidy_same_names by (simp add: child_ok_def)

lemma no_child_ok: "tidy b b' \<Longrightarrow> child_ok b n name tps (None, b')"
  by (simp add: child_ok_def)

lemma find_resource_child:
  assumes "find_resource f [name] n b = Inr x" "wf_tree b" "n < length (b_nodes b)" "fs_ok f"
  shows "child_ok b n name {FILE, BUILD} x"
proof -
  obtain c where c: "rescan f n b = Inr c" using assms(1) by (auto simp: find_resource_def find_parent_def)
  have t: "tidy b c" by (rule rescan_tidy [OF c assms(2-4)])
  then have g: "grows b c" by (simp add: tidy_def)
  note w = grows_wf [OF g] and l = grows_node(1) [OF g assms(3)]
  obtain r where r: "get_child c n name = Inr r" using assms(1) c by (auto simp: find_resource_def find_parent_def)
  have "child_ok c n name {FILE, BUILD} x"
  proof (cases r)
    case (Some k)
    then have "x = (if get_type c k = FILE \<or> get_type c k = BUILD then Some k else None, c)"
      using assms(1) c r by (simp add: find_resource_def find_parent_def)
    then show ?thesis
      using get_child_ok [OF r [unfolded Some] w l, of "{FILE, BUILD}"] no_child_ok [OF tidy_refl [OF w]] by auto
  next
    case None
    obtain ls where ls: "map_of (cache_dir_contents c) (n_id (nd c n)) = Some ls"
      using assms(1) c r None by (auto simp: find_resource_def find_parent_def split: option.splits)
    obtain pp d where d: "abspath_src n c = (pp, d)" by fastforce
    note a = abspath_src_grows [OF d w]
    have td: "tidy c d" by (rule tidy_same_names [OF a(1,4)])
    have e: "Inr x = (if name \<notin> set ls then Inr (None, c)
        else case fs_hash f (pp @ ''/'' @ name) of
               None \<Rightarrow> Inr (None, d)
             | Some h \<Rightarrow> rbind (new_node name (Some n) FILE d) (\<lambda>(m, b). Inr (Some m, set_sig Source (n_id (nd b m)) (Some h) b)))"
      using assms(1) c r None ls d by (cases "name \<in> set ls") (simp_all add: find_resource_def find_parent_def)
    show ?thesis
    proof (cases "name \<in> set ls \<and> fs_hash f (pp @ ''/'' @ name) \<noteq> None")
      case True
      then obtain h k q where k: "new_node name (Some n) FILE d = Inr (k, q)"
        "x = (Some k, set_sig Source (n_id (nd q k)) (Some h) q)"
        using e by (auto simp: rbind_def split: sum.splits)
      have "child_ok d n name {FILE, BUILD} (Some k, q)"
        by (rule new_node_ok [OF k(1) grows_wf [OF a(1)] grows_node(1) [OF a(1) l]]) simp_all
      then have q: "tidy d q" "k < length (b_nodes q)" "get_type q k \<in> {FILE, BUILD}" "below q n [name] k"
        by (auto simp: child_ok_def)
      have "grows q (snd x)" unfolding k(2) using q(1) grows_wf by (auto simp: tidy_def intro: grows_set_sig)
      then have s: "tidy q (snd x)" "grows q (snd x)" using k(2) by (simp_all add: tidy_same_names)
      have "child_ok d n name {FILE, BUILD} x"
        using tidy_trans [OF q(1) s(1)] grows_node [OF s(2) q(2)] below_grows [OF q(4) s(2)] q(3) k(2)
        by (simp add: child_ok_def)
      then show ?thesis by (rule child_ok_trans [OF td])
    next
      case False
      then have "x = (None, c) \<or> x = (None, d)" using e by (auto split: if_splits option.splits)
      then show ?thesis using no_child_ok [OF td] no_child_ok [OF tidy_refl [OF w]] by auto
    qed
  qed
  then show ?thesis by (rule child_ok_trans [OF t])
qed

lemma find_dir_new_child:
  assumes "find_dir_new f name n b = Inr x" "wf_tree b" "n < length (b_nodes b)"
  shows "child_ok b n name {DIR} x"
proof -
  have create: "child_ok c n name {DIR} x"
    if a: "rbind (new_node name (Some n) DIR c) (\<lambda>(m, b). Inr (Some m, b)) = Inr x" "wf_tree c" "n < length (b_nodes c)" for c
  proof -
    obtain m d where "new_node name (Some n) DIR c = Inr (m, d)" "x = (Some m, d)" using a(1) by auto
    then show ?thesis using new_node_ok [OF _ a(2,3)] by simp
  qed
  obtain dirname c where c: "(if n_name (nd b n) = [] then (''/'' @ name, b)
      else (case abspath_src n b of (p, b) \<Rightarrow> (p @ ''/'' @ name, b))) = (dirname, c)" by fastforce
  have t: "tidy b c"
  proof (cases "n_name (nd b n) = []")
    case True
    then show ?thesis using c tidy_refl [OF assms(2)] by simp
  next
    case False
    obtain p d where d: "abspath_src n b = (p, d)" by fastforce
    then have "c = d" using c False by simp
    then show ?thesis using abspath_src_grows(1,4) [OF d assms(2)] by (simp add: tidy_same_names)
  qed
  then have g: "grows b c" by (simp add: tidy_def)
  have gc: "child_ok c n name {DIR} y \<Longrightarrow> child_ok b n name {DIR} y" for y by (rule child_ok_trans [OF t])
  show ?thesis
    using assms(1) c gc [OF create [OF _ grows_wf [OF g] grows_node(1) [OF g assms(3)]]] gc [OF no_child_ok [OF tidy_refl [OF grows_wf [OF g]]]]
      create [OF _ assms(2,3)] no_child_ok [OF tidy_refl [OF assms(2)]]
    unfolding find_dir_new_def Let_def by (simp split: if_splits)
qed

lemma find_dir_child:
  assumes "find_dir f [name] n b = Inr x" "wf_tree b" "n < length (b_nodes b)" "fs_ok f" "plain_name name"
    "n_name (nd b (root b)) = []"
  shows "child_ok b n name {DIR} x"
proof -
  have s: "find_dir_step f name n b = Inr x" using assms(1) by (auto split: option.splits)
  obtain c where c: "rescan f n b = Inr c" using s by (auto simp: find_dir_step_def)
  have t: "tidy b c" by (rule rescan_tidy [OF c assms(2-4)])
  then have g: "grows b c" by (simp add: tidy_def)
  note w = grows_wf [OF g] and l = grows_node [OF g assms(3)]
  have "child_ok c n name {DIR} x"
  proof -
    have "n_parent (nd b n) = None \<Longrightarrow> n_name (nd b n) = []" using wf_root(1) [OF assms(2,3)] assms(6) by simp
    then have False: "\<not> (n_parent (nd c n) = None \<and> name = n_name (nd c n))"
      using l(3,4) assms(5) by (auto simp: plain_name_def)
    have p: "name \<noteq> []" "name \<noteq> ''.''" "name \<noteq> ''..''" using assms(5) by (auto simp: plain_name_def)
    obtain r where r: "get_child c n name = Inr r" using s c False p by (auto simp: find_dir_step_def)
    show ?thesis
    proof (cases r)
      case None
      then show ?thesis using s c False p r find_dir_new_child [OF _ w l(1)] by (simp add: find_dir_step_def)
    next
      case (Some m)
      then have "x = (if get_type c m \<noteq> DIR then None else Some m, c)" using s c False p r by (simp add: find_dir_step_def)
      then show ?thesis
        using get_child_ok [OF r [unfolded Some] w l(1), of "{DIR}"] no_child_ok [OF tidy_refl [OF w]] by auto
    qed
  qed
  then show ?thesis by (rule child_ok_trans [OF t])
qed

text \<open>The states in which a folder is searched, and what a search promises: the tree grows only, and every node
  returned is reached from the folder along names that satisfy \<open>Q\<close>, together with its type.\<close>

definition ready :: "build \<Rightarrow> nat \<Rightarrow> bool" where
  "ready b n \<longleftrightarrow> wf_tree b \<and> names_ok b \<and> n_name (nd b (root b)) = [] \<and> n < length (b_nodes b) \<and> get_type b n = DIR"

definition found_ok :: "build \<Rightarrow> nat \<Rightarrow> (string list \<Rightarrow> nat \<Rightarrow> bool) \<Rightarrow> nat list \<times> build \<Rightarrow> bool" where
  "found_ok b n Q x \<longleftrightarrow> tidy b (snd x) \<and>
     (\<forall>m \<in> set (fst x). m < length (b_nodes (snd x)) \<and> (\<exists>xs. below (snd x) n xs m \<and> Q xs (get_type (snd x) m)))"

lemma ready_tidy: "ready b n \<Longrightarrow> tidy b c \<Longrightarrow> ready c n"
proof -
  assume a: "ready b n" "tidy b c"
  then have g: "grows b c" "root b < length (b_nodes b)" by (auto simp: ready_def tidy_def wf_tree_def)
  have "root c = root b" using g(1) by (simp add: grows_def)
  then show ?thesis
    using a grows_node [OF g(1), of n] grows_node(3) [OF g] grows_wf [OF g(1)] by (simp add: ready_def tidy_def)
qed

lemma found_none: "tidy b c \<Longrightarrow> found_ok b n Q ([], c)"
  by (simp add: found_ok_def)

lemma found_trans: "tidy b c \<Longrightarrow> found_ok c n Q x \<Longrightarrow> found_ok b n Q x"
  using tidy_trans by (auto simp: found_ok_def)

lemma found_grows:
  assumes "found_ok b n Q (ms, c)" "tidy c d"
  shows "found_ok b n Q (ms, d)"
proof -
  have g: "grows c d" using assms(2) by (simp add: tidy_def)
  have "m < length (b_nodes d) \<and> (\<exists>xs. below d n xs m \<and> Q xs (get_type d m))" if "m \<in> set ms" for m
    using assms(1) that grows_node [OF g, of m] below_grows [OF _ g] by (fastforce simp: found_ok_def)
  then show ?thesis using tidy_trans [OF _ assms(2)] assms(1) by (simp add: found_ok_def)
qed

lemma found_append:
  assumes "found_ok b n Q (ms, c)" "found_ok c n Q (ks, d)"
  shows "found_ok b n Q (ms @ ks, d)"
proof -
  have t: "tidy b c" "tidy c d" using assms by (simp_all add: found_ok_def)
  show ?thesis
    using found_grows [OF assms(1) t(2)] found_trans [OF t(1) assms(2)] by (auto simp: found_ok_def)
qed

lemma collect_found:
  assumes "collect g xs b = Inr x" "wf_tree b"
    "\<And>y c z. y \<in> set xs \<Longrightarrow> tidy b c \<Longrightarrow> g y c = Inr z \<Longrightarrow> found_ok c n Q z"
  shows "found_ok b n Q x"
  using assms
proof (induction xs arbitrary: b x)
  case Nil
  then show ?case using found_none [OF tidy_refl [OF Nil.prems(2)]] by auto
next
  case (Cons y xs)
  obtain ys c zs d where s: "g y b = Inr (ys, c)" "collect g xs c = Inr (zs, d)" "x = (ys @ zs, d)"
    using Cons.prems(1) by auto
  have y: "found_ok b n Q (ys, c)" using Cons.prems(3) [of y b] tidy_refl [OF Cons.prems(2)] s(1) by simp
  then have t: "tidy b c" by (simp add: found_ok_def)
  then have w: "wf_tree c" by (auto simp: tidy_def intro: grows_wf)
  have "found_ok c n Q (zs, d)"
  proof (rule Cons.IH [OF s(2) w])
    fix v e z assume "v \<in> set xs" "tidy c e" "g v e = Inr z"
    then show "found_ok e n Q z" using Cons.prems(3) [of v e z] tidy_trans [OF t] by simp
  qed
  then show ?case using found_append [OF y] s(3) by simp
qed

text \<open>A node found for a name, and what a search below it finds.\<close>

lemma found_here:
  assumes "child_ok b n name tps (Some m, c)" "Q [name] (get_type c m)"
  shows "found_ok b n Q ([m], c)"
proof -
  have "below c n [name] m" using assms(1) by (simp add: child_ok_def)
  then have "\<exists>xs. below c n xs m \<and> Q xs (get_type c m)" using assms(2) by blast
  then show ?thesis using assms(1) by (simp add: child_ok_def found_ok_def)
qed

lemma found_deeper:
  assumes "child_ok b n name tps (Some m, c)" "found_ok c m P x" "\<And>xs t. P xs t \<Longrightarrow> Q (name # xs) t"
  shows "found_ok b n Q x"
proof -
  have t: "tidy b c" "tidy c (snd x)" using assms(1,2) by (simp_all add: child_ok_def found_ok_def)
  have m: "m < length (b_nodes c)" "n_parent (nd c m) = Some n" "n_name (nd c m) = name"
    using assms(1) by (auto simp: child_ok_def)
  then have d: "m < length (b_nodes (snd x))" "n_parent (nd (snd x) m) = Some n" "n_name (nd (snd x) m) = name"
    using grows_node [of c "snd x" m] t(2) by (simp_all add: tidy_def)
  have "k < length (b_nodes (snd x)) \<and> (\<exists>xs. below (snd x) n xs k \<and> Q xs (get_type (snd x) k))" if k: "k \<in> set (fst x)" for k
  proof -
    obtain xs where "k < length (b_nodes (snd x))" "below (snd x) m xs k" "P xs (get_type (snd x) k)"
      using assms(2) k by (auto simp: found_ok_def)
    then show ?thesis using d assms(3) by (intro conjI exI [of _ "name # xs"]) auto
  qed
  then show ?thesis using tidy_trans [OF t] by (simp add: found_ok_def)
qed

text \<open>A search in levels: \<open>level\<close> searches one folder with a search for the folders below. What one level promises on
  top of the search below it holds for the whole search, with one more name for each level.\<close>

locale folder_search =
  fixes level :: "'p search \<Rightarrow> 'p search"
    and search :: "nat \<Rightarrow> 'p search"
    and admissible :: "'p \<Rightarrow> bool"
    and hit :: "'p \<Rightarrow> string list \<Rightarrow> nat \<Rightarrow> bool"
  assumes search_0: "search 0 = level (\<lambda>p n b. Inr ([], b))"
    and search_Suc: "search (Suc d) = level (search d)"
    and level_sound: "(\<And>q m c z. sub q m c = Inr z \<Longrightarrow> admissible q \<Longrightarrow> ready c m \<Longrightarrow>
        found_ok c m (\<lambda>xs t. hit q xs t \<and> length xs \<le> d) z) \<Longrightarrow>
      level sub p n b = Inr x \<Longrightarrow> admissible p \<Longrightarrow> ready b n \<Longrightarrow>
      found_ok b n (\<lambda>xs t. hit p xs t \<and> length xs \<le> Suc d) x"
begin

lemma search_sound:
  "search d p n b = Inr x \<Longrightarrow> admissible p \<Longrightarrow> ready b n \<Longrightarrow>
     found_ok b n (\<lambda>xs t. hit p xs t \<and> length xs \<le> Suc d) x"
proof (induction d arbitrary: p n b x)
  case 0
  have "found_ok c m (\<lambda>xs t. hit q xs t \<and> length xs \<le> 0) z" if "Inr ([], c) = Inr z" "ready c m" for q m c z
    using that found_none [OF tidy_refl] by (auto simp: ready_def)
  then show ?case using level_sound [of "\<lambda>p n b. Inr ([], b)" 0] 0 search_0 by simp
next
  case (Suc d)
  then show ?case using level_sound [of "search d" "Suc d"] search_Suc by simp
qed

end

text \<open>Both searches treat the listed names and the nodes of the build folder in the same way.\<close>

lemma listing_plain: "listing n b = Inr l \<Longrightarrow> names_ok b \<Longrightarrow> x \<in> set l \<Longrightarrow> plain_name x"
  by (fastforce simp: listing_def names_ok_def list_all_iff dest: map_of_SomeD split: option.splits)

lemma child_nodes_child:
  assumes "child_nodes b n = Inr cs" "m \<in> set cs" "wf_tree b" "n < length (b_nodes b)"
  shows "child_ok b n (n_name (nd b m)) UNIV (Some m, b)"
proof -
  obtain ch where ch: "n_childs (nd b n) = Some ch" "cs = map snd ch"
    using assms(1) by (auto simp: child_nodes_def split: option.splits)
  then obtain k where "(k, m) \<in> set ch" using assms(2) by auto
  from wf_childs(2) [OF assms(3,4) ch(1) this] show ?thesis using tidy_refl [OF assms(3)] by (simp add: child_ok_def)
qed

lemma level_found:
  assumes "rbind (rescan f n b) (\<lambda>b. rbind (listing n b) (\<lambda>l. rbind (collect g l b) (\<lambda>(ms, b).
      if built then rbind (child_nodes b n) (\<lambda>cs. rbind (collect h cs b) (\<lambda>(ks, b). Inr (ms @ ks, b)))
      else Inr (ms, b)))) = Inr x"
    "ready b n" "fs_ok f"
    "\<And>y c z. plain_name y \<Longrightarrow> ready c n \<Longrightarrow> g y c = Inr z \<Longrightarrow> found_ok c n Q z"
    "\<And>m c z. built \<Longrightarrow> ready c n \<Longrightarrow> child_ok c n (n_name (nd c m)) UNIV (Some m, c) \<Longrightarrow> h m c = Inr z \<Longrightarrow>
      found_ok c n Q z"
    "\<And>m c z. h m c = Inr z \<Longrightarrow> snd z = c"
  shows "found_ok b n Q x"
proof -
  obtain b1 l ms b2 where s: "rescan f n b = Inr b1" "listing n b1 = Inr l" "collect g l b1 = Inr (ms, b2)"
    "(if built then rbind (child_nodes b2 n) (\<lambda>cs. rbind (collect h cs b2) (\<lambda>(ks, b). Inr (ms @ ks, b))) else Inr (ms, b2)) = Inr x"
    using assms(1) by auto
  have t1: "tidy b b1" using rescan_tidy [OF s(1)] assms(2,3) by (simp add: ready_def)
  have r1: "ready b1 n" by (rule ready_tidy [OF assms(2) t1])
  have "found_ok b1 n Q (ms, b2)"
  proof (rule collect_found [OF s(3)])
    show "wf_tree b1" using r1 by (simp add: ready_def)
    fix y c z assume y: "y \<in> set l" "tidy b1 c" "g y c = Inr z"
    have "plain_name y" using listing_plain [OF s(2) _ y(1)] r1 by (simp add: ready_def)
    then show "found_ok c n Q z" by (rule assms(4) [OF _ ready_tidy [OF r1 y(2)] y(3)])
  qed
  then have ms: "found_ok b n Q (ms, b2)" by (rule found_trans [OF t1])
  show ?thesis
  proof (cases built)
    case False
    then show ?thesis using ms s(4) by simp
  next
    case True
    obtain cs ks b3 where c: "child_nodes b2 n = Inr cs" "collect h cs b2 = Inr (ks, b3)" "x = (ms @ ks, b3)"
      using s(4) True by auto
    have r2: "ready b2 n" using ready_tidy [OF assms(2)] ms by (simp add: found_ok_def)
    have keep: "collect h ys d = Inr (zs, e) \<Longrightarrow> (\<And>m. m \<in> set ys \<Longrightarrow> child_ok d n (n_name (nd d m)) UNIV (Some m, d)) \<Longrightarrow>
      ready d n \<Longrightarrow> found_ok d n Q (zs, e)" for ys zs d e
    proof (induction ys arbitrary: zs)
      case Nil
      then show ?case using found_none [OF tidy_refl] by (auto simp: ready_def)
    next
      case (Cons y ys)
      obtain us c' vs where u: "h y d = Inr (us, c')" "collect h ys c' = Inr (vs, e)" "zs = us @ vs" using Cons.prems(1) by auto
      have "c' = d" using assms(6) [OF u(1)] by simp
      then have "found_ok d n Q (us, d)" "found_ok d n Q (vs, e)"
        using assms(5) [OF True Cons.prems(3) Cons.prems(2) [of y]] u(1) Cons.IH [of vs] u(2) Cons.prems(2,3) by auto
      then show ?case using found_append u(3) by simp
    qed
    have "found_ok b2 n Q (ks, b3)"
    proof (rule keep [OF c(2) _ r2])
      fix m assume "m \<in> set cs"
      then show "child_ok b2 n (n_name (nd b2 m)) UNIV (Some m, b2)"
        using child_nodes_child [OF c(1)] r2 by (simp add: ready_def)
    qed
    then show ?thesis using found_append [OF ms] c(3) by simp
  qed
qed

lemma folder_found:
  assumes "rbind (find_dir f (split_path name) n b) (\<lambda>(r, b). case r of None \<Rightarrow> Inr ([], b) | Some m \<Rightarrow> g m b) = Inr x"
    "plain_name name" "ready b n" "fs_ok f"
    "\<And>m c. child_ok b n name {DIR} (Some m, c) \<Longrightarrow> ready c m \<Longrightarrow> g m c = Inr x \<Longrightarrow> found_ok b n Q x"
  shows "found_ok b n Q x"
proof -
  obtain r c where c: "find_dir f [name] n b = Inr (r, c)"
    "(case r of None \<Rightarrow> Inr ([], c) | Some m \<Rightarrow> g m c) = Inr x" using assms(1) split_plain [OF assms(2)] by auto
  have k: "child_ok b n name {DIR} (r, c)"
    by (rule find_dir_child [OF c(1)]) (use assms(2-4) in \<open>simp_all add: ready_def\<close>)
  show ?thesis
  proof (cases r)
    case None
    then show ?thesis using c(2) k found_none by (auto simp: child_ok_def)
  next
    case (Some m)
    then have m: "tidy b c" "m < length (b_nodes c)" "get_type c m = DIR" using k by (auto simp: child_ok_def)
    have "ready c m" using ready_tidy [OF assms(3) m(1)] m(2,3) by (simp add: ready_def)
    then show ?thesis using assms(5) [of m c] k c(2) Some by simp
  qed
qed

definition asked :: "bool \<Rightarrow> bool \<Rightarrow> bool \<Rightarrow> nat \<Rightarrow> bool" where
  "asked src bld folders t \<longleftrightarrow> src \<and> t = FILE \<or> bld \<and> t = BUILD \<or> folders \<and> t = DIR"

definition ant_hit :: "glob_kw \<Rightarrow> pats \<Rightarrow> string list \<Rightarrow> nat \<Rightarrow> bool" where
  "ant_hit kw p xs t \<longleftrightarrow> xs \<noteq> [] \<and> wanted p xs \<and> asked (kw_src kw) (kw_bld kw) (kw_dir kw) t"

lemma emptied_wanted: "pats_ok q \<Longrightarrow> emptied (fst q) \<longleftrightarrow> wanted q []"
  using any_ant_empty [of "fst q"] by (simp add: wanted_def pats_ok_def)

lemma ant_folder_found:
  assumes "ant_folder f kw sub q n name b = Inr x" "plain_name name" "ready b n" "fs_ok f" "pats_ok q"
    "\<And>xs. wanted p (name # xs) \<longleftrightarrow> wanted q xs"
    "\<And>q m c z. sub q m c = Inr z \<Longrightarrow> pats_ok q \<Longrightarrow> ready c m \<Longrightarrow>
       found_ok c m (\<lambda>xs t. ant_hit kw q xs t \<and> length xs \<le> d) z"
  shows "found_ok b n (\<lambda>xs t. ant_hit kw p xs t \<and> length xs \<le> Suc d) x" (is "found_ok b n ?Q x")
proof (rule folder_found [OF assms(1) [unfolded ant_folder_def] assms(2-4)])
  fix m c assume k: "child_ok b n name {DIR} (Some m, c)" "ready c m"
    and g: "(if n_id (nd c m) = n_id (nd c (bldnode c)) then Inr ([], c)
       else rbind (sub q m c) (\<lambda>(ms, b'). Inr ((if emptied (fst q) \<and> kw_dir kw then [m] else []) @ ms, b'))) = Inr x"
  have t: "tidy b c" "get_type c m = DIR" using k by (auto simp: child_ok_def)
  show "found_ok b n ?Q x"
  proof (cases "n_id (nd c m) = n_id (nd c (bldnode c))")
    case True
    then show ?thesis using g found_none [OF t(1)] by auto
  next
    case False
    obtain ms e where s: "sub q m c = Inr (ms, e)" "x = ((if emptied (fst q) \<and> kw_dir kw then [m] else []) @ ms, e)"
      using g False by auto
    have f: "found_ok c m (\<lambda>xs t. ant_hit kw q xs t \<and> length xs \<le> d) (ms, e)" by (rule assms(7) [OF s(1) assms(5) k(2)])
    have ms: "found_ok b n ?Q (ms, e)"
      by (rule found_deeper [OF k(1) f]) (use assms(6) in \<open>auto simp: ant_hit_def\<close>)
    show ?thesis
    proof (cases "emptied (fst q) \<and> kw_dir kw")
      case True
      then have "wanted p [name]" using emptied_wanted [OF assms(5)] assms(6) [of "[]"] by simp
      then have "found_ok b n ?Q ([m], c)"
        by (intro found_here [OF k(1)]) (use True t(2) in \<open>simp add: ant_hit_def asked_def\<close>)
      moreover have "tidy c e" using f by (simp add: found_ok_def)
      ultimately have "found_ok b n ?Q ([m], e)" by (rule found_grows)
      then show ?thesis using ms s(2) True by (auto simp: found_ok_def)
    next
      case False
      then have "x = (ms, e)" using s(2) by auto
      then show ?thesis using ms by simp
    qed
  qed
qed

lemma ant_name_found:
  assumes "ant_name f kw sub p n name b = Inr x" "plain_name name" "ready b n" "fs_ok f" "pats_ok p"
    "\<And>q m c z. sub q m c = Inr z \<Longrightarrow> pats_ok q \<Longrightarrow> ready c m \<Longrightarrow>
       found_ok c m (\<lambda>xs t. ant_hit kw q xs t \<and> length xs \<le> d) z"
  shows "found_ok b n (\<lambda>xs t. ant_hit kw p xs t \<and> length xs \<le> Suc d) x" (is "found_ok b n ?Q x")
proof -
  obtain q where q: "accept name p = Inr q" "pats_ok q" "\<forall>xs. wanted p (name # xs) \<longleftrightarrow> wanted q xs"
    using accept_derives [OF assms(5)] by blast
  have w: "wf_tree b" "n < length (b_nodes b)" using assms(3) by (simp_all add: ready_def)
  show ?thesis
  proof (cases "fst q")
    case Nil
    then show ?thesis using assms(1) q(1) found_none [OF tidy_refl [OF w(1)]] by (auto simp: ant_name_def)
  next
    case (Cons q1 qs)
    obtain r c where r: "find_resource f [name] n b = Inr (r, c)"
      "(case r of None \<Rightarrow> ant_folder f kw sub q n name c
        | Some m \<Rightarrow> if emptied (fst q) then Inr (if kw_src kw \<and> get_type c m = FILE then [m] else [], c)
            else ant_folder f kw sub q n name c) = Inr x"
      using assms(1) q(1) Cons split_plain [OF assms(2)] by (auto simp: ant_name_def)
    have k: "child_ok b n name {FILE, BUILD} (r, c)" by (rule find_resource_child [OF r(1) w assms(4)])
    then have t: "tidy b c" by (simp add: child_ok_def)
    show ?thesis
    proof (cases "r \<noteq> None \<and> emptied (fst q)")
      case True
      then obtain m where m: "r = Some m" by auto
      then have x: "x = (if kw_src kw \<and> get_type c m = FILE then [m] else [], c)" using r(2) True by auto
      have "wanted p [name]" using True emptied_wanted [OF q(2)] q(3) by simp
      then have "kw_src kw \<and> get_type c m = FILE \<Longrightarrow> found_ok b n ?Q ([m], c)"
        by (intro found_here [OF k [unfolded m]]) (simp add: ant_hit_def asked_def)
      then show ?thesis using x found_none [OF t] by auto
    next
      case False
      then have fo: "ant_folder f kw sub q n name c = Inr x" using r(2) by (auto split: option.splits)
      have "found_ok c n ?Q x"
        by (rule ant_folder_found [OF fo assms(2) ready_tidy [OF assms(3) t] assms(4) q(2) _ assms(6)]) (use q(3) in auto)
      then show ?thesis by (rule found_trans [OF t])
    qed
  qed
qed

lemma ant_level_sound:
  assumes "\<And>q m c z. sub q m c = Inr z \<Longrightarrow> pats_ok q \<Longrightarrow> ready c m \<Longrightarrow>
       found_ok c m (\<lambda>xs t. ant_hit kw q xs t \<and> length xs \<le> d) z"
    "ant_level f kw sub p n b = Inr x" "pats_ok p" "ready b n" "fs_ok f"
  shows "found_ok b n (\<lambda>xs t. ant_hit kw p xs t \<and> length xs \<le> Suc d) x" (is "found_ok b n ?Q x")
proof (rule level_found [OF assms(2) [unfolded ant_level_def] assms(4,5)])
  fix y c z assume "plain_name y" "ready c n" "ant_name f kw sub p n y c = Inr z"
  then show "found_ok c n ?Q z" using ant_name_found [OF _ _ _ assms(5,3,1)] by blast
next
  fix m c z assume a: "kw_bld kw" "ready c n" "child_ok c n (n_name (nd c m)) UNIV (Some m, c)" "ant_built p m c = Inr z"
  obtain q where q: "accept (n_name (nd c m)) p = Inr q" "pats_ok q" "\<forall>xs. wanted p (n_name (nd c m) # xs) \<longleftrightarrow> wanted q xs"
    using accept_derives [OF assms(3)] by blast
  show "found_ok c n ?Q z"
  proof (cases "get_type c m = BUILD \<and> emptied (fst q) \<and> z = ([m], c)")
    case True
    have "wanted p [n_name (nd c m)]" using True emptied_wanted [OF q(2)] q(3) by simp
    then have "found_ok c n ?Q ([m], c)"
      by (intro found_here [OF a(3)]) (use True a(1) in \<open>simp add: ant_hit_def asked_def\<close>)
    then show ?thesis using True by simp
  next
    case False
    then have "z = ([], c)" using a(4) q(1) by (auto simp: ant_built_def split: if_splits)
    then show ?thesis using found_none tidy_refl a(2) by (auto simp: ready_def)
  qed
next
  fix m c z assume "ant_built p m c = Inr z"
  then show "snd z = c" by (auto simp: ant_built_def split: if_splits)
qed

interpretation ant: folder_search "ant_level f kw" "ant_iter f kw" "\<lambda>p. pats_ok p \<and> fs_ok f" "ant_hit kw" for f kw
proof (unfold_locales, goal_cases)
  case (3 sub d p n b x)
  show ?case by (rule ant_level_sound [OF _ 3(2)]) (use 3 in auto)
qed simp_all

definition iter_hit :: "iter_args \<Rightarrow> string list \<Rightarrow> nat \<Rightarrow> bool" where
  "iter_hit a xs t \<longleftrightarrow> xs \<noteq> [] \<and> accept_name a (last xs) = Inr True \<and>
     (\<forall>y \<in> set (butlast xs). is_prune a y = Inr False) \<and> asked (it_src a) (it_bld a) (it_dir a) t"

lemma iter_folder_found:
  assumes "iter_folder f a sub acc n name b = Inr x" "plain_name name" "ready b n" "fs_ok f"
    "accept_name a name = Inr acc" "\<not> acc \<Longrightarrow> is_prune a name = Inr False"
    "\<And>m c z. sub () m c = Inr z \<Longrightarrow> ready c m \<Longrightarrow> found_ok c m (\<lambda>xs t. iter_hit a xs t \<and> length xs \<le> d) z"
  shows "found_ok b n (\<lambda>xs t. iter_hit a xs t \<and> length xs \<le> Suc d) x" (is "found_ok b n ?Q x")
proof (rule folder_found [OF assms(1) [unfolded iter_folder_def] assms(2-4)])
  fix m c assume k: "child_ok b n name {DIR} (Some m, c)" "ready c m"
    and g: "(if n_id (nd c m) = n_id (nd c (bldnode c)) then Inr ([], c)
       else rbind (if acc then is_prune a name else Inr False) (\<lambda>p.
         rbind (if p then Inr ([], c) else sub () m c) (\<lambda>(ms, b'). Inr ((if acc \<and> it_dir a then [m] else []) @ ms, b')))) = Inr x"
  have t: "tidy b c" "get_type c m = DIR" using k by (auto simp: child_ok_def)
  show "found_ok b n ?Q x"
  proof (cases "n_id (nd c m) = n_id (nd c (bldnode c))")
    case True
    then show ?thesis using g found_none [OF t(1)] by auto
  next
    case False
    obtain p ms e where s: "(if acc then is_prune a name else Inr False) = Inr p"
      "(if p then Inr ([], c) else sub () m c) = Inr (ms, e)" "x = ((if acc \<and> it_dir a then [m] else []) @ ms, e)"
      using g False by auto
    have ms: "found_ok b n ?Q (ms, e) \<and> tidy c e"
    proof (cases p)
      case True
      then have "ms = [] \<and> e = c" using s(2) by simp
      then show ?thesis using found_none [OF t(1)] tidy_refl k(2) by (simp add: ready_def)
    next
      case False
      have pr: "is_prune a name = Inr False" using s(1) False assms(6) by (cases acc) auto
      have f: "found_ok c m (\<lambda>xs t. iter_hit a xs t \<and> length xs \<le> d) (ms, e)"
        by (rule assms(7) [OF _ k(2)]) (use s(2) False in simp)
      have "found_ok b n ?Q (ms, e)"
        by (rule found_deeper [OF k(1) f]) (use pr in \<open>auto simp: iter_hit_def\<close>)
      then show ?thesis using f by (simp add: found_ok_def)
    qed
    show ?thesis
    proof (cases "acc \<and> it_dir a")
      case True
      then have "found_ok b n ?Q ([m], c)"
        by (intro found_here [OF k(1)]) (use t(2) assms(5) in \<open>simp add: iter_hit_def asked_def\<close>)
      then have "found_ok b n ?Q ([m], e)" using ms found_grows by blast
      then show ?thesis using ms s(3) True by (auto simp: found_ok_def)
    next
      case False
      then have "x = (ms, e)" using s(3) by auto
      then show ?thesis using ms by simp
    qed
  qed
qed

lemma iter_name_found:
  assumes "iter_name f a sub n name b = Inr x" "plain_name name" "ready b n" "fs_ok f"
    "\<And>m c z. sub () m c = Inr z \<Longrightarrow> ready c m \<Longrightarrow> found_ok c m (\<lambda>xs t. iter_hit a xs t \<and> length xs \<le> d) z"
  shows "found_ok b n (\<lambda>xs t. iter_hit a xs t \<and> length xs \<le> Suc d) x" (is "found_ok b n ?Q x")
proof -
  have w: "wf_tree b" "n < length (b_nodes b)" using assms(3) by (simp_all add: ready_def)
  obtain acc p where p: "accept_name a name = Inr acc" "(if acc then Inr False else is_prune a name) = Inr p"
    using assms(1) by (auto simp: iter_name_def)
  show ?thesis
  proof (cases p)
    case True
    then show ?thesis using assms(1) p found_none [OF tidy_refl [OF w(1)]] by (auto simp: iter_name_def)
  next
    case False
    obtain r c where r: "find_resource f [name] n b = Inr (r, c)"
      "(case r of Some m \<Rightarrow> Inr (if acc \<and> it_src a \<and> get_type c m = FILE then [m] else [], c)
        | None \<Rightarrow> iter_folder f a sub acc n name c) = Inr x"
      using assms(1) p False split_plain [OF assms(2)] by (auto simp: iter_name_def)
    have k: "child_ok b n name {FILE, BUILD} (r, c)" by (rule find_resource_child [OF r(1) w assms(4)])
    then have t: "tidy b c" by (simp add: child_ok_def)
    show ?thesis
    proof (cases r)
      case (Some m)
      have "acc \<and> it_src a \<and> get_type c m = FILE \<Longrightarrow> found_ok b n ?Q ([m], c)"
        by (intro found_here [OF k [unfolded Some]]) (use p(1) in \<open>simp add: iter_hit_def asked_def\<close>)
      then show ?thesis using r(2) Some found_none [OF t] by auto
    next
      case None
      then have fo: "iter_folder f a sub acc n name c = Inr x" using r(2) by simp
      have "found_ok c n ?Q x"
        by (rule iter_folder_found [OF fo assms(2) ready_tidy [OF assms(3) t] assms(4) p(1) _ assms(5)])
          (use p(2) False in auto)
      then show ?thesis by (rule found_trans [OF t])
    qed
  qed
qed

lemma iter_level_sound:
  assumes "\<And>m c z. sub () m c = Inr z \<Longrightarrow> ready c m \<Longrightarrow> found_ok c m (\<lambda>xs t. iter_hit a xs t \<and> length xs \<le> d) z"
    "iter_level f a sub u n b = Inr x" "ready b n" "fs_ok f"
  shows "found_ok b n (\<lambda>xs t. iter_hit a xs t \<and> length xs \<le> Suc d) x" (is "found_ok b n ?Q x")
proof (rule level_found [OF assms(2) [unfolded iter_level_def] assms(3,4)])
  fix y c z assume "plain_name y" "ready c n" "iter_name f a sub n y c = Inr z"
  then show "found_ok c n ?Q z" using iter_name_found [OF _ _ _ assms(4,1)] by blast
next
  fix m c z assume a: "it_bld a" "ready c n" "child_ok c n (n_name (nd c m)) UNIV (Some m, c)" "iter_built a m c = Inr z"
  show "found_ok c n ?Q z"
  proof (cases "get_type c m = BUILD \<and> accept_name a (n_name (nd c m)) = Inr True \<and> z = ([m], c)")
    case True
    then have "found_ok c n ?Q ([m], c)"
      by (intro found_here [OF a(3)]) (use a(1) in \<open>simp add: iter_hit_def asked_def\<close>)
    then show ?thesis using True by simp
  next
    case False
    then have "z = ([], c)" using a(4) by (auto simp: iter_built_def split: if_splits)
    then show ?thesis using found_none tidy_refl a(2) by (auto simp: ready_def)
  qed
next
  fix m c z assume "iter_built a m c = Inr z"
  then show "snd z = c" by (auto simp: iter_built_def split: if_splits)
qed

interpretation iter: folder_search "iter_level f a" "find_iter_impl f a" "\<lambda>u. fs_ok f" "\<lambda>u. iter_hit a" for f a
proof (unfold_locales, goal_cases)
  case (3 sub d p n b x)
  show ?case by (rule iter_level_sound [OF _ 3(2)]) (use 3 in auto)
qed simp_all

text \<open>C21: \<open>ant_glob\<close> returns what was asked for only. Every node in its result lies below the folder, at a path of at
  most 26 names that a pattern to include matches, while no pattern to exclude matches the path or a folder it goes
  through, and it has a type that was asked for. The tree stays well-formed.\<close>

theorem ant_glob_sound:
  assumes "ant_glob f k kw n b = Inr (Nodes ms, b')" "wf_tree b" "names_ok b" "n_name (nd b (root b)) = []"
    "n < length (b_nodes b)" "get_type b n = DIR" "fs_ok f"
    "to_pat (case k of Some v \<Rightarrow> if given v then v else kw_incl kw | None \<Rightarrow> kw_incl kw) = Inr inc"
    "to_pat (kw_excl kw) = Inr exc" "\<forall>ps \<in> set inc \<union> set exc. no_double ps"
  shows "wf_tree b' \<and> (\<forall>m \<in> set ms. \<exists>xs. below b' n xs m \<and> 0 < length xs \<and> length xs \<le> 26 \<and>
    (\<exists>ps \<in> set inc. ant_match ps xs) \<and>
    (\<forall>i. 0 < i \<and> i \<le> length xs \<longrightarrow> \<not> (\<exists>ps \<in> set exc. ant_match ps (take i xs))) \<and>
    asked (kw_src kw) (kw_bld kw) (kw_dir kw) (get_type b' m))"
proof -
  have s: "ant_iter f kw 25 (inc, exc) n b = Inr (ms, b')"
    using assms(1,8,9) by (auto simp: ant_glob_def ant_nodes_def Let_def as_found_def split: if_splits)
  have "found_ok b n (\<lambda>xs t. ant_hit kw (inc, exc) xs t \<and> length xs \<le> Suc 25) (ms, b')"
    by (rule ant.search_sound [OF s]) (use assms in \<open>auto simp: pats_ok_def ready_def\<close>)
  then have t: "tidy b b'" "\<forall>m \<in> set ms. \<exists>xs. below b' n xs m \<and> ant_hit kw (inc, exc) xs (get_type b' m) \<and> length xs \<le> 26"
    by (auto simp: found_ok_def)
  show ?thesis
  proof (intro conjI ballI)
    show "wf_tree b'" using t(1) grows_wf by (auto simp: tidy_def)
    fix m assume "m \<in> set ms"
    then obtain xs where "below b' n xs m" "ant_hit kw (inc, exc) xs (get_type b' m)" "length xs \<le> 26" using t(2) by blast
    then show "\<exists>xs. below b' n xs m \<and> 0 < length xs \<and> length xs \<le> 26 \<and> (\<exists>ps \<in> set inc. ant_match ps xs) \<and>
      (\<forall>i. 0 < i \<and> i \<le> length xs \<longrightarrow> \<not> (\<exists>ps \<in> set exc. ant_match ps (take i xs))) \<and>
      asked (kw_src kw) (kw_bld kw) (kw_dir kw) (get_type b' m)"
      by (intro exI [of _ xs]) (simp add: ant_hit_def wanted_def any_ant_def)
  qed
qed

text \<open>C24: \<open>find_iter\<close> with a maximal depth returns nodes at most that many folders deeper than the folder it starts from:
  every node returned lies below it at a path of at most \<open>maxdepth + 1\<close> names, whose last name is accepted and
  whose folders are not pruned, and it has a type that was asked for.\<close>

theorem find_iter_bounded:
  assumes "find_iter f a maxdepth False n b = Inr (Nodes ms, b')" "wf_tree b" "names_ok b" "n_name (nd b (root b)) = []"
    "n < length (b_nodes b)" "fs_ok f"
  shows "\<forall>m \<in> set ms. \<exists>xs. below b' n xs m \<and> 0 < length xs \<and> length xs \<le> maxdepth + 1 \<and>
    accept_name a (last xs) = Inr True \<and> (\<forall>y \<in> set (butlast xs). is_prune a y = Inr False) \<and>
    asked (it_src a) (it_bld a) (it_dir a) (get_type b' m)"
proof -
  have s: "find_iter_impl f a maxdepth () n b = Inr (ms, b')" "get_type b n = DIR"
    using assms(1) by (auto simp: find_iter_def as_found_def split: if_splits)
  have "found_ok b n (\<lambda>xs t. iter_hit a xs t \<and> length xs \<le> Suc maxdepth) (ms, b')"
    by (rule iter.search_sound [OF s(1)]) (use assms s(2) in \<open>auto simp: ready_def\<close>)
  then show ?thesis by (fastforce simp: found_ok_def iter_hit_def)
qed

definition demo_kw :: glob_kw where
  "demo_kw = default_kw\<lparr>kw_excl := Names [''util.*''], kw_flat := False\<rparr>"

lemma demo_ready:
  "names_ok demo_build" "n_name (nd demo_build (root demo_build)) = []" "1 < length (b_nodes demo_build)"
  "get_type demo_build 1 = DIR" "fs_ok demo_fs"
  by (simp_all add: names_ok_def demo_build_def get_type_def DIR_def fs_ok_def demo_fs_def plain_name_def)

lemma demo_pats:
  "to_pat (Text ''*.c'') = Inr [[Comp (Seq Bos (comp_rx ''*.c''))]]"
  "to_pat (Names [''util.*'']) = Inr [[Comp (Seq Bos (comp_rx ''util.*''))]]"
proof -
  have c: "re_compile (component_text ''*.c'') = Some (Seq Bos (comp_rx ''*.c''))"
    "re_compile (component_text ''util.*'') = Some (Seq Bos (comp_rx ''util.*''))"
    by (rule component_compiles, simp add: plain_comp_def special_def)+
  have "one_pat ''*.c'' = Inr [Comp (Seq Bos (comp_rx ''*.c''))]"
    using c(1) by (simp add: one_pat_def Let_def py_endswith_def py_startswith_def del: comp_rx.simps)
  then show "to_pat (Text ''*.c'') = Inr [[Comp (Seq Bos (comp_rx ''*.c''))]]"
    by (simp add: to_pat_def py_isspace_def ord_def del: comp_rx.simps)
  have "one_pat ''util.*'' = Inr [Comp (Seq Bos (comp_rx ''util.*''))]"
    using c(2) by (simp add: one_pat_def Let_def py_endswith_def py_startswith_def del: comp_rx.simps)
  then show "to_pat (Names [''util.*'']) = Inr [[Comp (Seq Bos (comp_rx ''util.*''))]]"
    by (simp add: to_pat_def del: comp_rx.simps)
qed

theorem ant_glob_sound_witness:
  "\<exists>b'. ant_glob demo_fs (Some (Text ''*.c'')) demo_kw 1 demo_build = Inr (Nodes [3], b') \<and> wf_tree b' \<and>
     (\<exists>xs. below b' 1 xs 3 \<and> length xs \<le> 26)"
proof -
  have "(case ant_glob demo_fs (Some (Text ''*.c'')) demo_kw 1 demo_build of
      Inr (Nodes ms, b') \<Rightarrow> ms = [3] | _ \<Rightarrow> False)" by code_simp
  then obtain b' where b': "ant_glob demo_fs (Some (Text ''*.c'')) demo_kw 1 demo_build = Inr (Nodes [3], b')"
    by (auto split: sum.splits prod.splits found.splits)
  have "wf_tree b' \<and> (\<forall>m \<in> set [3]. \<exists>xs. below b' 1 xs m \<and> 0 < length xs \<and> length xs \<le> 26 \<and>
    (\<exists>ps \<in> set [[Comp (Seq Bos (comp_rx ''*.c''))]]. ant_match ps xs) \<and>
    (\<forall>i. 0 < i \<and> i \<le> length xs \<longrightarrow> \<not> (\<exists>ps \<in> set [[Comp (Seq Bos (comp_rx ''util.*''))]]. ant_match ps (take i xs))) \<and>
    asked (kw_src demo_kw) (kw_bld demo_kw) (kw_dir demo_kw) (get_type b' m))"
  proof (rule ant_glob_sound [OF b' demo_wf demo_ready])
    show "to_pat (case Some (Text ''*.c'') of Some v \<Rightarrow> if given v then v else kw_incl demo_kw | None \<Rightarrow> kw_incl demo_kw) =
      Inr [[Comp (Seq Bos (comp_rx ''*.c''))]]" using demo_pats(1) by (simp add: given_def del: comp_rx.simps)
    show "to_pat (kw_excl demo_kw) = Inr [[Comp (Seq Bos (comp_rx ''util.*''))]]"
      using demo_pats(2) by (simp add: demo_kw_def default_kw_def del: comp_rx.simps)
  qed simp
  then show ?thesis using b' by auto
qed

theorem find_iter_bounded_witness:
  "\<exists>b'. find_iter demo_fs default_iter 0 False 1 demo_build = Inr (Nodes [3, 4], b') \<and>
     (\<exists>xs. below b' 1 xs 4 \<and> length xs = 1)"
proof -
  have "(case find_iter demo_fs default_iter 0 False 1 demo_build of
      Inr (Nodes ms, b') \<Rightarrow> ms = [3, 4] | _ \<Rightarrow> False)" by code_simp
  then obtain b' where b': "find_iter demo_fs default_iter 0 False 1 demo_build = Inr (Nodes [3, 4], b')"
    by (auto split: sum.splits prod.splits found.splits)
  from find_iter_bounded [OF b' demo_wf demo_ready(1-3,5)]
  have "\<exists>xs. below b' 1 xs 4 \<and> 0 < length xs \<and> length xs \<le> 0 + 1" by fastforce
  then show ?thesis using b' by (metis add_0 le_neq_implies_less less_one neq0_conv)
qed

text \<open>On a node that is no folder \<open>find_iter\<close> does not return an empty result, it raises \<open>StopIteration\<close>.\<close>

lemma find_iter_raises: "get_type b n \<noteq> DIR \<Longrightarrow> find_iter f a maxdepth flat n b = Inl StopIteration"
  by (simp add: find_iter_def)

end
