(* ===== verification/WafDeps.thy ===== *)
theory WafDeps
  imports WafTask
begin

section \<open>Waf: orders inferred from the files of the tasks\<close>

text \<open>
  \<open>extract_outputs\<close> and \<open>extract_deps\<close> of \<open>src/tools/wafadmin/Task.py\<close>: the functions that \<open>prepare\<close> may call to let a task
  run after the tasks that make its files. \<open>ks\<close> has the nodes and the signature of each task, \<open>ts\<close> the list
  \<open>run_after\<close>. The dictionaries keep the order of insertion; the results are stated for the sets of tasks, which do
  not depend on it.
\<close>

subsection \<open>Input and output nodes\<close>

type_synonym io = "(nat \<times> nat list) list \<times> (nat \<times> nat list) list"

definition note_task :: "build \<Rightarrow> (nat \<Rightarrow> ktask) \<Rightarrow> nat \<Rightarrow> (string \<times> io) list \<Rightarrow> (string \<times> io) list" where
  "note_task b ks x v =
     (let (ins, outs) = (case map_of v (k_variant (ks x)) of Some p \<Rightarrow> p | None \<Rightarrow> ([], [])) in
      AList.update (k_variant (ks x))
        (fold (\<lambda>a. dict_append (n_id (nd b a)) x) (k_inputs (ks x)) ins,
         fold (\<lambda>a. dict_append (n_id (nd b a)) x) (k_outputs (ks x)) outs) v)"

definition link_io :: "io \<Rightarrow> tasks \<Rightarrow> tasks" where
  "link_io p ts =
     fold (\<lambda>(k, as) ts.
       case map_of (snd p) k of
         None \<Rightarrow> ts
       | Some bs \<Rightarrow> fold (\<lambda>a. fold (set_run_after a) bs) as ts) (fst p) ts"

definition extract_outputs :: "build \<Rightarrow> (nat \<Rightarrow> ktask) \<Rightarrow> nat list \<Rightarrow> tasks \<Rightarrow> tasks" where
  "extract_outputs b ks xs ts = fold link_io (map snd (fold (note_task b ks) xs [])) ts"

subsection \<open>Dependencies that the scanners report\<close>

text \<open>Every output with the last task that has it.\<close>

definition out_to_task :: "build \<Rightarrow> (nat \<Rightarrow> ktask) \<Rightarrow> nat list \<Rightarrow> ((string \<times> nat) \<times> nat) list" where
  "out_to_task b ks xs =
     fold (\<lambda>x. fold (\<lambda>a. AList.update (k_variant (ks x), n_id (nd b a)) x) (k_outputs (ks x))) xs []"

text \<open>\<open>try: x.signature() except: pass\<close>.\<close>

definition try_signature :: "targs \<Rightarrow> nat \<Rightarrow> (nat \<Rightarrow> ktask) \<times> tbuild \<Rightarrow> (nat \<Rightarrow> ktask) \<times> tbuild" where
  "try_signature A x s =
     (case signature A (fst s x) (snd s) of
        (Inl e, B) \<Rightarrow> (fst s, B)
      | (Inr (r, t), B) \<Rightarrow> ((fst s)(x := t), B))"

definition reported :: "targs \<Rightarrow> nat \<Rightarrow> (nat \<Rightarrow> ktask) \<times> tbuild \<Rightarrow> (string \<times> nat) list" where
  "reported A x s =
     (let B = snd s; t = fst s x in
      map (\<lambda>k. (k_variant t, n_id (nd (tb B) k)))
        (case node_deps B (unique_id A t (tb B)) of None \<Rightarrow> [] | Some ns \<Rightarrow> ns))"

fun dep_to_task ::
  "targs \<Rightarrow> nat list \<Rightarrow> (nat \<Rightarrow> ktask) \<times> tbuild \<Rightarrow> ((string \<times> nat) \<times> nat list) list \<Rightarrow>
     ((nat \<Rightarrow> ktask) \<times> tbuild) \<times> ((string \<times> nat) \<times> nat list) list" where
  "dep_to_task A [] s d = (s, d)"
| "dep_to_task A (x # xs) s d =
     (let s = try_signature A x s in dep_to_task A xs s (fold (\<lambda>i. dict_append i x) (reported A x s) d))"

definition link_deps :: "((string \<times> nat) \<times> nat list) list \<Rightarrow> ((string \<times> nat) \<times> nat) list \<Rightarrow> tasks \<Rightarrow> tasks" where
  "link_deps d outs ts =
     fold (\<lambda>(i, as) ts. case map_of outs i of None \<Rightarrow> ts | Some m \<Rightarrow> fold (\<lambda>k. set_run_after k m) as ts) d ts"

definition forget_sig :: "nat \<Rightarrow> (nat \<Rightarrow> ktask) \<Rightarrow> nat \<Rightarrow> ktask" where
  "forget_sig x ks = ks(x := (ks x)\<lparr>k_cache_sig := None\<rparr>)"

definition extract_deps :: "targs \<Rightarrow> nat list \<Rightarrow> (nat \<Rightarrow> ktask) \<times> tbuild \<Rightarrow> tasks \<Rightarrow> ((nat \<Rightarrow> ktask) \<times> tbuild) \<times> tasks" where
  "extract_deps A xs s ts =
     (let ts = extract_outputs (tb (snd s)) (fst s) xs ts;
          outs = out_to_task (tb (snd s)) (fst s) xs;
          (s, d) = dep_to_task A xs s [];
          ts = link_deps d outs ts
      in ((fold forget_sig xs (fst s), snd s), ts))"

subsection \<open>Lists of a dictionary\<close>

definition dget :: "('k \<times> 'v list) list \<Rightarrow> 'k \<Rightarrow> 'v set" where
  "dget d k = (case map_of d k of None \<Rightarrow> {} | Some xs \<Rightarrow> set xs)"

lemma dget_Nil [simp]: "dget [] k = {}"
  by (simp add: dget_def)

lemma map_of_dict_append:
  "map_of (dict_append k x d) k' = (if k' = k then Some (case map_of d k of None \<Rightarrow> [x] | Some xs \<Rightarrow> xs @ [x]) else map_of d k')"
  by (induction k x d rule: dict_append.induct) auto

lemma dget_append: "dget (dict_append k x d) k' = (if k' = k then insert x (dget d k') else dget d k')"
  by (auto simp: dget_def map_of_dict_append split: option.splits)

lemma dget_fold: "dget (fold (\<lambda>a. dict_append (f a) x) as d) k = (if k \<in> f ` set as then insert x (dget d k) else dget d k)"
  by (induction as arbitrary: d) (auto simp: dget_append)

lemma fold_append_distinct: "distinct (map fst d) \<Longrightarrow> distinct (map fst (fold (\<lambda>a. dict_append (f a) x) as d))"
  by (induction as arbitrary: d) (simp_all add: dict_append_distinct)

lemma dget_entry: "distinct (map fst d) \<Longrightarrow> (k, xs) \<in> set d \<Longrightarrow> dget d k = set xs"
  by (simp add: dget_def map_of_eq_Some_iff)

lemma dget_mem: "y \<in> dget d k \<Longrightarrow> \<exists>xs. (k, xs) \<in> set d \<and> map_of d k = Some xs \<and> y \<in> set xs"
  by (auto simp: dget_def dest: map_of_SomeD split: option.splits)

subsection \<open>Adding orders\<close>

definition ra :: "tasks \<Rightarrow> nat \<Rightarrow> nat set" where
  "ra ts n = set (t_run_after (ts n))"

lemma ra_set: "ra (set_run_after a m ts) n = (if n = a then insert m (ra ts n) else ra ts n)"
  by (simp add: ra_def set_run_after_def)

lemma ra_fold_before: "ra (fold (set_run_after a) bs ts) n = (if n = a then set bs \<union> ra ts n else ra ts n)"
  by (induction bs arbitrary: ts) (auto simp: ra_set)

lemma ra_fold_product: "ra (fold (\<lambda>a. fold (set_run_after a) bs) as ts) n = (if n \<in> set as then set bs \<union> ra ts n else ra ts n)"
  by (induction as arbitrary: ts) (auto simp: ra_fold_before)

lemma ra_fold_one: "ra (fold (\<lambda>k. set_run_after k m) as ts) n = (if n \<in> set as then insert m (ra ts n) else ra ts n)"
  by (induction as arbitrary: ts) (auto simp: ra_set)

lemma ra_fold_any:
  assumes "\<And>y ts. m \<in> ra (f y ts) n \<longleftrightarrow> P y \<or> m \<in> ra ts n"
  shows "m \<in> ra (fold f ys ts) n \<longleftrightarrow> (\<exists>y \<in> set ys. P y) \<or> m \<in> ra ts n"
  using assms by (induction ys arbitrary: ts) auto

lemma ra_link_io:
  assumes "distinct (map fst (fst p))"
  shows "m \<in> ra (link_io p ts) n \<longleftrightarrow> (\<exists>k. n \<in> dget (fst p) k \<and> m \<in> dget (snd p) k) \<or> m \<in> ra ts n"
proof -
  have "m \<in> ra (link_io p ts) n \<longleftrightarrow>
    (\<exists>y \<in> set (fst p). n \<in> set (snd y) \<and> m \<in> dget (snd p) (fst y)) \<or> m \<in> ra ts n"
    unfolding link_io_def
    by (rule ra_fold_any) (auto simp: ra_fold_product dget_def split: option.splits if_splits)
  moreover have "(\<exists>y \<in> set (fst p). n \<in> set (snd y) \<and> m \<in> dget (snd p) (fst y)) \<longleftrightarrow>
    (\<exists>k. n \<in> dget (fst p) k \<and> m \<in> dget (snd p) k)"
  proof
    assume "\<exists>y \<in> set (fst p). n \<in> set (snd y) \<and> m \<in> dget (snd p) (fst y)"
    then obtain k as where "(k, as) \<in> set (fst p)" "n \<in> set as" "m \<in> dget (snd p) k" by auto
    then show "\<exists>k. n \<in> dget (fst p) k \<and> m \<in> dget (snd p) k" using dget_entry [OF assms] by blast
  next
    assume "\<exists>k. n \<in> dget (fst p) k \<and> m \<in> dget (snd p) k"
    then obtain k where k: "n \<in> dget (fst p) k" "m \<in> dget (snd p) k" by blast
    obtain as where "(k, as) \<in> set (fst p)" "n \<in> set as" using dget_mem [OF k(1)] by blast
    then show "\<exists>y \<in> set (fst p). n \<in> set (snd y) \<and> m \<in> dget (snd p) (fst y)" using k(2) by (intro bexI [of _ "(k, as)"]) simp_all
  qed
  ultimately show ?thesis by simp
qed

subsection \<open>What \<open>extract_outputs\<close> adds\<close>

definition io_get :: "(string \<times> io) list \<Rightarrow> string \<Rightarrow> io" where
  "io_get v w = (case map_of v w of Some p \<Rightarrow> p | None \<Rightarrow> ([], []))"

definition node_ids :: "build \<Rightarrow> nat list \<Rightarrow> nat set" where
  "node_ids b ns = (\<lambda>a. n_id (nd b a)) ` set ns"

definition noted :: "build \<Rightarrow> (nat \<Rightarrow> ktask) \<Rightarrow> nat set \<Rightarrow> (string \<times> io) list \<Rightarrow> bool" where
  "noted b ks X v \<longleftrightarrow> distinct (map fst v) \<and> (\<forall>w. distinct (map fst (fst (io_get v w))) \<and>
     (\<forall>k. dget (fst (io_get v w)) k = {x \<in> X. k_variant (ks x) = w \<and> k \<in> node_ids b (k_inputs (ks x))} \<and>
          dget (snd (io_get v w)) k = {x \<in> X. k_variant (ks x) = w \<and> k \<in> node_ids b (k_outputs (ks x))}))"

lemma note_task_get:
  "io_get (note_task b ks x v) w =
     (if w = k_variant (ks x)
      then (fold (\<lambda>a. dict_append (n_id (nd b a)) x) (k_inputs (ks x)) (fst (io_get v w)),
            fold (\<lambda>a. dict_append (n_id (nd b a)) x) (k_outputs (ks x)) (snd (io_get v w)))
      else io_get v w)"
proof -
  obtain ins outs where p: "io_get v (k_variant (ks x)) = (ins, outs)" by fastforce
  then have "(case map_of v (k_variant (ks x)) of Some p \<Rightarrow> p | None \<Rightarrow> ([], [])) = (ins, outs)" by (simp add: io_get_def)
  then have "note_task b ks x v = AList.update (k_variant (ks x))
      (fold (\<lambda>a. dict_append (n_id (nd b a)) x) (k_inputs (ks x)) ins,
       fold (\<lambda>a. dict_append (n_id (nd b a)) x) (k_outputs (ks x)) outs) v"
    by (simp add: note_task_def)
  then show ?thesis using p by (simp add: io_get_def update_conv')
qed

lemma note_task_noted: "noted b ks X v \<Longrightarrow> noted b ks (insert x X) (note_task b ks x v)"
proof -
  assume n: "noted b ks X v"
  have "distinct (map fst (note_task b ks x v))"
    using n by (simp add: noted_def note_task_def Let_def distinct_update split: prod.split)
  moreover have "distinct (map fst (fst (io_get (note_task b ks x v) w)))" for w
    using n by (simp add: noted_def note_task_get fold_append_distinct)
  ultimately show ?thesis using n by (auto simp: noted_def note_task_get dget_fold node_ids_def)
qed

lemma fold_noted: "noted b ks X v \<Longrightarrow> noted b ks (X \<union> set xs) (fold (note_task b ks) xs v)"
proof (induction xs arbitrary: X v)
  case (Cons x xs)
  show ?case using Cons.IH [OF note_task_noted [OF Cons.prems, of x]] by simp
qed simp

text \<open>Task \<open>n\<close> reads a file that task \<open>m\<close> makes, in the same variant.\<close>

definition feeds :: "build \<Rightarrow> (nat \<Rightarrow> ktask) \<Rightarrow> nat \<Rightarrow> nat \<Rightarrow> bool" where
  "feeds b ks m n \<longleftrightarrow> k_variant (ks m) = k_variant (ks n) \<and>
     node_ids b (k_outputs (ks m)) \<inter> node_ids b (k_inputs (ks n)) \<noteq> {}"

lemma extract_outputs_ra:
  "m \<in> ra (extract_outputs b ks xs ts) n \<longleftrightarrow> m \<in> set xs \<and> n \<in> set xs \<and> feeds b ks m n \<or> m \<in> ra ts n"
proof -
  let ?v = "fold (note_task b ks) xs []"
  have "noted b ks {} []" by (simp add: noted_def io_get_def)
  then have nt: "noted b ks (set xs) ?v" using fold_noted [of b ks "{}" "[]" xs] by simp
  have entry: "io_get ?v w = p" if "(w, p) \<in> set ?v" for w p
    using nt that by (simp add: noted_def io_get_def map_of_eq_Some_iff [THEN iffD2])
  have d: "distinct (map fst (fst p))" if "p \<in> set (map snd ?v)" for p
  proof -
    obtain w where "(w, p) \<in> set ?v" using \<open>p \<in> set (map snd ?v)\<close> by auto
    from entry [OF this] have "p = io_get ?v w" by simp
    then show ?thesis using nt by (simp add: noted_def)
  qed
  let ?P = "\<lambda>p. \<exists>k. n \<in> dget (fst p) k \<and> m \<in> dget (snd p) k"
  have "m \<in> ra (fold link_io ps ts) n \<longleftrightarrow> (\<exists>p \<in> set ps. ?P p) \<or> m \<in> ra ts n"
    if "\<forall>p \<in> set ps. distinct (map fst (fst p))" for ps ts
    using that by (induction ps arbitrary: ts) (auto simp: ra_link_io)
  then have "m \<in> ra (extract_outputs b ks xs ts) n \<longleftrightarrow> (\<exists>p \<in> set (map snd ?v). ?P p) \<or> m \<in> ra ts n"
    using d by (simp add: extract_outputs_def)
  moreover have "(\<exists>p \<in> set (map snd ?v). ?P p) \<longleftrightarrow> (\<exists>w. ?P (io_get ?v w))"
  proof
    assume "\<exists>p \<in> set (map snd ?v). ?P p"
    then obtain p where p: "p \<in> set (map snd ?v)" "?P p" by blast
    then obtain w where w: "(w, p) \<in> set ?v" "?P p" by auto
    from entry [OF w(1)] w(2) show "\<exists>w. ?P (io_get ?v w)" by blast
  next
    assume "\<exists>w. ?P (io_get ?v w)"
    then obtain w where w: "?P (io_get ?v w)" by blast
    then obtain p where p: "map_of ?v w = Some p" "io_get ?v w = p" by (cases "map_of ?v w") (auto simp: io_get_def)
    have "p \<in> set (map snd ?v)" using map_of_SomeD [OF p(1)] by force
    then show "\<exists>p \<in> set (map snd ?v). ?P p" using w p(2) by blast
  qed
  moreover have "(\<exists>w. ?P (io_get ?v w)) \<longleftrightarrow> m \<in> set xs \<and> n \<in> set xs \<and> feeds b ks m n"
    using nt by (auto simp: noted_def feeds_def)
  ultimately show ?thesis by simp
qed

text \<open>C17: \<open>extract_outputs\<close> orders exactly the tasks that it should: a task is set to run after another one when and only
  when it was so before, or both are in the list, have the same variant, and the one reads a file that the other
  one makes.\<close>

theorem extract_outputs_correct:
  "set (t_run_after (extract_outputs b ks xs ts n)) =
     set (t_run_after (ts n)) \<union>
     {m \<in> set xs. n \<in> set xs \<and> k_variant (ks m) = k_variant (ks n) \<and>
        (\<exists>a \<in> set (k_outputs (ks m)). \<exists>c \<in> set (k_inputs (ks n)). n_id (nd b a) = n_id (nd b c))}"
  using extract_outputs_ra [of _ b ks xs ts n] by (fastforce simp: ra_def feeds_def node_ids_def)

text \<open>A task with a file that is both input and output is set to run after itself.\<close>

lemma update_in_place_waits:
  assumes "x \<in> set xs" "a \<in> set (k_inputs (ks x))" "a \<in> set (k_outputs (ks x))"
  shows "x \<in> set (t_run_after (extract_outputs b ks xs ts x))"
  using extract_outputs_ra [of x b ks xs ts x] assms by (auto simp: ra_def feeds_def node_ids_def)

subsection \<open>What \<open>extract_deps\<close> adds\<close>

lemma dep_to_task_state: "fst (dep_to_task A xs s d) = fold (try_signature A) xs s"
  by (induction A xs s d rule: dep_to_task.induct) (simp_all add: Let_def)

lemma dep_to_task_distinct: "distinct (map fst d) \<Longrightarrow> distinct (map fst (snd (dep_to_task A xs s d)))"
  by (induction A xs s d rule: dep_to_task.induct) (simp_all add: Let_def fold_append_distinct)

text \<open>The tasks are scanned in order; what a task reports is read right after its signature has been computed.\<close>

lemma dep_to_task_get:
  "n \<in> dget (snd (dep_to_task A xs s d)) i \<longleftrightarrow>
     n \<in> dget d i \<or> (\<exists>us vs. xs = us @ n # vs \<and> i \<in> set (reported A n (fold (try_signature A) (us @ [n]) s)))"
proof (induction xs arbitrary: s d)
  case (Cons x xs)
  let ?s = "try_signature A x s"
  have "n \<in> dget (snd (dep_to_task A (x # xs) s d)) i \<longleftrightarrow>
    n \<in> dget d i \<or> n = x \<and> i \<in> set (reported A x ?s) \<or>
    (\<exists>us vs. xs = us @ n # vs \<and> i \<in> set (reported A n (fold (try_signature A) (us @ [n]) ?s)))"
    unfolding dep_to_task.simps Let_def Cons.IH using dget_fold [of "\<lambda>i. i" x "reported A x ?s" d i] by auto
  also have "\<dots> \<longleftrightarrow> n \<in> dget d i \<or>
    (\<exists>us vs. x # xs = us @ n # vs \<and> i \<in> set (reported A n (fold (try_signature A) (us @ [n]) s)))"
    (is "?L \<or> ?H \<or> ?T \<longleftrightarrow> ?L \<or> ?R")
  proof -
    have "?R" if t: ?T
    proof -
      obtain us vs where "xs = us @ n # vs" "i \<in> set (reported A n (fold (try_signature A) (us @ [n]) ?s))" using t by blast
      then show ?thesis by (intro exI [of _ "x # us"] exI [of _ vs]) simp
    qed
    moreover have "?R" if ?H
      using that by (intro exI [of _ "[]"] exI [of _ xs]) simp
    moreover have "?H \<or> ?T" if t: ?R
    proof -
      obtain us vs where r: "x # xs = us @ n # vs" "i \<in> set (reported A n (fold (try_signature A) (us @ [n]) s))" using t by blast
      then show ?thesis by (cases us) auto
    qed
    ultimately show ?thesis by blast
  qed
  finally show ?case .
qed simp

definition makes :: "build \<Rightarrow> (nat \<Rightarrow> ktask) \<Rightarrow> nat \<Rightarrow> string \<times> nat \<Rightarrow> bool" where
  "makes b ks x i \<longleftrightarrow> k_variant (ks x) = fst i \<and> snd i \<in> node_ids b (k_outputs (ks x))"

lemma fold_update_get:
  "map_of (fold (\<lambda>a. AList.update (v, f a) x) as d) i =
     (if fst i = v \<and> snd i \<in> f ` set as then Some x else map_of d i)"
  by (induction as arbitrary: d) (cases i; auto simp: update_conv')+

lemma out_to_task_get:
  "map_of (out_to_task b ks xs) i = Some m \<longleftrightarrow>
     (\<exists>us vs. xs = us @ m # vs \<and> makes b ks m i \<and> (\<forall>z \<in> set vs. \<not> makes b ks z i))"
proof (induction xs rule: rev_induct)
  case Nil
  then show ?case by (simp add: out_to_task_def)
next
  case (snoc x xs)
  have l: "map_of (out_to_task b ks (xs @ [x])) i = (if makes b ks x i then Some x else map_of (out_to_task b ks xs) i)"
    by (auto simp: out_to_task_def fold_update_get makes_def node_ids_def)
  show ?case
  proof
    assume "map_of (out_to_task b ks (xs @ [x])) i = Some m"
    then consider "makes b ks x i" "m = x" | "\<not> makes b ks x i" "map_of (out_to_task b ks xs) i = Some m"
      using l by (auto split: if_splits)
    then show "\<exists>us vs. xs @ [x] = us @ m # vs \<and> makes b ks m i \<and> (\<forall>z \<in> set vs. \<not> makes b ks z i)"
    proof cases
      case 1
      then show ?thesis by (intro exI [of _ xs] exI [of _ "[]"]) simp
    next
      case 2
      then obtain us vs where "xs = us @ m # vs" "makes b ks m i" "\<forall>z \<in> set vs. \<not> makes b ks z i" using snoc by blast
      then show ?thesis using 2(1) by (intro exI [of _ us] exI [of _ "vs @ [x]"]) auto
    qed
  next
    assume "\<exists>us vs. xs @ [x] = us @ m # vs \<and> makes b ks m i \<and> (\<forall>z \<in> set vs. \<not> makes b ks z i)"
    then obtain us vs where s: "xs @ [x] = us @ m # vs" "makes b ks m i" "\<forall>z \<in> set vs. \<not> makes b ks z i" by blast
    show "map_of (out_to_task b ks (xs @ [x])) i = Some m"
    proof (cases vs rule: rev_cases)
      case Nil
      then show ?thesis using s l by simp
    next
      case (snoc ws w)
      then have "w = x" "xs = us @ m # ws" using s(1) by auto
      then have "\<not> makes b ks x i" "map_of (out_to_task b ks xs) i = Some m" using s(2,3) snoc snoc.IH by auto
      then show ?thesis using l by simp
    qed
  qed
qed

lemma ra_link_deps:
  assumes "distinct (map fst d)"
  shows "m \<in> ra (link_deps d outs ts) n \<longleftrightarrow> (\<exists>i. n \<in> dget d i \<and> map_of outs i = Some m) \<or> m \<in> ra ts n"
proof -
  have "m \<in> ra (link_deps d outs ts) n \<longleftrightarrow>
    (\<exists>y \<in> set d. n \<in> set (snd y) \<and> map_of outs (fst y) = Some m) \<or> m \<in> ra ts n"
    unfolding link_deps_def by (rule ra_fold_any) (auto simp: ra_fold_one split: option.splits if_splits)
  moreover have "(\<exists>y \<in> set d. n \<in> set (snd y) \<and> map_of outs (fst y) = Some m) \<longleftrightarrow>
    (\<exists>i. n \<in> dget d i \<and> map_of outs i = Some m)"
  proof
    assume "\<exists>y \<in> set d. n \<in> set (snd y) \<and> map_of outs (fst y) = Some m"
    then obtain i as where "(i, as) \<in> set d" "n \<in> set as" "map_of outs i = Some m" by auto
    then show "\<exists>i. n \<in> dget d i \<and> map_of outs i = Some m" using dget_entry [OF assms] by blast
  next
    assume "\<exists>i. n \<in> dget d i \<and> map_of outs i = Some m"
    then obtain i where i: "n \<in> dget d i" "map_of outs i = Some m" by blast
    obtain as where "(i, as) \<in> set d" "n \<in> set as" using dget_mem [OF i(1)] by blast
    then show "\<exists>y \<in> set d. n \<in> set (snd y) \<and> map_of outs (fst y) = Some m" using i(2) by (intro bexI [of _ "(i, as)"]) simp_all
  qed
  ultimately show ?thesis by simp
qed

lemma fold_forget: "k_cache_sig (fold forget_sig xs ks x) = (if x \<in> set xs then None else k_cache_sig (ks x))"
  by (induction xs arbitrary: ks) (auto simp: forget_sig_def)

text \<open>C18: \<open>extract_deps\<close> adds to the orders of \<open>extract_outputs\<close> exactly these: a task runs after the last task of the list
  that makes, in the same variant, a file reported for it once its signature has been computed. A signature that cannot
  be computed stops nothing, and no task of the list keeps a signature.\<close>

theorem extract_deps_correct:
  assumes "extract_deps A xs (ks, B) ts = ((ks', B'), ts')"
  shows "(\<forall>n. set (t_run_after (ts' n)) =
      set (t_run_after (extract_outputs (tb B) ks xs ts n)) \<union>
      {m. \<exists>us vs ys zs i. xs = us @ n # vs \<and> i \<in> set (reported A n (fold (try_signature A) (us @ [n]) (ks, B))) \<and>
          xs = ys @ m # zs \<and> makes (tb B) ks m i \<and> (\<forall>z \<in> set zs. \<not> makes (tb B) ks z i)}) \<and>
    (\<forall>x \<in> set xs. k_cache_sig (ks' x) = None)"
proof -
  let ?r = "dep_to_task A xs (ks, B) []"
  let ?o = "out_to_task (tb B) ks xs"
  have e: "ts' = link_deps (snd ?r) ?o (extract_outputs (tb B) ks xs ts)" "ks' = fold forget_sig xs (fst (fst ?r))"
    using assms by (auto simp: extract_deps_def Let_def split: prod.splits)
  have "m \<in> ra ts' n \<longleftrightarrow> (\<exists>i. n \<in> dget (snd ?r) i \<and> map_of ?o i = Some m) \<or> m \<in> ra (extract_outputs (tb B) ks xs ts) n" for m n
    unfolding e(1) by (rule ra_link_deps) (simp add: dep_to_task_distinct)
  then have "ra ts' n = ra (extract_outputs (tb B) ks xs ts) n \<union>
    {m. \<exists>us vs ys zs i. xs = us @ n # vs \<and> i \<in> set (reported A n (fold (try_signature A) (us @ [n]) (ks, B))) \<and>
        xs = ys @ m # zs \<and> makes (tb B) ks m i \<and> (\<forall>z \<in> set zs. \<not> makes (tb B) ks z i)}" for n
    unfolding out_to_task_get dep_to_task_get by (simp only: dget_Nil empty_iff simp_thms set_eq_iff Un_iff mem_Collect_eq) blast
  then show ?thesis using e(2) by (simp add: ra_def fold_forget)
qed

text \<open>The task of the example and one that generates the header its scanner finds.\<close>

definition header_tasks :: "nat \<Rightarrow> ktask" where
  "header_tasks x = (if x = 1 then demo_task\<lparr>k_class := ''gen'', k_inputs := [], k_outputs := [5], k_scan := False\<rparr> else demo_task)"

definition header_order :: tasks where
  "header_order x = \<lparr>t_class = [], t_before = [], t_after = [], t_ext_in = [], t_ext_out = [], t_maxjobs = 1, t_run_after = []\<rparr>"

theorem extract_deps_correct_witness:
  "set (t_run_after (snd (extract_deps demo_args [0, 1] (header_tasks, demo_tbuild) header_order) 0)) = {1} \<and>
   k_cache_sig (fst (fst (extract_deps demo_args [0, 1] (header_tasks, demo_tbuild) header_order)) 0) = None"
proof -
  obtain ks' B' ts' where r: "extract_deps demo_args [0, 1] (header_tasks, demo_tbuild) header_order = ((ks', B'), ts')"
    by (metis prod.collapse)
  have "t_run_after (snd (extract_deps demo_args [0, 1] (header_tasks, demo_tbuild) header_order) 0) = [1]" by code_simp
  moreover have "\<forall>x \<in> set [0, 1]. k_cache_sig (ks' x) = None" by (rule extract_deps_correct [OF r, THEN conjunct2])
  ultimately show ?thesis using r by simp
qed

end
