(* ===== verification/WafCache.thy ===== *)
theory WafCache
  imports WafTask
begin

section \<open>Waf: the global cache of build files\<close>

text \<open>
  The end of \<open>Task.post_run\<close>, \<open>Task.can_retrieve_cache\<close> and \<open>TaskBase.call_run\<close> of \<open>src/tools/wafadmin/Task.py\<close>: after a run
  the outputs are copied to a folder named after the signature, and a task with that signature takes them from
  there instead of running. Other processes use the cache at the same time: while files are retrieved, they act
  before every access, as the argument \<open>oth\<close> says.
\<close>

subsection \<open>The files\<close>

text \<open>The contents of the files outside the cache by their path, the folders of the cache with the time of their
  last change and their entries, and the clock.\<close>

type_synonym folder = "nat \<times> (string \<times> string) list"

record cstate =
  c_files :: "string \<Rightarrow> string option"
  c_dirs :: "string \<Rightarrow> folder option"
  c_clock :: nat

text \<open>The options, and what the system does: which files may be written, whether \<open>rmtree\<close> can remove the old folder, and
  the name that \<open>mkdtemp\<close> returns.\<close>

record copts =
  o_cache_global :: string
  o_nocache :: bool
  o_writable :: "string \<Rightarrow> bool"
  o_rmtree :: bool
  o_mkdtemp :: string

definition put_file :: "string \<Rightarrow> string \<Rightarrow> cstate \<Rightarrow> cstate" where
  "put_file p c s = s\<lparr>c_files := (c_files s)(p := Some c)\<rparr>"

text \<open>Copying into a folder: a new entry changes the time of the folder, a file written again does not.\<close>

definition put_entry :: "string \<Rightarrow> string \<Rightarrow> string \<Rightarrow> cstate \<Rightarrow> cstate" where
  "put_entry d name c s =
     (case c_dirs s d of
        None \<Rightarrow> s
      | Some (tm, es) \<Rightarrow>
          s\<lparr>c_clock := Suc (c_clock s),
            c_dirs := (c_dirs s)(d \<mapsto> (if name \<in> fst ` set es then tm else Suc (c_clock s), AList.update name c es))\<rparr>)"

definition rmtree :: "string \<Rightarrow> cstate \<Rightarrow> cstate" where
  "rmtree d s = s\<lparr>c_dirs := (c_dirs s)(d := None)\<rparr>"

definition mkdir :: "string \<Rightarrow> cstate \<Rightarrow> cstate" where
  "mkdir d s = s\<lparr>c_clock := Suc (c_clock s), c_dirs := (c_dirs s)(d \<mapsto> (Suc (c_clock s), []))\<rparr>"

text \<open>\<open>os.rename\<close> of a folder: it fails when there is a folder with entries already.\<close>

definition rename :: "string \<Rightarrow> string \<Rightarrow> cstate \<Rightarrow> cstate option" where
  "rename d e s =
     (case c_dirs s e of
        Some (tm, x # es) \<Rightarrow> None
      | _ \<Rightarrow> Some (s\<lparr>c_dirs := (c_dirs s)(d := None, e := c_dirs s d)\<rparr>))"

subsection \<open>Storing\<close>

definition hex_encode :: "string \<Rightarrow> string" where
  "hex_encode s = concat (map (\<lambda>c. [hex_digit (ord c div 16), hex_digit (ord c mod 16)]) s)"

definition cache_dir :: "copts \<Rightarrow> sig \<Rightarrow> string" where
  "cache_dir q sg = path_join [o_cache_global q, hex_encode sg]"

text \<open>\<open>node.abspath(env)\<close>.\<close>

definition out_path :: "ktask \<Rightarrow> build \<Rightarrow> nat \<Rightarrow> string res" where
  "out_path t b x = node_path b (path_variant b x (env_of t)) x"

definition cache_off :: "copts \<Rightarrow> ktask \<Rightarrow> bool" where
  "cache_off q t \<longleftrightarrow> o_cache_global q = [] \<or> o_nocache q \<or> k_outputs t = []"

text \<open>The loop that copies the outputs; \<open>False\<close> is an \<open>IOError\<close> or an \<open>OSError\<close>.\<close>

fun copy_in :: "ktask \<Rightarrow> build \<Rightarrow> string \<Rightarrow> nat list \<Rightarrow> cstate \<Rightarrow> (bool \<times> cstate) res" where
  "copy_in t b tmp [] s = Inr (True, s)"
| "copy_in t b tmp (x # xs) s =
     rbind (out_path t b x) (\<lambda>p.
       case c_files s p of
         None \<Rightarrow> Inr (False, s)
       | Some c \<Rightarrow> copy_in t b tmp xs (put_entry tmp (n_name (nd b x)) c s))"

definition store_cache :: "copts \<Rightarrow> ktask \<Rightarrow> bool \<Rightarrow> build \<Rightarrow> sig \<Rightarrow> cstate \<Rightarrow> cstate res" where
  "store_cache q t restored b sg s =
     (if cache_off q t \<or> restored then Inr s
      else
        let dname = cache_dir q sg; tmp = o_mkdtemp q;
            s = mkdir tmp s;
            s = (if o_rmtree q then rmtree dname s else s)
        in rbind (copy_in t b tmp (k_outputs t) s) (\<lambda>(ok, s).
             Inr (if ok then (case rename tmp dname s of None \<Rightarrow> rmtree tmp s | Some s \<Rightarrow> s) else rmtree tmp s)))"

text \<open>\<open>post_run\<close> with its copies.\<close>

definition post_run_cached ::
  "copts \<Rightarrow> targs \<Rightarrow> bool \<Rightarrow> ktask \<Rightarrow> tbuild \<Rightarrow> cstate \<Rightarrow> (ktask res \<times> tbuild) \<times> cstate" where
  "post_run_cached q A restored t B s =
     (case post_run A t B of
        (Inl e, B) \<Rightarrow> ((Inl e, B), s)
      | (Inr t, B) \<Rightarrow>
          (case k_cache_sig t of
             None \<Rightarrow> ((Inl AttributeError, B), s)
           | Some (sg, r) \<Rightarrow>
               (case store_cache q t restored (tb B) sg s of
                  Inl e \<Rightarrow> ((Inl e, B), s)
                | Inr s \<Rightarrow> ((Inr t, B), s))))"

subsection \<open>Retrieving\<close>

definition entry :: "string \<Rightarrow> string \<Rightarrow> cstate \<Rightarrow> string option" where
  "entry d name s = (case c_dirs s d of None \<Rightarrow> None | Some (tm, es) \<Rightarrow> map_of es name)"

type_synonym others = "nat \<Rightarrow> cstate \<Rightarrow> cstate"

fun copy_out :: "copts \<Rightarrow> others \<Rightarrow> ktask \<Rightarrow> build \<Rightarrow> string \<Rightarrow> nat \<Rightarrow> nat list \<Rightarrow> cstate \<Rightarrow> bool res \<times> cstate" where
  "copy_out q oth t b dname k [] s = (Inr True, s)"
| "copy_out q oth t b dname k (x # xs) s =
     (let s = oth k s in
      case out_path t b x of
        Inl e \<Rightarrow> (Inl e, s)
      | Inr p \<Rightarrow>
          (case entry dname (n_name (nd b x)) s of
             None \<Rightarrow> (Inr False, s)
           | Some c \<Rightarrow>
               if o_writable q p then copy_out q oth t b dname (Suc k) xs (put_file p c s) else (Inr False, s)))"

definition retrieve_files :: "copts \<Rightarrow> others \<Rightarrow> ktask \<Rightarrow> build \<Rightarrow> string \<Rightarrow> cstate \<Rightarrow> bool res \<times> cstate" where
  "retrieve_files q oth t b dname s =
     (let s = oth 0 s in
      case c_dirs s dname of
        None \<Rightarrow> (Inr False, s)
      | Some (t1, es) \<Rightarrow>
          (case copy_out q oth t b dname 1 (k_outputs t) s of
             (Inr True, s) \<Rightarrow>
               let s = oth (Suc (length (k_outputs t))) s in
               (case c_dirs s dname of
                  None \<Rightarrow> (Inr False, s)
                | Some (t2, es) \<Rightarrow> (Inr (t1 = t2), s))
           | r \<Rightarrow> r))"

text \<open>The signatures are stored for the variant of the last output.\<close>

definition can_retrieve_cache ::
  "copts \<Rightarrow> others \<Rightarrow> targs \<Rightarrow> ktask \<Rightarrow> tbuild \<Rightarrow> cstate \<Rightarrow> ((bool \<times> ktask) res \<times> tbuild) \<times> cstate" where
  "can_retrieve_cache q oth A t B s =
     (if cache_off q t then ((Inr (False, t), B), s)
      else
        case signature A t B of
          (Inl e, B) \<Rightarrow> ((Inl e, B), s)
        | (Inr (sg, t), B) \<Rightarrow>
            (case retrieve_files q oth t (tb B) (cache_dir q sg) s of
               (Inl e, s) \<Rightarrow> ((Inl e, B), s)
             | (Inr False, s) \<Rightarrow> ((Inr (False, t), B), s)
             | (Inr True, s) \<Rightarrow>
                 let v = node_variant (tb B) (last (k_outputs t)) (env_of t) in
                 ((Inr (True, t),
                   B\<lparr>tb := fold (\<lambda>x b. set_sig v (n_id (nd b x)) (Some sg) b) (k_outputs t) (tb B)\<rparr>), s)))"

text \<open>\<open>call_run\<close>; \<open>run\<close> is the method \<open>run\<close> of the task with its result and what it does to the files.\<close>

definition call_run ::
  "copts \<Rightarrow> others \<Rightarrow> targs \<Rightarrow> (cstate \<Rightarrow> int \<times> cstate) \<Rightarrow> ktask \<Rightarrow> tbuild \<Rightarrow> cstate \<Rightarrow> ((int \<times> ktask) res \<times> tbuild) \<times> cstate" where
  "call_run q oth A run t B s =
     (case can_retrieve_cache q oth A t B s of
        ((Inl e, B), s) \<Rightarrow> ((Inl e, B), s)
      | ((Inr (ok, t), B), s) \<Rightarrow>
          if ok then ((Inr (0, t), B), s) else (let (r, s) = run s in ((Inr (r, t), B), s)))"

subsection \<open>Storing and retrieving\<close>





subsection \<open>Retrieving while others use the cache\<close>

text \<open>What is relied on of the other processes: the clock does not run backwards; they leave the folder as it is, remove
  it, or change it and give it a later time; they do not write the outputs of the task.\<close>

definition later_time :: "string \<Rightarrow> string set \<Rightarrow> others \<Rightarrow> bool" where
  "later_time d ps oth \<longleftrightarrow> (\<forall>k s. c_clock s \<le> c_clock (oth k s) \<and>
     (c_dirs (oth k s) d = c_dirs s d \<or> c_dirs (oth k s) d = None \<or>
       (\<exists>tm es. c_dirs (oth k s) d = Some (tm, es) \<and> c_clock s < tm \<and> tm \<le> c_clock (oth k s))) \<and>
     (\<forall>p \<in> ps. c_files (oth k s) p = c_files s p))"

text \<open>Since the folder had time \<open>t1\<close> and entries \<open>es\<close>, it is the same or it has a later time.\<close>

definition since :: "string \<Rightarrow> nat \<Rightarrow> (string \<times> string) list \<Rightarrow> cstate \<Rightarrow> bool" where
  "since d t1 es s \<longleftrightarrow> t1 \<le> c_clock s \<and>
     (c_dirs s d = Some (t1, es) \<or> (\<forall>tm fs. c_dirs s d = Some (tm, fs) \<longrightarrow> t1 < tm))"

lemma since_step:
  assumes "later_time d ps oth" "since d t1 es s"
  shows "since d t1 es (oth k s)" "c_dirs (oth k s) d = Some (t1, fs) \<Longrightarrow> c_dirs s d = Some (t1, es) \<and> fs = es"
proof -
  have c: "c_clock s \<le> c_clock (oth k s)"
    "c_dirs (oth k s) d = c_dirs s d \<or> c_dirs (oth k s) d = None \<or>
       (\<exists>tm es. c_dirs (oth k s) d = Some (tm, es) \<and> c_clock s < tm)"
    using assms(1) unfolding later_time_def by blast+
  have t: "t1 \<le> c_clock s" "c_dirs s d = Some (t1, es) \<or> (\<forall>tm fs. c_dirs s d = Some (tm, fs) \<longrightarrow> t1 < tm)"
    using assms(2) by (simp_all add: since_def)
  show "since d t1 es (oth k s)" using c t unfolding since_def by auto
  show "c_dirs (oth k s) d = Some (t1, fs) \<Longrightarrow> c_dirs s d = Some (t1, es) \<and> fs = es"
    using c t by (metis leD option.distinct(1) option.inject order_less_irrefl prod.inject)
qed

lemma since_put: "since d t1 es (put_file p c s) \<longleftrightarrow> since d t1 es s"
  by (simp add: since_def put_file_def)

lemma copy_out_same:
  assumes "copy_out q oth t b d k xs s = (Inr True, s')" "later_time d ps oth" "since d t1 es s"
    "\<forall>x \<in> set xs. \<forall>p. out_path t b x = Inr p \<longrightarrow> p \<in> ps" "distinct (map (out_path t b) xs)"
  shows "since d t1 es s' \<and> (c_dirs s' d = Some (t1, es) \<longrightarrow> c_dirs s d = Some (t1, es) \<and>
    (\<forall>x \<in> set xs. \<exists>p c. out_path t b x = Inr p \<and> map_of es (n_name (nd b x)) = Some c \<and> c_files s' p = Some c)) \<and>
    (\<forall>p \<in> ps. (\<forall>x \<in> set xs. out_path t b x \<noteq> Inr p) \<longrightarrow> c_files s' p = c_files s p)"
  using assms
proof (induction xs arbitrary: s k)
  case (Cons x xs)
  let ?s = "oth k s"
  obtain p c where p: "out_path t b x = Inr p" "entry d (n_name (nd b x)) ?s = Some c"
    "copy_out q oth t b d (Suc k) xs (put_file p c ?s) = (Inr True, s')"
    using Cons.prems(1) by (auto simp: Let_def split: sum.splits option.splits if_splits)
  note st = since_step [OF Cons.prems(2,3), of k]
  have IH: "since d t1 es s' \<and> (c_dirs s' d = Some (t1, es) \<longrightarrow> c_dirs (put_file p c ?s) d = Some (t1, es) \<and>
    (\<forall>x \<in> set xs. \<exists>p c. out_path t b x = Inr p \<and> map_of es (n_name (nd b x)) = Some c \<and> c_files s' p = Some c)) \<and>
    (\<forall>r \<in> ps. (\<forall>x \<in> set xs. out_path t b x \<noteq> Inr r) \<longrightarrow> c_files s' r = c_files (put_file p c ?s) r)"
    by (rule Cons.IH [OF p(3) Cons.prems(2)]) (use st(1) Cons.prems(4,5) in \<open>auto simp: since_put\<close>)
  have px: "p \<in> ps" "\<forall>y \<in> set xs. out_path t b y \<noteq> Inr p" using Cons.prems(4,5) p(1) by (auto simp: image_iff)
  have keep: "\<forall>r \<in> ps. c_files ?s r = c_files s r" using Cons.prems(2) by (simp add: later_time_def)
  have "c_files s' p = Some c" using IH px by (simp add: put_file_def)
  moreover have "c_dirs s d = Some (t1, es) \<and> map_of es (n_name (nd b x)) = Some c" if e: "c_dirs s' d = Some (t1, es)"
  proof -
    have "c_dirs ?s d = Some (t1, es)" using IH e by (simp add: put_file_def)
    then show ?thesis using st(2) p(2) by (simp add: entry_def)
  qed
  moreover have "c_files s' r = c_files s r" if "r \<in> ps" "\<forall>y \<in> set (x # xs). out_path t b y \<noteq> Inr r" for r
    using IH keep that p(1) by (auto simp: put_file_def)
  ultimately show ?case using IH p(1) by auto
qed simp

text \<open>C19: files retrieved from the global cache belong together. When \<open>can_retrieve_cache\<close> finds the same time
  on the folder before and after copying, every output has the contents of its entry in the folder as it was
  at the first look, whatever other processes have done to the cache in between.\<close>

theorem retrieve_consistent:
  assumes "retrieve_files q oth t b d s = (Inr True, s')" "later_time d ps oth"
    "\<forall>tm es. c_dirs s d = Some (tm, es) \<longrightarrow> tm \<le> c_clock s"
    "\<forall>x \<in> set (k_outputs t). \<forall>p. out_path t b x = Inr p \<longrightarrow> p \<in> ps" "distinct (map (out_path t b) (k_outputs t))"
  shows "\<exists>tm es. c_dirs (oth 0 s) d = Some (tm, es) \<and>
    (\<forall>x \<in> set (k_outputs t). \<exists>p c. out_path t b x = Inr p \<and> map_of es (n_name (nd b x)) = Some c \<and> c_files s' p = Some c)"
proof -
  let ?s = "oth 0 s" and ?n = "Suc (length (k_outputs t))"
  obtain t1 es s1 fs where r: "c_dirs ?s d = Some (t1, es)" "copy_out q oth t b d 1 (k_outputs t) ?s = (Inr True, s1)"
    "s' = oth ?n s1" "c_dirs s' d = Some (t1, fs)"
    using assms(1) by (auto simp: retrieve_files_def Let_def split: option.splits prod.splits sum.splits bool.splits)
  have "t1 \<le> c_clock ?s"
    using assms(2,3) r(1) unfolding later_time_def by (metis le_trans option.inject option.distinct(1) prod.inject)
  then have s0: "since d t1 es ?s" using r(1) by (simp add: since_def)
  note c = copy_out_same [OF r(2) assms(2) s0 assms(4,5)]
  have s1: "c_dirs s1 d = Some (t1, es)" using since_step(2) [OF assms(2)] c r(3,4) by blast
  have "\<exists>p c. out_path t b x = Inr p \<and> map_of es (n_name (nd b x)) = Some c \<and> c_files s' p = Some c"
    if x: "x \<in> set (k_outputs t)" for x
  proof -
    obtain p e where p: "out_path t b x = Inr p" "map_of es (n_name (nd b x)) = Some e" "c_files s1 p = Some e"
      using c s1 x by blast
    have "c_files s' p = c_files s1 p" using assms(2,4) x p(1) r(3) by (simp add: later_time_def)
    then show ?thesis using p by auto
  qed
  then show ?thesis using r(1) by blast
qed

text \<open>Two outputs with the same name in different folders share one entry of the cache: what is retrieved for the first
  one is the other file.\<close>

lemma same_name_collides:
  assumes "out_path t b x = Inr p" "out_path t b y = Inr r" "c_files s p = Some c" "c_files s r = Some e"
    "n_name (nd b x) = n_name (nd b y)" "c_dirs s tmp = Some (tm, es)"
  shows "\<exists>s'. copy_in t b tmp [x, y] s = Inr (True, s') \<and> entry tmp (n_name (nd b x)) s' = Some e"
  using assms by (simp add: put_entry_def entry_def update_conv')

text \<open>The task of \<open>WafTask\<close> with its object file.\<close>

definition demo_copts :: copts where
  "demo_copts = \<lparr>o_cache_global = ''/cache'', o_nocache = False, o_writable = (\<lambda>p. True), o_rmtree = True, o_mkdtemp = ''/cachex1''\<rparr>"

definition demo_cstate :: cstate where
  "demo_cstate = \<lparr>c_files = (\<lambda>p. if p = ''/build/default/main.o'' then Some ''object'' else None), c_dirs = (\<lambda>d. None), c_clock = 0\<rparr>"

lemma demo_out: "out_path demo_task demo_tree 4 = Inr ''/build/default/main.o''"
  by code_simp

lemma demo_cache:
  "\<not> cache_off demo_copts demo_task" "o_rmtree demo_copts" "o_mkdtemp demo_copts \<noteq> cache_dir demo_copts ''2h''"
  "k_outputs demo_task = [4]" "n_name (nd demo_tree 4) = ''main.o''" "o_writable demo_copts p"
  by (simp_all add: demo_copts_def demo_task_def cache_off_def demo_tree_nodes) code_simp


theorem retrieve_consistent_witness:
  "\<exists>s'. retrieve_files demo_copts (\<lambda>k s. s\<lparr>c_clock := Suc (c_clock s)\<rparr>) demo_task demo_tree ''/cache/3268''
     (demo_cstate\<lparr>c_dirs := (\<lambda>d. Some (0, [(''main.o'', ''new'')]))\<rparr>) = (Inr True, s') \<and>
     c_files s' ''/build/default/main.o'' = Some ''new''"
proof -
  let ?oth = "\<lambda>k s. s\<lparr>c_clock := Suc (c_clock s)\<rparr>" and ?d = "''/cache/3268''"
  let ?s = "demo_cstate\<lparr>c_dirs := (\<lambda>d. Some (0, [(''main.o'', ''new'')]))\<rparr>"
  have "fst (retrieve_files demo_copts ?oth demo_task demo_tree ?d ?s) = Inr True"
    by (simp add: retrieve_files_def demo_cache demo_out entry_def put_file_def Let_def)
  then obtain s' where s': "retrieve_files demo_copts ?oth demo_task demo_tree ?d ?s = (Inr True, s')"
    by (cases "retrieve_files demo_copts ?oth demo_task demo_tree ?d ?s") auto
  have "\<exists>tm es. c_dirs (?oth 0 ?s) ?d = Some (tm, es) \<and>
    (\<forall>x \<in> set (k_outputs demo_task). \<exists>p c. out_path demo_task demo_tree x = Inr p \<and>
       map_of es (n_name (nd demo_tree x)) = Some c \<and> c_files s' p = Some c)"
    by (rule retrieve_consistent [OF s', of UNIV]) (simp_all add: later_time_def demo_cache)
  then show ?thesis using s' by (auto simp: demo_cache demo_out)
qed

end
