(* ===== verification/WafFlush.thy ===== *)
theory WafFlush
  imports WafGroups WafNode
begin

section \<open>Waf: from task generators to tasks\<close>

text \<open>
  The part of \<open>BuildContext\<close> (\<open>src/tools/wafadmin/Build.py\<close>) between the scripts and the scheduler: the index of the task
  generators by name, and \<open>flush\<close>, which posts the generators group by group. What posting does to the manager
  is an argument, so that the theorems hold for any generator. An operation returns its result or the exception
  together with the state.
\<close>

subsection \<open>The state\<close>

text \<open>A generator: the variant of its environment, its name, its target as a string or a list, and its folder.\<close>

datatype target = TStr string | TList "string list"

record tgobj =
  o_variant :: string
  o_name :: string
  o_target :: target
  o_path :: nat

text \<open>\<open>all_envs\<close> has the variant of each environment; \<open>f_posted\<close> lists the generators that were posted, each with the
  group that was current.\<close>

record fstate =
  f_mgr :: manager
  f_cache :: "(string \<times> nat) list"      \<comment> \<open>\<open>task_gen_cache_names\<close>\<close>
  f_posted :: "(nat \<times> nat) list"

record fargs =
  all_task_gen :: "nat list"
  gens :: "nat \<Rightarrow> tgobj"
  all_envs :: "(string \<times> string) list"
  post_gen :: "nat \<Rightarrow> manager \<Rightarrow> unit res \<times> manager"
  verbose :: bool

subsection \<open>The index\<close>

definition named_key :: "tgobj \<Rightarrow> string" where
  "named_key x = o_variant x @ ''_'' @ o_name x"

definition target_key :: "tgobj \<Rightarrow> string" where
  "target_key x = o_variant x @ ''_'' @ (case o_target x of TStr s \<Rightarrow> s | TList l \<Rightarrow> py_join '' '' l)"

definition index_one :: "(nat \<Rightarrow> tgobj) \<Rightarrow> nat \<Rightarrow> (string \<times> nat) list \<Rightarrow> (string \<times> nat) list" where
  "index_one gs x cache =
     (if o_name (gs x) \<noteq> [] then AList.update (named_key (gs x)) x cache
      else if map_of cache (target_key (gs x)) = None then AList.update (target_key (gs x)) x cache
      else cache)"

text \<open>\<open>name_to_obj\<close>; the environment is given by its variant.\<close>

definition name_to_obj :: "fargs \<Rightarrow> string \<Rightarrow> string \<Rightarrow> fstate \<Rightarrow> nat option \<times> fstate" where
  "name_to_obj F name variant s =
     (let s = (if f_cache s = [] then s\<lparr>f_cache := fold (index_one (gens F)) (all_task_gen F) []\<rparr> else s)
      in (map_of (f_cache s) (variant @ ''_'' @ name), s))"

text \<open>Making a generator clears the index.\<close>

definition new_task_gen :: "fstate \<Rightarrow> fstate" where
  "new_task_gen s = (if f_cache s \<noteq> [] then s\<lparr>f_cache := []\<rparr> else s)"

definition env_of_name :: "fargs \<Rightarrow> string \<Rightarrow> string option" where
  "env_of_name F name = map_of (all_envs F) name"

definition init_variants :: "fargs \<Rightarrow> string list" where
  "init_variants F = fold (\<lambda>v vs. if v \<in> set vs then vs else vs @ [v]) (map snd (all_envs F)) []"

subsection \<open>Posting\<close>

text \<open>The debug output with \<open>-v\<close> looks for the name of the group.\<close>

definition group_named :: "manager \<Rightarrow> nat \<Rightarrow> bool" where
  "group_named m i = list_ex (\<lambda>(nm, j). j = i) (groups_names m)"

text \<open>The loop over the generators of a group, which are read one by one: a generator that posting adds is visited too.
  \<open>n\<close> bounds the number of rounds.\<close>

fun post_gens :: "fargs \<Rightarrow> (nat \<Rightarrow> bool res) \<Rightarrow> nat \<Rightarrow> nat \<Rightarrow> nat \<Rightarrow> fstate \<Rightarrow> unit res \<times> fstate" where
  "post_gens F want i 0 k s = (Inl Unmodelled, s)"
| "post_gens F want i (Suc n) k s =
     (let tgs = g_tasks_gen (groups (f_mgr s) ! i) in
      if length tgs \<le> k then (Inr (), s)
      else
        case want (tgs ! k) of
          Inl e \<Rightarrow> (Inl e, s)
        | Inr False \<Rightarrow> post_gens F want i n (Suc k) s
        | Inr True \<Rightarrow>
            (case post_gen F (tgs ! k) (f_mgr s) of
               (r, m) \<Rightarrow>
                 let s = s\<lparr>f_mgr := m, f_posted := f_posted s @ [(i, tgs ! k)]\<rparr> in
                 (case r of Inl e \<Rightarrow> (Inl e, s) | Inr u \<Rightarrow> post_gens F want i n (Suc k) s)))"

fun post_groups :: "fargs \<Rightarrow> (nat \<Rightarrow> bool res) \<Rightarrow> nat \<Rightarrow> nat list \<Rightarrow> fstate \<Rightarrow> unit res \<times> fstate" where
  "post_groups F want n [] s = (Inr (), s)"
| "post_groups F want n (i # is) s =
     (if length (groups (f_mgr s)) \<le> i then (Inl IndexError, s)
      else
        let s = s\<lparr>f_mgr := (f_mgr s)\<lparr>current_group := i\<rparr>\<rparr> in
        if verbose F \<and> \<not> group_named (f_mgr s) i then (Inl IndexError, s)
        else
          case post_gens F want i n 0 s of
            (Inl e, s) \<Rightarrow> (Inl e, s)
          | (Inr u, s) \<Rightarrow> post_groups F want n is s)"

definition no_target :: py_error where
  "no_target = WafError ''target does not exist''"

text \<open>The generators of one target, in all environments.\<close>

definition target_objs :: "fargs \<Rightarrow> string \<Rightarrow> fstate \<Rightarrow> nat list \<times> fstate" where
  "target_objs F name s =
     fold (\<lambda>(e, v) (objs, s). case name_to_obj F name v s of (r, s) \<Rightarrow> (case r of None \<Rightarrow> (objs, s) | Some x \<Rightarrow> (objs @ [x], s)))
       (all_envs F) ([], s)"

text \<open>\<open>target_objects\<close>: a dictionary from names to generators, with the check that stops at a name without any.\<close>

fun find_targets :: "fargs \<Rightarrow> bool \<Rightarrow> string list \<Rightarrow> (string \<times> nat list) list \<Rightarrow> fstate \<Rightarrow> (string \<times> nat list) list res \<times> fstate" where
  "find_targets F every [] d s = (Inr d, s)"
| "find_targets F every (t # ts) d s =
     (let name = py_strip t;
          (objs, s) = target_objs F name s;
          d = (if objs = [] then d else AList.update name ((case map_of d name of None \<Rightarrow> [] | Some l \<Rightarrow> l) @ objs) d)
      in if map_of d name = None \<and> every then (Inl no_target, s) else find_targets F every ts d s)"

text \<open>The folder below which generators are posted when no target is given; \<open>ln\<close> and \<open>proj\<close> are what \<open>launch_node\<close> and
  \<open>find_dir\<close> of the folder of the project return.\<close>

definition start_folder :: "build \<Rightarrow> nat option \<Rightarrow> nat option \<Rightarrow> nat res" where
  "start_folder b ln proj =
     (case ln of
        None \<Rightarrow> Inl AttributeError
      | Some l \<Rightarrow>
          rbind (is_child_of b l (bldnode b)) (\<lambda>c.
          rbind (if c then Inr True else rbind (is_child_of b l (srcnode b)) (\<lambda>d. Inr (\<not> d))) (\<lambda>top.
            case proj of
              None \<Rightarrow> Inl AttributeError
            | Some p \<Rightarrow> Inr (if top \<or> n_id (nd b p) \<noteq> n_id (nd b (srcnode b)) then srcnode b else l))))"

definition flush ::
  "nat \<Rightarrow> fargs \<Rightarrow> build \<Rightarrow> nat option \<Rightarrow> nat option \<Rightarrow> string \<Rightarrow> bool \<Rightarrow> fstate \<Rightarrow> unit res \<times> fstate" where
  "flush n F b ln proj compile_targets every s =
     (case env_of_name F ''default'' of
        None \<Rightarrow> (Inl AttributeError, s\<lparr>f_cache := fold (index_one (gens F)) (all_task_gen F) []\<rparr>)
      | Some v \<Rightarrow>
          let s = snd (name_to_obj F '''' v (s\<lparr>f_cache := []\<rparr>)) in
          if compile_targets \<noteq> [] then
            (case find_targets F every (py_split CHR '','' compile_targets) [] s of
               (Inl e, s) \<Rightarrow> (Inl e, s)
             | (Inr d, s) \<Rightarrow>
                 post_groups F (\<lambda>x. Inr (x \<in> set (concat (map snd d)))) n [0..<length (groups (f_mgr s))] s)
          else
            (case start_folder b ln proj of
               Inl e \<Rightarrow> (Inl e, s)
             | Inr l \<Rightarrow>
                 post_groups F (\<lambda>x. is_child_of b (o_path (gens F x)) l) n [0..<length (groups (f_mgr s))] s))"

text \<open>The message of a failed build: one text for each task that has one.\<close>

definition build_error_text :: "string list \<Rightarrow> string" where
  "build_error_text texts =
     (let lst = ''Build failed:'' # filter (\<lambda>t. t \<noteq> []) texts
      in py_join (if length lst > 2 then [CHR 0x0A] else '' '') lst)"

subsection \<open>Generators that create tasks\<close>

text \<open>A task registers itself with the manager when it is made; \<open>mk\<close> has the tasks that posting a generator makes.\<close>

fun create_all :: "nat list \<Rightarrow> manager \<Rightarrow> unit res \<times> manager" where
  "create_all [] m = (Inr (), m)"
| "create_all (t # ts) m = (case add_task t m of Inl e \<Rightarrow> (Inl e, m) | Inr m' \<Rightarrow> create_all ts m')"

definition post_making :: "(nat \<Rightarrow> nat list) \<Rightarrow> nat \<Rightarrow> manager \<Rightarrow> unit res \<times> manager" where
  "post_making mk x m = create_all (mk x) m"

text \<open>What \<open>flush\<close> relies on when it posts a generator: the current group is there, posting returns and leaves the generators
  of all groups, the current group and the names as they are.\<close>

definition same_gens :: "manager \<Rightarrow> manager \<Rightarrow> bool" where
  "same_gens m m' \<longleftrightarrow> map g_tasks_gen (groups m') = map g_tasks_gen (groups m) \<and> current_group m' = current_group m \<and>
     groups_names m' = groups_names m"

lemma same_gens_refl [simp]: "same_gens m m"
  by (simp add: same_gens_def)








subsection \<open>What the index returns\<close>

text \<open>The generator for a key: the last one with that name, or else the first one without a name that has that target.\<close>

definition for_key :: "(nat \<Rightarrow> tgobj) \<Rightarrow> nat list \<Rightarrow> string \<Rightarrow> nat option" where
  "for_key gs xs k =
     (let ns = filter (\<lambda>x. o_name (gs x) \<noteq> [] \<and> named_key (gs x) = k) xs;
          us = filter (\<lambda>x. o_name (gs x) = [] \<and> target_key (gs x) = k) xs
      in if ns \<noteq> [] then Some (last ns) else if us \<noteq> [] then Some (hd us) else None)"

definition lookup_gen :: "fargs \<Rightarrow> string \<Rightarrow> string \<Rightarrow> nat option" where
  "lookup_gen F name variant = for_key (gens F) (all_task_gen F) (variant @ ''_'' @ name)"

abbreviation index_of :: "fargs \<Rightarrow> (string \<times> nat) list" where
  "index_of F \<equiv> fold (index_one (gens F)) (all_task_gen F) []"

lemma index_lookup: "map_of (fold (index_one gs) xs []) k = for_key gs xs k"
proof (induction xs rule: rev_induct)
  case Nil
  then show ?case by (simp add: for_key_def)
next
  case (snoc x xs)
  let ?d = "fold (index_one gs) xs []"
  have u: "map_of (fold (index_one gs) (xs @ [x]) []) k =
    (if o_name (gs x) \<noteq> [] then (if k = named_key (gs x) then Some x else map_of ?d k)
     else if k = target_key (gs x) \<and> map_of ?d k = None then Some x else map_of ?d k)"
    by (auto simp: index_one_def update_conv')
  show ?case unfolding u snoc for_key_def Let_def by (auto simp: hd_append)
qed

lemma name_to_obj_indexed:
  "f_cache s = [] \<or> f_cache s = index_of F \<Longrightarrow> name_to_obj F name v s = (lookup_gen F name v, s\<lparr>f_cache := index_of F\<rparr>)"
  by (auto simp: name_to_obj_def lookup_gen_def index_lookup)

text \<open>\<open>name_to_obj\<close> returns, from the fresh index and from the one kept from an earlier call alike, the last
  generator of the variant with the name, or else the first one without a name whose target is the name.\<close>

theorem name_to_obj_correct:
  "let (r1, s1) = name_to_obj F name1 v1 (s\<lparr>f_cache := []\<rparr>); (r2, s2) = name_to_obj F name2 v2 s1
   in r1 = for_key (gens F) (all_task_gen F) (v1 @ ''_'' @ name1) \<and>
      r2 = for_key (gens F) (all_task_gen F) (v2 @ ''_'' @ name2)"
  by (simp add: name_to_obj_indexed lookup_gen_def)

text \<open>The keys of different variants are not apart: a generator of variant \<open>a\<close> is returned for variant \<open>a_b\<close>.\<close>

lemma keys_collide:
  "let F = \<lparr>all_task_gen = [0], gens = (\<lambda>x. \<lparr>o_variant = ''a'', o_name = ''b_c'', o_target = TStr [], o_path = 0\<rparr>),
            all_envs = [], post_gen = (\<lambda>x m. (Inr (), m)), verbose = False\<rparr>
   in fst (name_to_obj F ''c'' ''a_b'' (s\<lparr>f_cache := []\<rparr>)) = Some 0"
  by (simp add: name_to_obj_indexed lookup_gen_def for_key_def named_key_def)

subsection \<open>What \<open>flush\<close> posts\<close>

definition objs_of :: "fargs \<Rightarrow> string \<Rightarrow> nat list" where
  "objs_of F name = List.map_filter (\<lambda>(e, v). lookup_gen F name v) (all_envs F)"

lemma target_objs_indexed:
  assumes "f_cache s = index_of F"
  shows "target_objs F name s = (objs_of F name, s)"
proof -
  have id: "s\<lparr>f_cache := index_of F\<rparr> = s" using assms by simp
  have "fold (\<lambda>(e, v) (objs, s). case name_to_obj F name v s of (r, s) \<Rightarrow> (case r of None \<Rightarrow> (objs, s) | Some x \<Rightarrow> (objs @ [x], s)))
      es (objs, s) = (objs @ List.map_filter (\<lambda>(e, v). lookup_gen F name v) es, s)" for es :: "(string \<times> string) list" and objs
    by (induction es arbitrary: objs)
      (auto simp: name_to_obj_indexed assms id map_filter_simps split: option.split)
  then show ?thesis by (simp add: target_objs_def objs_of_def)
qed

lemma find_targets_indexed:
  assumes "f_cache s = index_of F" "\<forall>nm \<in> dom (map_of d). objs_of F nm \<noteq> []" "distinct (map fst d)"
  shows "if \<exists>t \<in> set ts. objs_of F (py_strip t) = [] then find_targets F True ts d s = (Inl no_target, s)
    else \<exists>d'. find_targets F True ts d s = (Inr d', s) \<and>
      set (concat (map snd d')) = set (concat (map snd d)) \<union> (\<Union>t \<in> set ts. set (objs_of F (py_strip t)))"
  using assms(2,3)
proof (induction ts arbitrary: d)
  case (Cons t ts)
  let ?nm = "py_strip t" and ?o = "objs_of F (py_strip t)"
  note t = target_objs_indexed [OF assms(1), of ?nm]
  show ?case
  proof (cases "?o = []")
    case True
    then have "map_of d ?nm = None" using Cons.prems(1) by (meson domIff)
    then show ?thesis using True t by (simp add: Let_def)
  next
    case False
    let ?l = "(case map_of d ?nm of None \<Rightarrow> [] | Some l \<Rightarrow> l) @ ?o"
    let ?d = "AList.update ?nm ?l d"
    have st: "find_targets F True (t # ts) d s = find_targets F True ts ?d s"
      using False t by (simp add: update_conv' Let_def)
    have "set (concat (map snd ?d)) = set (concat (map snd d)) \<union> set ?o"
      using Cons.prems(2)
    proof (induction d)
      case (Cons a d)
      then show ?case by (cases a) (auto simp: map_of_eq_None_iff rev_image_eqI split: option.split)
    qed simp
    moreover have "\<forall>nm \<in> dom (map_of ?d). objs_of F nm \<noteq> []" using Cons.prems(1) False by (auto simp: update_conv' domIff split: if_splits)
    moreover have "distinct (map fst ?d)" using Cons.prems(2) by (rule distinct_update)
    ultimately show ?thesis using Cons.IH [of ?d] st False by (auto split: if_splits)
  qed
qed auto

text \<open>C25: a target that no generator has in any environment makes \<open>flush\<close> raise an error, before anything is posted.\<close>

theorem unknown_target_posts_nothing:
  assumes "env_of_name F ''default'' = Some v" "t \<in> set (py_split CHR '','' targets)" "targets \<noteq> []"
    "\<forall>(e, w) \<in> set (all_envs F). for_key (gens F) (all_task_gen F) (w @ ''_'' @ py_strip t) = None"
  shows "\<exists>s'. flush n F b ln proj targets True s = (Inl no_target, s') \<and> f_posted s' = f_posted s \<and> f_mgr s' = f_mgr s"
proof -
  let ?s = "s\<lparr>f_cache := index_of F\<rparr>"
  have "objs_of F (py_strip t) = []"
    using assms(4) by (auto simp: objs_of_def List.map_filter_def lookup_gen_def filter_empty_conv)
  then have e: "\<exists>t \<in> set (py_split CHR '','' targets). objs_of F (py_strip t) = []" using assms(2) by blast
  have "find_targets F True (py_split CHR '','' targets) [] ?s = (Inl no_target, ?s)"
    using find_targets_indexed [of ?s F "[]" "py_split CHR '','' targets"] by (simp only: e if_True) simp
  then show ?thesis using assms(1,3) by (simp add: flush_def name_to_obj_indexed)
qed


text \<open>Two groups; the second generator of the first one has no name. Posting makes one task for each generator.\<close>

definition demo_fargs :: fargs where
  "demo_fargs =
     \<lparr>all_task_gen = [0, 1, 2],
      gens = (\<lambda>x. \<lparr>o_variant = ''default'', o_name = (if x = 1 then [] else if x = 0 then ''lib'' else ''app''),
                   o_target = TStr ''tool'', o_path = 1\<rparr>),
      all_envs = [(''default'', ''default'')], post_gen = post_making (\<lambda>x. [x]), verbose = False\<rparr>"

definition demo_fstate :: fstate where
  "demo_fstate =
     \<lparr>f_mgr = TaskManager\<lparr>groups := [TaskGroup\<lparr>g_tasks_gen := [0, 1]\<rparr>, TaskGroup\<lparr>g_tasks_gen := [2]\<rparr>]\<rparr>, f_cache = [], f_posted = []\<rparr>"

theorem unknown_target_posts_nothing_witness:
  "\<exists>s'. flush 3 demo_fargs demo_build None None ''lib, missing'' True demo_fstate = (Inl no_target, s') \<and> f_posted s' = []"
proof -
  have "\<exists>s'. flush 3 demo_fargs demo_build None None ''lib, missing'' True demo_fstate = (Inl no_target, s') \<and>
    f_posted s' = f_posted demo_fstate \<and> f_mgr s' = f_mgr demo_fstate"
  proof (rule unknown_target_posts_nothing [where t = "'' missing''"])
    show "env_of_name demo_fargs ''default'' = Some ''default''" by (simp add: env_of_name_def demo_fargs_def)
    show "'' missing'' \<in> set (py_split CHR '','' ''lib, missing'')" by code_simp
    show "\<forall>(e, w) \<in> set (all_envs demo_fargs).
      for_key (gens demo_fargs) (all_task_gen demo_fargs) (w @ ''_'' @ py_strip '' missing'') = None" by code_simp
  qed simp
  then show ?thesis by (auto simp: demo_fstate_def)
qed


text \<open>With the option \<open>-v\<close> and two groups without a name, the search for the name of the first one fails: all groups
  without a name are stored under the same key.\<close>

lemma verbose_groups_fail:
  assumes "verbose F" "f_mgr s = add_group None True (add_group None True TaskManager)"
  shows "fst (post_groups F want n [0..<length (groups (f_mgr s))] s) = Inl IndexError"
  using assms by (simp add: add_group_def TaskManager_def group_named_def upt_rec Let_def)

end
