(* ===== verification/WafInstall.thy ===== *)
theory WafInstall
  imports WafScan WafEnv WafTaskGen WafGroups PyRegex
begin

section \<open>Waf: installation\<close>

text \<open>
  The installation part of \<open>BuildContext\<close> (\<open>src/tools/wafadmin/Build.py\<close>) with \<open>subst_vars\<close> and \<open>check_dir\<close> of
  \<open>src/tools/wafadmin/Utils.py\<close>: substituting variables in a path, putting it below the folder given by \<open>--destdir\<close>, and
  installing or uninstalling files, links and folders there. The files outside the build tree are part of the
  state; which of them can be written or removed is an argument. A raise keeps what has been done before it.
\<close>

subsection \<open>Substituting variables\<close>

definition reg_subst :: rx where
  "reg_subst =
     Alt (Grp 1 (Str [CHR 0x5C, CHR 0x5C]))
       (Alt (Grp 2 (Str ''$$'')) (Seq (Str ''${'') (Seq (Grp 3 (Plus (NotIn ''}''))) (Lit CHR ''}''))))"

text \<open>\<open>pattern.sub\<close> with a function that may raise.\<close>

fun sub_matches_res :: "(nat \<times> nat \<times> caps \<Rightarrow> string res) \<Rightarrow> string \<Rightarrow> nat \<Rightarrow> (nat \<times> nat \<times> caps) list \<Rightarrow> string res" where
  "sub_matches_res f s i [] = Inr (drop i s)"
| "sub_matches_res f s i ((a, b, c) # ms) =
     rbind (f (a, b, c)) (\<lambda>r. rbind (sub_matches_res f s b ms) (\<lambda>t. Inr (py_slice s i a @ r @ t)))"

definition repl_var :: "(string \<Rightarrow> string res) \<Rightarrow> string \<Rightarrow> nat \<times> nat \<times> caps \<Rightarrow> string res" where
  "repl_var flat s m =
     (if mgroup s m 1 \<noteq> None then Inr [CHR 0x5C]
      else if mgroup s m 2 \<noteq> None then Inr ''$''
      else (case mgroup s m 3 of None \<Rightarrow> Inl TypeError | Some v \<Rightarrow> flat v))"

definition subst_vars :: "(string \<Rightarrow> string res) \<Rightarrow> string \<Rightarrow> string res" where
  "subst_vars flat expr = sub_matches_res (repl_var flat expr) expr 0 (finditer reg_subst expr)"

subsection \<open>Paths\<close>

text \<open>\<open>os.path.split\<close> and \<open>os.path.isabs\<close>.\<close>

definition path_split :: "string \<Rightarrow> string \<times> string" where
  "path_split p =
     (let i = (case rfind CHR ''/'' p of None \<Rightarrow> 0 | Some k \<Rightarrow> Suc k);
          head = take i p
      in (if \<exists>c \<in> set head. c \<noteq> CHR ''/'' then rev (dropWhile (\<lambda>c. c = CHR ''/'') (rev head)) else head,
          drop i p))"

abbreviation dirname :: "string \<Rightarrow> string" where "dirname p \<equiv> fst (path_split p)"

definition isabs :: "string \<Rightarrow> bool" where "isabs p = py_startswith p ''/''"

subsection \<open>The state\<close>

text \<open>What the disk has at a path: a file with the time of its last change and its contents, a symbolic link, or a
  folder. Paths are texts, as the code builds them: no part of a path is looked up through a link to a folder.
  \<open>i_uninstall\<close> is the list \<open>uninstall\<close>. Which paths can be made, written and removed is an argument.\<close>

datatype ientry = IFile nat string | ILink string | IDir

type_synonym disk = "(string \<times> ientry) list"

record istate =
  i_disk :: disk
  i_uninstall :: "string list"
  i_build :: build

record iargs =
  ia_install :: int                         \<comment> \<open>\<open>is_install\<close>\<close>
  ia_force :: bool
  ia_destdir :: string
  ia_world :: world
  ia_env :: nat
  ia_variant :: string
  ia_fs :: fs
  ia_glob :: "string \<Rightarrow> string list"
  ia_mkdir :: "string \<Rightarrow> bool"
  ia_writable :: "string \<Rightarrow> bool"
  ia_removable :: "string \<Rightarrow> bool"

type_synonym 'a im = "istate \<Rightarrow> 'a res \<times> istate"

definition ibind :: "'a im \<Rightarrow> ('a \<Rightarrow> 'b im) \<Rightarrow> 'b im" where
  "ibind x g s = (case x s of (Inl e, s) \<Rightarrow> (Inl e, s) | (Inr a, s) \<Rightarrow> g a s)"

definition ires :: "'a res \<Rightarrow> 'a im" where
  "ires r s = (r, s)"

text \<open>The system follows at most 40 links.\<close>

fun follow :: "nat \<Rightarrow> disk \<Rightarrow> string \<Rightarrow> string option" where
  "follow 0 d p = None"
| "follow (Suc n) d p =
     (case map_of d p of Some (ILink t) \<Rightarrow> follow n d (path_join [dirname p, t]) | _ \<Rightarrow> Some p)"

definition stat :: "disk \<Rightarrow> string \<Rightarrow> ientry option" where
  "stat d p = (case follow 41 d p of None \<Rightarrow> None | Some q \<Rightarrow> map_of d q)"

text \<open>\<open>os.remove\<close>, which removes a link itself and no folder; the code ignores its errors.\<close>

definition os_remove :: "iargs \<Rightarrow> string \<Rightarrow> disk \<Rightarrow> disk option" where
  "os_remove I p d =
     (case map_of d p of
        None \<Rightarrow> None
      | Some IDir \<Rightarrow> None
      | Some _ \<Rightarrow> if ia_removable I p then Some (AList.delete p d) else None)"

definition try_remove :: "iargs \<Rightarrow> string \<Rightarrow> istate \<Rightarrow> istate" where
  "try_remove I p s = (case os_remove I p (i_disk s) of None \<Rightarrow> s | Some d \<Rightarrow> s\<lparr>i_disk := d\<rparr>)"

text \<open>\<open>os.makedirs\<close>, with one round of fuel for each character of the path. The folders made before a failure stay.\<close>

fun makedirs :: "nat \<Rightarrow> iargs \<Rightarrow> string \<Rightarrow> disk \<Rightarrow> bool \<times> disk" where
  "makedirs 0 I p d = (False, d)"
| "makedirs (Suc n) I p d =
     (let (head, tail) = (let (h, t) = path_split p in if t = [] then path_split h else (h, t));
          up = (head \<noteq> [] \<and> tail \<noteq> [] \<and> stat d head = None);
          (ok, d) = (if up then makedirs n I head d else (True, d))
      in if \<not> ok then (False, d)
         else if up \<and> tail = ''.'' then (True, d)
         else if p \<noteq> [] \<and> stat d p = None \<and> map_of d p = None \<and> ia_mkdir I p then (True, (p, IDir) # d) else (False, d))"

definition no_folder :: py_error where "no_folder = WafError ''Cannot create folder''"

definition check_dir :: "iargs \<Rightarrow> string \<Rightarrow> unit im" where
  "check_dir I p s =
     (if stat (i_disk s) p \<noteq> None then (Inr (), s)
      else
        let (ok, d) = makedirs (Suc (length p)) I p (i_disk s)
        in (if ok then Inr () else Inl no_folder, s\<lparr>i_disk := d\<rparr>))"

subsection \<open>One file\<close>

definition could_not_install :: py_error where "could_not_install = WafError ''Could not install the file''"

text \<open>\<open>shutil.copy2\<close> copies the time with the contents; a target that is a folder gets the file inside; a link is written
  through; a file is not copied to itself (\<open>shutil.Error\<close> is no \<open>IOError\<close>, so that it is not caught). The bits of \<open>chmod\<close> are no
  part of the state.\<close>

definition copy2 :: "iargs \<Rightarrow> string \<Rightarrow> string \<Rightarrow> unit im" where
  "copy2 I src tgt s =
     (let d = i_disk s;
          dst = (if stat d tgt = Some IDir then path_join [tgt, snd (path_split src)] else tgt)
      in case follow 41 d dst of
           None \<Rightarrow> (Inl could_not_install, s)
         | Some q \<Rightarrow>
             if stat d src \<noteq> None \<and> stat d dst \<noteq> None \<and> follow 41 d src = Some q then (Inl ShutilError, s)
             else (case stat d src of
                     Some (IFile m c) \<Rightarrow>
                       if ia_writable I q \<and> map_of d q \<noteq> Some IDir then (Inr (), s\<lparr>i_disk := AList.update q (IFile m c) d\<rparr>)
                       else (Inl could_not_install, s)
                   | _ \<Rightarrow> (Inl could_not_install, s)))"

text \<open>The size of a folder is taken to differ from that of a file.\<close>

definition up_to_date_copy :: "disk \<Rightarrow> string \<Rightarrow> string \<Rightarrow> bool" where
  "up_to_date_copy d src tgt =
     (case (stat d tgt, stat d src) of
        (Some (IFile m1 c1), Some (IFile m2 c2)) \<Rightarrow> m1 \<ge> m2 \<and> length c1 = length c2
      | _ \<Rightarrow> False)"

text \<open>The result \<open>None\<close> is that of a build that neither installs nor uninstalls.\<close>

definition do_install :: "iargs \<Rightarrow> string \<Rightarrow> string \<Rightarrow> bool option im" where
  "do_install I src tgt s =
     (if ia_install I > 0 then
        if \<not> ia_force I \<and> up_to_date_copy (i_disk s) src tgt then (Inr (Some False), s)
        else ibind (copy2 I src tgt) (\<lambda>_. ires (Inr (Some True))) (try_remove I tgt s)
      else if ia_install I < 0 then (Inr (Some True), try_remove I tgt (s\<lparr>i_uninstall := i_uninstall s @ [tgt]\<rparr>))
      else (Inr None, s))"

subsection \<open>The installation path\<close>

text \<open>\<open>red\<close>: a drive letter and the separators at the start.\<close>

definition red :: rx where
  "red = Seq Bos (Seq (Opt (Grp 1 (Seq (Cls py_isalpha) (Lit CHR '':'')))) (Star (Cls (\<lambda>c. c = CHR ''/'' \<or> c = CHR 0x5C))))"

definition get_install_path :: "iargs \<Rightarrow> string \<Rightarrow> string res" where
  "get_install_path I path =
     rbind (subst_vars (get_flat (ia_world I) (ia_env I)) path) (\<lambda>destpath.
       let destdir = get_destdir (ia_world I) (ia_env I) (ia_destdir I) in
       Inr (if destdir \<noteq> [] then path_join [destdir, re_sub red (\<lambda>m. []) destpath] else destpath))"

definition node_abs :: "iargs \<Rightarrow> nat \<Rightarrow> string im" where
  "node_abs I n s = (node_path (i_build s) (path_variant (i_build s) n (Some (ia_variant I))) n, s)"

text \<open>\<open>cwd.find_resource(filename)\<close>.\<close>

definition find_in_cwd :: "iargs \<Rightarrow> nat \<Rightarrow> string \<Rightarrow> nat option im" where
  "find_in_cwd I cwd name s =
     (case find_resource (ia_fs I) (split_path name) cwd (i_build s) of
        Inl e \<Rightarrow> (Inl e, s)
      | Inr (r, b) \<Rightarrow> (Inr r, s\<lparr>i_build := b\<rparr>))"

subsection \<open>Files, folders and links\<close>

datatype ifile = Path string | NodeFile nat

definition not_found :: py_error where "not_found = WafError ''Unable to install the file''"

definition found_node :: "iargs \<Rightarrow> nat \<Rightarrow> ifile \<Rightarrow> nat im" where
  "found_node I cwd x =
     (case x of
        NodeFile n \<Rightarrow> ires (Inr n)
      | Path p \<Rightarrow> ibind (find_in_cwd I cwd p) (\<lambda>r. ires (case r of None \<Rightarrow> Inl not_found | Some n \<Rightarrow> Inr n)))"





definition where_to :: py_error where "where_to = WafError ''where do you want to install''"

definition install_as :: "iargs \<Rightarrow> string \<Rightarrow> ifile \<Rightarrow> nat \<Rightarrow> bool option im" where
  "install_as I path srcfile cwd =
     (if path = [] then ires (Inl where_to)
      else
        ibind (ires (get_install_path I path)) (\<lambda>destpath.
        ibind (check_dir I (dirname destpath)) (\<lambda>_.
        ibind (case srcfile of
                 NodeFile n \<Rightarrow> node_abs I n
               | Path p \<Rightarrow> if isabs p then ires (Inr p) else ibind (found_node I cwd srcfile) (node_abs I)) (\<lambda>src.
          do_install I src destpath))))"

definition symlink_as :: "iargs \<Rightarrow> string \<Rightarrow> string \<Rightarrow> int im" where
  "symlink_as I path src =
     (if path = [] then ires (Inl where_to)
      else
        ibind (ires (get_install_path I path)) (\<lambda>tgt.
        ibind (check_dir I (dirname tgt)) (\<lambda>_ s.
          if ia_install I > 0 then
            if map_of (i_disk s) tgt = Some (ILink src) then (Inr 0, s)
            else
              let s = try_remove I tgt s in
              if map_of (i_disk s) tgt \<noteq> None \<or> \<not> ia_writable I tgt then (Inl IOError, s)
              else (Inr 0, s\<lparr>i_disk := (tgt, ILink src) # i_disk s\<rparr>)
          else (case os_remove I tgt (i_disk s) of None \<Rightarrow> (Inr 1, s) | Some d \<Rightarrow> (Inr 0, s\<lparr>i_disk := d\<rparr>)))))"

definition install_dir :: "iargs \<Rightarrow> string \<Rightarrow> unit im" where
  "install_dir I path =
     (if path = [] then ires (Inr ())
      else
        ibind (ires (get_install_path I path)) (\<lambda>destpath s.
          if ia_install I > 0 then check_dir I destpath s
          else if ia_install I < 0 then (Inr (), s\<lparr>i_uninstall := i_uninstall s @ [destpath @ ''/xxx'']\<rparr>)
          else (Inr (), s)))"

subsection \<open>Postponed calls\<close>

text \<open>\<open>group_method\<close>, which wraps \<open>install_files\<close>, \<open>install_as\<close> and \<open>symlink_as\<close>: the call (a number here) waits in the list
  \<open>post_funs\<close> of the current group, whose functions run when the tasks of the group are done.\<close>

datatype wrapped = NotInstalling | Postponed | CallNow

definition group_method :: "int \<Rightarrow> bool \<Rightarrow> nat \<Rightarrow> manager \<Rightarrow> (wrapped \<times> manager) res" where
  "group_method is_install postpone call m =
     (if is_install = 0 then Inr (NotInstalling, m)
      else if postpone then
        let m = with_group m; i = current_group m in
        if i < length (groups m)
        then Inr (Postponed, m\<lparr>groups := (groups m)[i := (groups m ! i)\<lparr>post_funs := post_funs (groups m ! i) @ [call]\<rparr>]\<rparr>)
        else Inl IndexError
      else Inr (CallNow, m))"

subsection \<open>Removing the folders that an uninstallation leaves empty\<close>

text \<open>The inner loop of \<open>BuildContext.install\<close>: the folders above \<open>x\<close>, while their path has more than four characters.
  \<open>None\<close> is a loop that does not end.\<close>

partial_function (option) folders_up :: "string \<Rightarrow> string list option" where
  "folders_up x =
     (if length x > 4 then Option.bind (folders_up (dirname x)) (\<lambda>l. Some (x # l)) else Some [])"

declare folders_up.simps [code]

definition add_new :: "string \<Rightarrow> string list \<Rightarrow> string list" where
  "add_new x l = (if x \<in> set l then l else l @ [x])"

definition uninstall_dirs :: "string list \<Rightarrow> string list" where
  "uninstall_dirs l = rev (sort (fold (\<lambda>x. add_new (dirname x)) l []))"

fun all_folders :: "string list \<Rightarrow> string list \<Rightarrow> string list option" where
  "all_folders [] nlst = Some nlst"
| "all_folders (y # ys) nlst =
     (case folders_up y of None \<Rightarrow> None | Some l \<Rightarrow> all_folders ys (fold add_new l nlst))"

definition below :: "string \<Rightarrow> string \<Rightarrow> bool" where
  "below p q \<longleftrightarrow> py_startswith q (p @ ''/'')"

definition rmdir :: "iargs \<Rightarrow> string \<Rightarrow> disk \<Rightarrow> disk" where
  "rmdir I p d =
     (if map_of d p = Some IDir \<and> (\<forall>q \<in> fst ` set d. \<not> below p q) \<and> ia_removable I p then AList.delete p d else d)"

text \<open>\<open>install\<close>, behind \<open>self.flush()\<close>.\<close>

definition remove_empty_folders :: "iargs \<Rightarrow> istate \<Rightarrow> istate option" where
  "remove_empty_folders I s =
     (if ia_install I < 0 then
        (case all_folders (uninstall_dirs (i_uninstall s)) [] of
           None \<Rightarrow> None
         | Some nlst \<Rightarrow> Some (s\<lparr>i_disk := fold (rmdir I) (rev (sort nlst)) (i_disk s)\<rparr>))
      else Some s)"

subsection \<open>The loop over the folders ends\<close>

lemma startswith_prefix: "py_startswith s p \<longleftrightarrow> (\<exists>t. s = p @ t)"
  by (metis append_eq_conv_conj append_take_drop_id py_startswith_def)

lemma rfind_None: "rfind c s = None \<longleftrightarrow> c \<notin> set s"
  by (induction s) (auto split: option.splits)

lemma strip_slashes: "\<exists>u. s = rev (dropWhile (\<lambda>c. c = ch) (rev s)) @ u \<and> set u \<subseteq> {ch}"
proof -
  have "s = rev (dropWhile (\<lambda>c. c = ch) (rev s)) @ rev (takeWhile (\<lambda>c. c = ch) (rev s))"
    by (metis rev_append rev_rev_ident takeWhile_dropWhile_id)
  moreover have "set (rev (takeWhile (\<lambda>c. c = ch) (rev s))) \<subseteq> {ch}" by (auto dest: set_takeWhileD)
  ultimately show ?thesis by blast
qed

lemma path_split_cases:
  obtains a where "p = a @ snd (path_split p)" "a = [] \<or> last a = CHR ''/''" "CHR ''/'' \<notin> set (snd (path_split p))"
    "dirname p = (if \<exists>c \<in> set a. c \<noteq> CHR ''/'' then rev (dropWhile (\<lambda>c. c = CHR ''/'') (rev a)) else a)"
proof (cases "rfind CHR ''/'' p")
  case None
  then have "p = [] @ snd (path_split p)" "dirname p = []" "CHR ''/'' \<notin> set (snd (path_split p))"
    using rfind_None [of "CHR ''/''" p] by (simp_all add: path_split_def)
  then show ?thesis using that [of "[]"] by simp
next
  case (Some k)
  note r = rfind_Some [OF Some]
  have l: "last (take (Suc k) p) = CHR ''/''" using r by (simp add: take_Suc_conv_app_nth)
  have n: "CHR ''/'' \<notin> set (drop (Suc k) p)" using r by (auto simp: in_set_conv_nth)
  show ?thesis using Some l n by (intro that [of "take (Suc k) p"]) (simp_all add: path_split_def Let_def)
qed

lemma dirname_app:
  obtains u where "p = dirname p @ u @ snd (path_split p)" "set u \<subseteq> {CHR ''/''}"
proof (rule path_split_cases [of p])
  fix a
  assume a: "p = a @ snd (path_split p)" 
    "dirname p = (if \<exists>c \<in> set a. c \<noteq> CHR ''/'' then rev (dropWhile (\<lambda>c. c = CHR ''/'') (rev a)) else a)"
  obtain u where u: "a = rev (dropWhile (\<lambda>c. c = CHR ''/'') (rev a)) @ u" "set u \<subseteq> {CHR ''/''}"
    using strip_slashes [of a "CHR ''/''"] by (elim exE conjE)
  show ?thesis
  proof (cases "\<exists>c \<in> set a. c \<noteq> CHR ''/''")
    case True
    then have "dirname p = rev (dropWhile (\<lambda>c. c = CHR ''/'') (rev a))" using a(2) by presburger
    then have "a = dirname p @ u" using u(1) by argo
    then show ?thesis using a(1) u(2) that by (metis append.assoc)
  next
    case False
    then have "dirname p = a" using a(2) by presburger
    then show ?thesis using a(1) that [of "[]"] by simp
  qed
qed

text \<open>The folder of a path is shorter, unless the path has only separators.\<close>

lemma dirname_slashes: assumes "set p \<subseteq> {CHR ''/''}" shows "dirname p = p"
proof (rule path_split_cases [of p])
  fix a
  assume a: "p = a @ snd (path_split p)" "CHR ''/'' \<notin> set (snd (path_split p))"
    "dirname p = (if \<exists>c \<in> set a. c \<noteq> CHR ''/'' then rev (dropWhile (\<lambda>c. c = CHR ''/'') (rev a)) else a)"
  have "set (snd (path_split p)) \<subseteq> {CHR ''/''}" using assms a(1) by (metis Un_subset_iff set_append)
  then have "snd (path_split p) = []" using a(2) by (cases "snd (path_split p)") auto
  then have "a = p" using a(1) by simp
  moreover have "\<not> (\<exists>c \<in> set p. c \<noteq> CHR ''/'')" using assms by blast
  ultimately show ?thesis using a(3) by presburger
qed

lemma dirname_shorter: assumes "\<not> set p \<subseteq> {CHR ''/''}" shows "length (dirname p) < length p"
proof (rule path_split_cases [of p])
  fix a
  assume a: "p = a @ snd (path_split p)" "a = [] \<or> last a = CHR ''/''"
    "dirname p = (if \<exists>c \<in> set a. c \<noteq> CHR ''/'' then rev (dropWhile (\<lambda>c. c = CHR ''/'') (rev a)) else a)"
  have la: "length a \<le> length p" using a(1) by (metis length_append le_add1)
  show ?thesis
  proof (cases "\<exists>c \<in> set a. c \<noteq> CHR ''/''")
    case True
    then have "a \<noteq> []" by auto
    then obtain a' where a': "a = a' @ [CHR ''/'']" using a(2) by (metis append_butlast_last_id)
    have "dirname p = rev (dropWhile (\<lambda>c. c = CHR ''/'') (rev a))" using a(3) True by presburger
    then have "length (dirname p) \<le> length a'" using a' length_dropWhile_le [of _ "rev a'"] by simp
    then show ?thesis using la a' by simp
  next
    case False
    then have d: "dirname p = a" using a(3) by presburger
    have "snd (path_split p) \<noteq> []" using False assms a(1) by (metis append_Nil2 insertCI subsetI singleton_iff)
    then show ?thesis using d a(1) by (metis length_append length_greater_0_conv less_add_same_cancel1)
  qed
qed

lemma five_slashes_dirname: assumes "py_startswith x ''/////''" shows "py_startswith (dirname x) ''/////''"
proof (rule path_split_cases [of x])
  fix a
  assume a: "x = a @ snd (path_split x)" "CHR ''/'' \<notin> set (snd (path_split x))"
    "dirname x = (if \<exists>c \<in> set a. c \<noteq> CHR ''/'' then rev (dropWhile (\<lambda>c. c = CHR ''/'') (rev a)) else a)"
  obtain t where t: "x = ''/////'' @ t" using assms by (auto simp: startswith_prefix)
  then obtain a' where a': "a = ''/////'' @ a'"
  proof -
    obtain us where "a @ us = ''/////'' \<and> snd (path_split x) = us @ t \<or> a = ''/////'' @ us \<and> us @ snd (path_split x) = t"
      using t a(1) append_eq_append_conv2 [of a "snd (path_split x)" "''/////''" t] by auto
    moreover have "us = []" if "a @ us = ''/////''" "snd (path_split x) = us @ t"
    proof -
      have "set us \<subseteq> {CHR ''/''}" using that(1) by (metis Un_upper2 set_append insert_absorb2 list.set(1,2))
      then show ?thesis using that(2) a(2) by (cases us) auto
    qed
    ultimately show ?thesis using that by (metis append_Nil2)
  qed
  show ?thesis
  proof (cases "\<exists>c \<in> set a. c \<noteq> CHR ''/''")
    case True
    then obtain c where c: "c \<in> set (rev a')" "c \<noteq> CHR ''/''" by (auto simp: a')
    have "dropWhile (\<lambda>c. c = CHR ''/'') (rev a) = dropWhile (\<lambda>c. c = CHR ''/'') (rev a') @ rev ''/////''"
      unfolding a' rev_append using c by (rule dropWhile_append1)
    moreover have "dirname x = rev (dropWhile (\<lambda>c. c = CHR ''/'') (rev a))" using a(3) True by presburger
    ultimately show ?thesis unfolding startswith_prefix by (metis rev_append rev_rev_ident)
  next
    case False
    then have "dirname x = a" using a(3) by presburger
    then show ?thesis using a' by (auto simp: startswith_prefix)
  qed
qed

text \<open>C31: The loop that walks up from an uninstalled path ends exactly when the path does not start with five slashes: the
  folder of such a path is never shorter than them.\<close>

theorem folders_up_ends: "(\<exists>l. folders_up x = Some l) \<longleftrightarrow> \<not> py_startswith x ''/////''"
proof
  assume "\<not> py_startswith x ''/////''"
  then show "\<exists>l. folders_up x = Some l"
  proof (induction "length x" arbitrary: x rule: less_induct)
    case less
    show ?case
    proof (cases "length x > 4")
      case True
      have "\<not> set x \<subseteq> {CHR ''/''}"
      proof
        assume "set x \<subseteq> {CHR ''/''}"
        then have "x = replicate (length x) (CHR ''/'')" by (metis replicate_length_same singletonD subsetD)
        then have "x = replicate (5 + (length x - 5)) (CHR ''/'')" using True by (simp only: le_add_diff_inverse Suc_leI [of 4, simplified])
        then have "x = ''/////'' @ replicate (length x - 5) (CHR ''/'')" unfolding replicate_add by (simp add: numeral_eq_Suc)
        then show False using less.prems by (auto simp: startswith_prefix)
      qed
      moreover have "\<not> py_startswith (dirname x) ''/////''"
        using less.prems dirname_app [of x] by (metis append.assoc startswith_prefix)
      ultimately obtain l where "folders_up (dirname x) = Some l" using less.hyps dirname_shorter by blast
      then show ?thesis by (simp add: folders_up.simps [of x])
    qed (simp add: folders_up.simps [of x])
  qed
next
  have "folders_up y = Some l \<Longrightarrow> \<not> py_startswith y ''/////''" for y l
  proof (rule folders_up.raw_induct [where P = "\<lambda>y l. \<not> py_startswith y ''/////''"])
    fix f :: "string \<Rightarrow> string list option" and y l
    assume ih: "\<And>y l. f y = Some l \<Longrightarrow> \<not> py_startswith y ''/////''"
      and f: "(if length y > 4 then Option.bind (f (dirname y)) (\<lambda>l. Some (y # l)) else Some []) = Some l"
    show "\<not> py_startswith y ''/////''"
    proof
      assume s: "py_startswith y ''/////''"
      then have "length y > 4" by (auto simp: startswith_prefix)
      then obtain l' where "f (dirname y) = Some l'" using f by (auto split: bind_splits)
      then show False using ih five_slashes_dirname [OF s] by blast
    qed
  qed
  then show "\<exists>l. folders_up x = Some l \<Longrightarrow> \<not> py_startswith x ''/////''" by blast
qed

subsection \<open>Only empty folders are removed, and all of them\<close>

lemma set_add_new: "set (add_new x l) = insert x (set l)"
  by (auto simp: add_new_def)

lemma set_fold_add_new: "set (fold (\<lambda>x. add_new (g x)) xs l) = g ` set xs \<union> set l"
  by (induction xs arbitrary: l) (auto simp: set_add_new)

lemma all_folders_set:
  "all_folders ys nlst = Some l \<Longrightarrow> set l = set nlst \<union> (\<Union>y \<in> set ys. set (the (folders_up y)))"
  using set_fold_add_new [where g = "\<lambda>x. x"]
  by (induction ys arbitrary: nlst) (auto split: option.splits)

lemma below_greater: "below p q \<Longrightarrow> p < q"
proof -
  assume "below p q"
  then obtain t where "q = p @ CHR ''/'' # t" by (auto simp: below_def startswith_prefix)
  moreover have "p < p @ c # t" for c t by (induction p) simp_all
  ultimately show ?thesis by simp
qed

lemma below_trans: "below p q \<Longrightarrow> below q r \<Longrightarrow> below p r"
  by (auto simp: below_def startswith_prefix)

lemma rmdir_lookup:
  "map_of (rmdir I p d) q =
     (if q = p \<and> map_of d p = Some IDir \<and> (\<forall>q \<in> fst ` set d. \<not> below p q) \<and> ia_removable I p then None else map_of d q)"
  by (simp add: rmdir_def AList.delete_conv)

lemma rmdir_dom: "dom (map_of (rmdir I p d)) \<subseteq> dom (map_of d)"
  by (auto simp: rmdir_lookup split: if_splits)

lemma fold_rmdir_dom: "dom (map_of (fold (rmdir I) l d)) \<subseteq> dom (map_of d)"
proof (induction l arbitrary: d)
  case (Cons x l)
  show ?case using Cons [of "rmdir I x d"] rmdir_dom [of I x d] by (simp only: fold.simps o_apply)
qed simp

lemma fold_rmdir_safe:
  "map_of (fold (rmdir I) l d) p = map_of d p \<or>
   p \<in> set l \<and> map_of d p = Some IDir \<and> map_of (fold (rmdir I) l d) p = None \<and>
   (\<forall>q \<in> dom (map_of (fold (rmdir I) l d)). \<not> below p q)"
proof (induction l arbitrary: d)
  case (Cons x l)
  have "\<forall>q \<in> dom (map_of (fold (rmdir I) l (rmdir I x d))). \<not> below x q" if "\<forall>q \<in> fst ` set d. \<not> below x q"
  proof -
    have "dom (map_of (fold (rmdir I) l (rmdir I x d))) \<subseteq> fst ` set d"
      using fold_rmdir_dom [of I l "rmdir I x d"] rmdir_dom [of I x d] unfolding dom_map_of_conv_image_fst by (rule subset_trans)
    then show ?thesis using that by blast
  qed
  note gone = this
  consider "map_of (rmdir I x d) p = map_of d p"
    | "p = x" "map_of d p = Some IDir" "map_of (rmdir I x d) p = None" "\<forall>q \<in> fst ` set d. \<not> below x q"
    using rmdir_lookup [of I x d p] by presburger
  then show ?case
  proof cases
    case 1
    then show ?thesis using Cons.IH [of "rmdir I x d"] by auto
  next
    case 2
    then have "map_of (fold (rmdir I) l (rmdir I x d)) p = None" using fold_rmdir_dom [of I l "rmdir I x d"] by blast
    then show ?thesis using 2 gone by simp
  qed
qed simp

text \<open>Everything at \<open>p\<close> and below it is a folder of the list that can be removed.\<close>

definition only_folders :: "iargs \<Rightarrow> string list \<Rightarrow> disk \<Rightarrow> string \<Rightarrow> bool" where
  "only_folders I l d p \<longleftrightarrow>
     (\<forall>q \<in> fst ` set d. q = p \<or> below p q \<longrightarrow> q \<in> set l \<and> map_of d q = Some IDir \<and> ia_removable I q)"

lemma fold_rmdir_all:
  assumes "sorted_wrt (\<ge>) l" "only_folders I l d p"
  shows "map_of (fold (rmdir I) l d) p = None"
  using assms
proof (induction l arbitrary: p rule: rev_induct)
  case Nil
  then show ?case by (auto simp: only_folders_def map_of_eq_None_iff)
next
  case (snoc x l)
  let ?d = "fold (rmdir I) l d"
  have ge: "\<forall>y \<in> set l. x \<le> y" using snoc.prems(1) by (simp add: sorted_wrt_append)
  have IH: "map_of ?d q = None" if a: "only_folders I (l @ [x]) d q" "x < q" for q
  proof (rule snoc.IH)
    show "only_folders I l d q" using a below_greater [of q] by (fastforce simp: only_folders_def)
  qed (use snoc.prems(1) in \<open>simp add: sorted_wrt_append\<close>)
  show ?case
  proof (cases "x < p")
    case True
    then show ?thesis using IH [OF snoc.prems(2)] by (simp add: rmdir_lookup)
  next
    case False
    have kept: "only_folders I (l @ [x]) d q" if "below p q" for q
      using snoc.prems(2) that below_trans [OF that] by (auto simp: only_folders_def)
    show ?thesis
    proof (cases "p \<in> dom (map_of ?d)")
      case True
      then have p: "p \<in> fst ` set d" using fold_rmdir_dom [of I l d] by (auto simp: dom_map_of_conv_image_fst)
      then have "p \<in> set (l @ [x])" "map_of d p = Some IDir" "ia_removable I p"
        using snoc.prems(2) by (auto simp: only_folders_def)
      moreover have "p = x" using calculation(1) ge False by auto
      moreover have "map_of ?d p = Some IDir" using True calculation(2) fold_rmdir_safe [of I l d p] by auto
      moreover have "\<not> below p q" if "q \<in> fst ` set ?d" for q
        using that IH [OF kept, of q] below_greater [of p q] \<open>p = x\<close> by (auto simp: map_of_eq_None_iff)
      ultimately show ?thesis by (simp add: rmdir_lookup)
    qed (simp add: rmdir_lookup domIff)
  qed
qed

text \<open>C30: After an uninstallation, the folders above the uninstalled paths are visited, the inner ones first. A file, a link
  and a folder with something left below it stay; a folder of the list goes when everything below it was a folder of the
  list as well.\<close>

theorem remove_empty_folders_exact:
  assumes "ia_install I < 0" "remove_empty_folders I s = Some s'"
    and "all_folders (uninstall_dirs (i_uninstall s)) [] = Some nlst"
  shows "set nlst = (\<Union>x \<in> set (i_uninstall s). set (the (folders_up (dirname x)))) \<and>
    (\<forall>p. map_of (i_disk s') p = map_of (i_disk s) p \<or>
       p \<in> set nlst \<and> map_of (i_disk s) p = Some IDir \<and> map_of (i_disk s') p = None \<and>
       (\<forall>q \<in> dom (map_of (i_disk s')). \<not> below p q)) \<and>
    (\<forall>p. only_folders I nlst (i_disk s) p \<longrightarrow> map_of (i_disk s') p = None)"
proof (intro conjI allI impI)
  have s': "i_disk s' = fold (rmdir I) (rev (sort nlst)) (i_disk s)"
    using assms by (auto simp: remove_empty_folders_def)
  show "set nlst = (\<Union>x \<in> set (i_uninstall s). set (the (folders_up (dirname x))))"
    using all_folders_set [OF assms(3)] set_fold_add_new [of dirname "i_uninstall s" "[]"] by (simp add: uninstall_dirs_def)
  fix p
  show "map_of (i_disk s') p = map_of (i_disk s) p \<or>
     p \<in> set nlst \<and> map_of (i_disk s) p = Some IDir \<and> map_of (i_disk s') p = None \<and>
     (\<forall>q \<in> dom (map_of (i_disk s')). \<not> below p q)"
    using fold_rmdir_safe [of I "rev (sort nlst)" "i_disk s" p] s' by simp
  have "sorted_wrt (\<ge>) (rev (sort nlst))" by (simp add: sorted_wrt_rev)
  moreover assume "only_folders I nlst (i_disk s) p"
  then have "only_folders I (rev (sort nlst)) (i_disk s) p" by (simp add: only_folders_def)
  ultimately show "map_of (i_disk s') p = None" using fold_rmdir_all s' by metis
qed

definition demo_args :: "int \<Rightarrow> iargs" where
  "demo_args k = \<lparr>ia_install = k, ia_force = False, ia_destdir = ''/tmp/d'', ia_world = \<lparr>envs = [\<lparr>table = [(''PREFIX'', VAtom (AStr ''/usr''))], parent = None\<rparr>], lists = []\<rparr>, ia_env = 0,
     ia_variant = ''default'', ia_fs = \<lparr>fs_listdir = \<lambda>_. None, fs_hash = \<lambda>_. None, fs_isdir = \<lambda>_. False\<rparr>,
     ia_glob = \<lambda>_. [], ia_mkdir = \<lambda>_. True, ia_writable = \<lambda>_. True, ia_removable = \<lambda>_. True\<rparr>"

definition demo_istate :: istate where
  "demo_istate = \<lparr>i_disk = [(''/tmp'', IDir), (''/tmp/d'', IDir), (''/tmp/d/bin'', IDir), (''/tmp/d/lib'', IDir), (''/tmp/d/lib/f'', IFile 3 ''x'')],
     i_uninstall = [''/tmp/d/bin/a'', ''/tmp/d/lib/b''], i_build = demo_build\<rparr>"

theorem remove_empty_folders_witness:
  "map_of (i_disk (the (remove_empty_folders (demo_args (-1)) demo_istate))) ''/tmp/d/bin'' = None \<and>
   map_of (i_disk (the (remove_empty_folders (demo_args (-1)) demo_istate))) ''/tmp/d/lib'' = Some IDir"
proof -
  have 1: "ia_install (demo_args (-1)) < 0" by (simp add: demo_args_def)
  have 3: "all_folders (uninstall_dirs (i_uninstall demo_istate)) [] = Some [''/tmp/d/lib'', ''/tmp/d'', ''/tmp/d/bin'']"
    by code_simp
  have 2: "remove_empty_folders (demo_args (-1)) demo_istate = Some (the (remove_empty_folders (demo_args (-1)) demo_istate))"
    by (simp add: remove_empty_folders_def 3)
  have 4: "only_folders (demo_args (-1)) [''/tmp/d/lib'', ''/tmp/d'', ''/tmp/d/bin''] (i_disk demo_istate) ''/tmp/d/bin''"
    by code_simp
  have 5: "map_of (i_disk (the (remove_empty_folders (demo_args (-1)) demo_istate))) ''/tmp/d/lib'' = Some IDir" by code_simp
  show ?thesis using remove_empty_folders_exact [OF 1 2 3] 4 5 by blast
qed

subsection \<open>Substitution, as a scanner\<close>

text \<open>What the pattern and \<open>repl_var\<close> mean, without matching: two backslashes are one, two dollars are one, a name in braces is
  its value, and everything else, an empty or unclosed name included, stays.\<close>

definition ref_name :: "string \<Rightarrow> (string \<times> string) option" where
  "ref_name s =
     (let v = takeWhile (\<lambda>c. c \<noteq> CHR ''}'') s
      in if v \<noteq> [] \<and> CHR ''}'' \<in> set s then Some (v, drop (Suc (length v)) s) else None)"

lemma take_two: "take 2 s = a # b \<Longrightarrow> 0 < length s"
  by auto

function subst_ref :: "(string \<Rightarrow> string res) \<Rightarrow> string \<Rightarrow> string res" where
  "subst_ref flat s =
     (if take 2 s = [CHR 0x5C, CHR 0x5C] then rbind (subst_ref flat (drop 2 s)) (\<lambda>t. Inr (CHR 0x5C # t))
      else if take 2 s = ''$$'' then rbind (subst_ref flat (drop 2 s)) (\<lambda>t. Inr (CHR ''$'' # t))
      else
        case (if take 2 s = ''${'' then ref_name (drop 2 s) else None) of
          Some (v, r) \<Rightarrow> rbind (flat v) (\<lambda>x. rbind (subst_ref flat r) (\<lambda>t. Inr (x @ t)))
        | None \<Rightarrow> (case s of [] \<Rightarrow> Inr [] | c # r \<Rightarrow> rbind (subst_ref flat r) (\<lambda>t. Inr (c # t))))"
  by pat_completeness auto
termination
  by (relation "measure (\<lambda>(f, s). length s)") (auto simp: ref_name_def Let_def dest: take_two split: if_splits)

declare subst_ref.simps [simp del]

lemma first_braces:
  "first (Seq (Str ''${'') (Seq (Grp 3 (Plus (NotIn ''}''))) (Lit CHR ''}''))) s i Map.empty =
     (case (if take 2 (drop i s) = ''${'' then ref_name (drop (i + 2) s) else None) of
        None \<Rightarrow> None
      | Some (v, r) \<Rightarrow> Some (i + 3 + length v, [3 \<mapsto> (i + 2, i + 2 + length v)]))"
proof (cases "take 2 (drop i s) = ''${''")
  case False
  then show ?thesis using rmatch_two [of "CHR ''$''" "CHR ''{''" s i Map.empty] by (simp add: first_def del: Str.simps)
next
  case True
  let ?k = "i + 2" and ?p = "\<lambda>c. c \<noteq> CHR ''}''"
  let ?v = "takeWhile ?p (drop ?k s)"
  let ?r = "Seq (Grp 3 (Plus (NotIn ''}''))) (Lit CHR ''}'')"
  have f: "first (Seq (Str ''${'') ?r) s i Map.empty = first ?r s ?k Map.empty"
    using True rmatch_two [of "CHR ''$''" "CHR ''{''" s i Map.empty] by (simp add: first_def del: Str.simps)
  have cls: "NotIn ''}'' = Cls ?p" by (simp add: NotIn_def)
  have span: "span ?p s ?k = length ?v" by (simp add: span_def)
  show ?thesis
  proof (cases "ref_name (drop ?k s)")
    case (Some x)
    then have v: "?v \<noteq> []" "CHR ''}'' \<in> set (drop ?k s)" "x = (?v, drop (Suc (length ?v)) (drop ?k s))"
      by (auto simp: ref_name_def Let_def split: if_splits)
    have split: "drop ?k s = ?v @ CHR ''}'' # drop (Suc (length ?v)) (drop ?k s)"
    proof -
      have "dropWhile ?p (drop ?k s) \<noteq> []" using v(2) by (simp add: dropWhile_eq_Nil_conv)
      then have "hd (dropWhile ?p (drop ?k s)) = CHR ''}''" using hd_dropWhile [of ?p "drop ?k s"] by blast
      then have "dropWhile ?p (drop ?k s) = CHR ''}'' # tl (dropWhile ?p (drop ?k s))"
        using \<open>dropWhile ?p (drop ?k s) \<noteq> []\<close> by (metis list.collapse)
      moreover have "drop (length ?v) (drop ?k s) = dropWhile ?p (drop ?k s)" by (rule dropWhile_eq_drop [symmetric])
      moreover have "drop (Suc (length ?v)) (drop ?k s) = tl (drop (length ?v) (drop ?k s))" by (simp only: drop_Suc tl_drop)
      moreover have "drop ?k s = ?v @ dropWhile ?p (drop ?k s)" by (simp only: takeWhile_dropWhile_id)
      ultimately show ?thesis by argo
    qed
    have "first ?r s ?k Map.empty = Some (i + 3 + length ?v, [3 \<mapsto> (?k, ?k + length ?v)])"
      unfolding cls
    proof (rule run_Seq_Grp_Plus [OF split v(1)])
      show "\<forall>c \<in> set ?v. ?p c" by (auto dest: set_takeWhileD)
      show "CHR ''}'' # drop (Suc (length ?v)) (drop ?k s) = [] \<or> \<not> ?p (hd (CHR ''}'' # drop (Suc (length ?v)) (drop ?k s)))" by simp
      have "drop (?k + length ?v) s = CHR ''}'' # drop (Suc (length ?v)) (drop ?k s)" using drop_step [OF split] .
      then have "?k + length ?v < length s \<and> s ! (?k + length ?v) = CHR ''}''"
        by (metis drop_eq_Nil hd_drop_conv_nth list.distinct(1) list.sel(1) not_le)
      then show "first (Lit CHR ''}'') s (?k + length ?v) [3 \<mapsto> (?k, ?k + length ?v)] =
          Some (i + 3 + length ?v, [3 \<mapsto> (?k, ?k + length ?v)])" by (simp add: Lit_def first_simps)
    qed
    then show ?thesis using f True Some v(3) by simp
  next
    case None
    then have n: "?v = [] \<or> CHR ''}'' \<notin> set (drop ?k s)" by (auto simp: ref_name_def Let_def split: if_splits)
    have "rmatch ?r s ?k Map.empty = []"
    proof (cases "?k < length s \<and> ?p (s ! ?k)")
      case False
      then show ?thesis by (auto simp: Plus_def NotIn_def)
    next
      case t: True
      have "\<not> (j < length s \<and> s ! j = CHR ''}'')" if jk: "Suc ?k \<le> j" "j \<le> ?k + span ?p s ?k" for j
      proof
        assume j: "j < length s \<and> s ! j = CHR ''}''"
        obtain m where "j = ?k + m" using le_Suc_ex [OF Suc_leD [OF jk(1)]] ..
        then have "drop ?k s ! m = CHR ''}''" "m < length (drop ?k s)" using j by (simp_all add: nth_drop) arith
        then have "CHR ''}'' \<in> set (drop ?k s)" by (metis nth_mem)
        moreover have "?v \<noteq> []" using t by (simp add: takeWhile_eq_Nil_iff hd_drop_conv_nth)
        ultimately show False using n by simp
      qed
      then show ?thesis unfolding cls using rmatch_Plus_Cls [of ?k s ?p Map.empty] t
        by (simp add: Lit_def del: upt_Suc) (fastforce simp: less_Suc_eq_le)
    qed
    then have "first ?r s ?k Map.empty = None" by (simp only: first_None)
    then show ?thesis unfolding f using True None by simp
  qed
qed

lemma first_reg_subst:
  "first reg_subst s i Map.empty =
     (if take 2 (drop i s) = [CHR 0x5C, CHR 0x5C] then Some (i + 2, [1 \<mapsto> (i, i + 2)])
      else if take 2 (drop i s) = ''$$'' then Some (i + 2, [2 \<mapsto> (i, i + 2)])
      else case (if take 2 (drop i s) = ''${'' then ref_name (drop (i + 2) s) else None) of
             None \<Rightarrow> None
           | Some (v, r) \<Rightarrow> Some (i + 3 + length v, [3 \<mapsto> (i + 2, i + 2 + length v)]))"
proof -
  have g: "first (Grp k (Str [a, b])) s i Map.empty =
      (if take 2 (drop i s) = [a, b] then Some (i + 2, [k \<mapsto> (i, i + 2)]) else None)" for k a b
    using rmatch_two [of a b s i Map.empty] by (simp add: first_def del: Str.simps)
  show ?thesis unfolding reg_subst_def first_Alt first_braces g by (simp split: option.split)
qed

lemma ref_name_slice:
  "ref_name (drop k s) = Some (v, r) \<Longrightarrow>
     py_slice s k (k + length v) = v \<and> r = drop (k + Suc (length v)) s"
proof -
  assume "ref_name (drop k s) = Some (v, r)"
  then have v: "v = takeWhile (\<lambda>c. c \<noteq> CHR ''}'') (drop k s)" "r = drop (Suc (length v)) (drop k s)"
    by (auto simp: ref_name_def Let_def split: if_splits)
  have "take (length v) (drop k s) = v" unfolding v(1) by (rule takeWhile_eq_take [symmetric])
  then show ?thesis using v(2) by (simp add: py_slice_def take_drop add.commute)
qed

lemma take_two_bound: "take 2 (drop i s) = [a, b] \<Longrightarrow> i + 2 \<le> length s"
proof -
  assume "take 2 (drop i s) = [a, b]"
  then have "length (take 2 (drop i s)) = 2" by simp
  then show ?thesis by (simp split: if_splits)
qed

lemma sub_matches_ref:
  "i \<le> j \<Longrightarrow> j \<le> length s \<Longrightarrow>
     sub_matches_res (repl_var flat s) s i (finditer_from reg_subst s j) =
     rbind (subst_ref flat (drop j s)) (\<lambda>t. Inr (py_slice s i j @ t))"
proof (induction "length s - j" arbitrary: i j rule: less_induct)
  case less
  let ?d = "drop j s"
  have at: "sub_matches_res (repl_var flat s) s k (finditer_from reg_subst s k) = subst_ref flat (drop k s)"
    if "j < k" "k \<le> length s" for k
    using less.hyps [of k k] that by (cases "subst_ref flat (drop k s)") (simp_all add: py_slice_def)
  have d2: "drop 2 ?d = drop (j + 2) s" by (simp add: add.commute)
  note ff = finditer_from_first [of reg_subst s j] and sr = subst_ref.simps [of flat ?d]
  consider (bs) "take 2 ?d = [CHR 0x5C, CHR 0x5C]" | (dd) "take 2 ?d = ''$$''"
    | (name) v r where "take 2 ?d = ''${''" "ref_name (drop (j + 2) s) = Some (v, r)"
    | (other) "take 2 ?d \<noteq> [CHR 0x5C, CHR 0x5C]" "take 2 ?d \<noteq> ''$$''"
        "(if take 2 ?d = ''${'' then ref_name (drop (j + 2) s) else None) = None"
    by (cases "ref_name (drop (j + 2) s)", metis (full_types), metis (full_types) surj_pair)
  then show ?case
  proof cases
    case bs
    then have "finditer_from reg_subst s j = (j, j + 2, [1 \<mapsto> (j, j + 2)]) # finditer_from reg_subst s (j + 2)"
      using ff less.prems by (simp add: first_reg_subst)
    moreover have "repl_var flat s (j, j + 2, [1 \<mapsto> (j, j + 2)]) = Inr [CHR 0x5C]" by (simp add: repl_var_def mgroup_def)
    ultimately show ?thesis using at [of "j + 2"] take_two_bound [OF bs] sr bs
      by (simp add: rbind_assoc add.commute)
  next
    case dd
    then have "finditer_from reg_subst s j = (j, j + 2, [2 \<mapsto> (j, j + 2)]) # finditer_from reg_subst s (j + 2)"
      using ff less.prems by (simp add: first_reg_subst)
    moreover have "repl_var flat s (j, j + 2, [2 \<mapsto> (j, j + 2)]) = Inr ''$''" by (simp add: repl_var_def mgroup_def)
    ultimately show ?thesis using at [of "j + 2"] take_two_bound [OF dd] sr dd
      by (simp add: rbind_assoc add.commute)
  next
    case name
    let ?e = "j + 3 + length v" and ?c = "[3 \<mapsto> (j + 2, j + 2 + length v)]"
    have sl: "py_slice s (j + 2) (j + 2 + length v) = v" "r = drop ?e s"
      using ref_name_slice [OF name(2)] by (simp_all add: numeral_eq_Suc)
    have "length v < length (drop (j + 2) s)"
      using name(2) takeWhile_shorter [of "CHR ''}''" "drop (j + 2) s" "\<lambda>c. c \<noteq> CHR ''}''"]
      by (auto simp: ref_name_def Let_def split: if_splits)
    then have le: "?e \<le> length s" by simp
    have "finditer_from reg_subst s j = (j, ?e, ?c) # finditer_from reg_subst s ?e"
      using ff less.prems name by (simp add: first_reg_subst)
    moreover have "repl_var flat s (j, ?e, ?c) = flat v" using sl by (simp add: repl_var_def mgroup_def)
    ultimately show ?thesis using at [of ?e] le sr name sl(2) by (simp add: rbind_assoc add.commute)
  next
    case other
    then have n: "first reg_subst s j Map.empty = None" by (simp add: first_reg_subst)
    show ?thesis
    proof (cases "j < length s")
      case True
      have d: "?d = s ! j # drop (Suc j) s" using True by (simp add: Cons_nth_drop_Suc)
      have "subst_ref flat ?d = rbind (subst_ref flat (drop (Suc j) s)) (\<lambda>t. Inr (s ! j # t))"
        by (subst sr) (simp only: d2 other if_False option.case, simp only: d list.case)
      moreover have "finditer_from reg_subst s j = finditer_from reg_subst s (Suc j)" using ff n True by simp
      ultimately show ?thesis using less.hyps [of "Suc j" i] less.prems(1) True
        by (simp add: slice_app rbind_assoc)
    next
      case False
      then have "finditer_from reg_subst s j = []" using ff n less.prems finditer_from_first [of reg_subst s "Suc j"] by simp
      moreover have "subst_ref flat ?d = Inr []" using False by (subst subst_ref.simps) simp
      ultimately show ?thesis using False less.prems by (simp add: py_slice_def)
    qed
  qed
qed

text \<open>C29: \<open>subst_vars\<close> is that scanner: an escaped backslash or dollar stands for itself, also in front of a brace, each
  reference is replaced by the value of its variable, in the order of the text, the values are not substituted again,
  and a value that raises ends the substitution.\<close>

theorem subst_vars_scans: "subst_vars flat expr = subst_ref flat expr"
  using sub_matches_ref [of 0 0 expr flat]
  by (cases "subst_ref flat expr") (simp_all add: subst_vars_def finditer_def py_slice_def)

subsection \<open>The installation path lies below the folder given by \<open>--destdir\<close>\<close>

abbreviation sep :: "char \<Rightarrow> bool" where "sep \<equiv> \<lambda>c. c = CHR ''/'' \<or> c = CHR 0x5C"

definition drive :: "string \<Rightarrow> bool" where
  "drive p \<longleftrightarrow> (case p of c # d # _ \<Rightarrow> py_isalpha c \<and> d = CHR '':'' | _ \<Rightarrow> False)"

lemma rmatch_red_later: "0 < i \<Longrightarrow> rmatch red s i c = []"
  by (simp add: red_def)

lemma finditer_red_later: "0 < i \<Longrightarrow> finditer_from red s i = []"
proof (induction red s i rule: finditer_from.induct)
  case (1 s i)
  then show ?case using rmatch_red_later [OF 1(3), of s Map.empty] by (subst finditer_from.simps) simp
qed

lemma first_red: "\<exists>c. first red s 0 Map.empty = Some (if drive s then 2 + span sep s 2 else span sep s 0, c)"
proof -
  have star: "first (Star (Cls sep)) s i c = Some (i + span sep s i, c)" for i c
    unfolding first_def rmatch_Star_Cls run_head by simp
  have "rmatch (Grp 1 (Seq (Cls py_isalpha) (Lit CHR '':''))) s 0 Map.empty = (if drive s then [(2, [1 \<mapsto> (0, 2)])] else [])"
    by (cases s, simp add: drive_def, cases "tl s") (auto simp: drive_def Lit_def nth_Cons numeral_2_eq_2 split: list.splits)
  then have "first red s 0 Map.empty = (if drive s then first (Star (Cls sep)) s 2 [1 \<mapsto> (0, 2)] else first (Star (Cls sep)) s 0 Map.empty)"
    using star [of 2 "[1 \<mapsto> (0, 2)]"] unfolding red_def first_simps(1) Opt_def
    by (simp add: first_def first_append del: rmatch.simps(5,7) split: list.splits)
  then show ?thesis by (auto simp: star)
qed

lemma red_strip: "re_sub red (\<lambda>m. []) s = dropWhile sep (if drive s then drop 2 s else s)"
proof -
  let ?j = "if drive s then 2 + span sep s 2 else span sep s 0"
  obtain c where "first red s 0 Map.empty = Some (?j, c)" using first_red by blast
  then have "finditer red s = [(0, ?j, c)]"
    using finditer_from_first [of red s 0] finditer_red_later by (simp add: finditer_def del: One_nat_def)
  then have "re_sub red (\<lambda>m. []) s = drop ?j s" by (simp add: re_sub_def py_slice_def)
  also have "\<dots> = dropWhile sep (if drive s then drop 2 s else s)"
    by (simp add: dropWhile_eq_drop span_def add.commute)
  finally show ?thesis .
qed

lemma not_abs_strip: "\<not> py_startswith (dropWhile sep s) ''/''"
proof
  assume "py_startswith (dropWhile sep s) ''/''"
  then obtain t where "dropWhile sep s = CHR ''/'' # t" by (auto simp: startswith_prefix)
  then show False using hd_dropWhile [of sep s] by simp
qed

lemma join_below: "\<not> py_startswith c ''/'' \<Longrightarrow> py_startswith (path_join [a, c]) a"
  by (auto simp: path_join2_def startswith_prefix)

lemma startswith_trans: "py_startswith a b \<Longrightarrow> py_startswith b c \<Longrightarrow> py_startswith a c"
  by (auto simp: startswith_prefix)

definition dest_dir :: "iargs \<Rightarrow> string" where
  "dest_dir I = get_destdir (ia_world I) (ia_env I) (ia_destdir I)"

lemma get_install_path_below:
  "get_install_path I path = Inr p \<Longrightarrow> dest_dir I \<noteq> [] \<Longrightarrow> py_startswith p (dest_dir I)"
  unfolding get_install_path_def dest_dir_def red_strip
  by (auto simp: Let_def intro!: join_below [OF not_abs_strip] simp del: path_join.simps)

subsection \<open>Nothing outside of it is changed\<close>

definition confined :: "string \<Rightarrow> disk \<Rightarrow> disk \<Rightarrow> bool" where
  "confined D d d' \<longleftrightarrow>
     (\<forall>p. map_of d' p = map_of d p \<or> py_startswith p D \<or> map_of d p = None \<and> map_of d' p = Some IDir)"

definition no_new_links :: "disk \<Rightarrow> disk \<Rightarrow> bool" where
  "no_new_links d d' \<longleftrightarrow> (\<forall>p t. map_of d' p = Some (ILink t) \<longrightarrow> map_of d p = Some (ILink t))"

definition no_links :: "string \<Rightarrow> disk \<Rightarrow> bool" where
  "no_links D d \<longleftrightarrow> (\<forall>p t. py_startswith p D \<longrightarrow> map_of d p \<noteq> Some (ILink t))"

lemma confined_refl [simp]: "confined D d d" "no_new_links d d"
  by (simp_all add: confined_def no_new_links_def)

lemma confined_trans: "confined D a b \<Longrightarrow> confined D b c \<Longrightarrow> confined D a c"
  unfolding confined_def by (metis option.distinct(1))

lemma no_new_links_trans: "no_new_links a b \<Longrightarrow> no_new_links b c \<Longrightarrow> no_new_links a c"
  unfolding no_new_links_def by blast

lemma no_links_kept: "no_links D d \<Longrightarrow> no_new_links d d' \<Longrightarrow> no_links D d'"
  unfolding no_links_def no_new_links_def by blast

lemma confined_update:
  assumes "\<And>p. p \<noteq> q \<Longrightarrow> map_of d' p = map_of d p" "py_startswith q D"
  shows "confined D d d'"
  using assms unfolding confined_def by metis

lemma makedirs_confined:
  "confined D d (snd (makedirs n I p d)) \<and> no_new_links d (snd (makedirs n I p d))"
proof (induction n arbitrary: p d)
  case (Suc n)
  obtain h t where ht: "(let (h, t) = path_split p in if t = [] then path_split h else (h, t)) = (h, t)" by fastforce
  define up where "up = (h \<noteq> [] \<and> t \<noteq> [] \<and> stat d h = None)"
  obtain k e where ke: "(if up then makedirs n I h d else (True, d)) = (k, e)" by fastforce
  have e: "confined D d e \<and> no_new_links d e"
    using Suc [of d h] ke by (cases up) simp_all
  have "snd (makedirs (Suc n) I p d) = (if k \<and> \<not> (up \<and> t = ''.'') \<and> p \<noteq> [] \<and> stat e p = None \<and> map_of e p = None \<and> ia_mkdir I p
      then (p, IDir) # e else e)"
    using ht ke by (simp add: up_def [symmetric] Let_def split: prod.splits)
  moreover have "confined D e ((p, IDir) # e) \<and> no_new_links e ((p, IDir) # e)" if "map_of e p = None"
    using that by (auto simp: confined_def no_new_links_def)
  then have "confined D d ((p, IDir) # e) \<and> no_new_links d ((p, IDir) # e)" if "map_of e p = None"
    using e that confined_trans [of D d e] no_new_links_trans [of d e] by blast
  ultimately show ?case using e by (simp del: makedirs.simps)
qed simp

definition safe_change :: "string \<Rightarrow> istate \<Rightarrow> istate \<Rightarrow> bool" where
  "safe_change D s s' \<longleftrightarrow> confined D (i_disk s) (i_disk s') \<and> no_new_links (i_disk s) (i_disk s')"

lemma safe_change_refl [simp]: "safe_change D s s"
  by (simp add: safe_change_def)

lemma safe_change_trans: "safe_change D a b \<Longrightarrow> safe_change D b c \<Longrightarrow> safe_change D a c"
  unfolding safe_change_def using confined_trans no_new_links_trans by blast

lemma check_dir_safe: "safe_change D s (snd (check_dir I p s)) \<and> i_build (snd (check_dir I p s)) = i_build s"
  using makedirs_confined [of D "i_disk s" "Suc (length p)" I p]
  by (auto simp: check_dir_def safe_change_def Let_def case_prod_beta)

lemma try_remove_safe:
  assumes "py_startswith p D"
  shows "safe_change D s (try_remove I p s)"
proof -
  have "confined D d (AList.delete p d)" "no_new_links d (AList.delete p d)" for d :: disk
    using confined_update [OF _ assms, of "AList.delete p d" d] by (auto simp: AList.delete_conv no_new_links_def split: if_splits)
  then show ?thesis by (auto simp: try_remove_def os_remove_def safe_change_def split: option.splits ientry.splits)
qed

lemma follow_no_link: "no_links D d \<Longrightarrow> py_startswith p D \<Longrightarrow> follow (Suc n) d p = Some p"
  by (auto simp: no_links_def split: option.splits ientry.splits)

lemma copy2_safe:
  assumes "py_startswith tgt D" "no_links D (i_disk s)"
  shows "safe_change D s (snd (copy2 I src tgt s))"
proof -
  define dst where "dst = (if stat (i_disk s) tgt = Some IDir then path_join [tgt, snd (path_split src)] else tgt)"
  have "\<not> py_startswith (snd (path_split src)) ''/''"
    by (rule path_split_cases [of src]) (auto simp: startswith_prefix)
  then have D: "py_startswith dst D"
    using startswith_trans [OF join_below assms(1)] assms(1) by (simp add: dst_def del: path_join.simps)
  then have f: "follow 41 (i_disk s) dst = Some dst" using follow_no_link [OF assms(2), of dst 40] by simp
  have u: "safe_change D s (s\<lparr>i_disk := AList.update dst (IFile m c) (i_disk s)\<rparr>)" for m c
    using confined_update [OF _ D, of "AList.update dst (IFile m c) (i_disk s)" "i_disk s"]
    by (auto simp: safe_change_def AList.update_conv no_new_links_def split: if_splits)
  show ?thesis unfolding copy2_def Let_def dst_def [symmetric] f option.case
    by (simp add: u split: option.split ientry.split)
qed

lemma do_install_safe:
  assumes "py_startswith tgt D" "no_links D (i_disk s)"
  shows "safe_change D s (snd (do_install I src tgt s)) \<and> i_build (snd (do_install I src tgt s)) = i_build s"
proof -
  have b: "i_build (try_remove I tgt s) = i_build s" for s by (simp add: try_remove_def split: option.split)
  have c: "i_build (snd (copy2 I src tgt s)) = i_build s" for s
    by (auto simp: copy2_def Let_def split: option.split ientry.split)
  let ?r = "try_remove I tgt s"
  have r: "safe_change D s ?r" by (rule try_remove_safe [OF assms(1)])
  then have "no_links D (i_disk ?r)" using assms(2) no_links_kept by (auto simp: safe_change_def)
  then have i: "safe_change D s (snd (copy2 I src tgt ?r))" using safe_change_trans [OF r copy2_safe [OF assms(1)]] by blast
  have "snd (ibind (copy2 I src tgt) (\<lambda>_. ires (Inr (Some True))) ?r) = snd (copy2 I src tgt ?r)"
    by (simp add: ibind_def ires_def split: prod.split sum.split)
  moreover have "safe_change D s (try_remove I tgt (s\<lparr>i_uninstall := i_uninstall s @ [tgt]\<rparr>))"
    using try_remove_safe [OF assms(1), of "s\<lparr>i_uninstall := i_uninstall s @ [tgt]\<rparr>" I] by (simp add: safe_change_def)
  ultimately show ?thesis using i b c by (simp add: do_install_def)
qed







lemma node_abs_state: "snd (node_abs I n s) = s"
  by (simp add: node_abs_def)




definition demo_source :: istate where
  "demo_source = \<lparr>i_disk = [(''/tmp'', IDir), (''/src/main.c'', IFile 3 ''int'')], i_uninstall = [], i_build = demo_build\<rparr>"

lemma demo_source_ready: "no_links D (i_disk demo_source)" "i_build demo_source = demo_build"
  by (auto simp: demo_source_def no_links_def)

lemma demo_dest: "dest_dir (demo_args k) = ''/tmp/d''"
  unfolding dest_dir_def demo_args_def by code_simp


text \<open>\<open>install_as\<close> and \<open>symlink_as\<close> change nothing outside of the folder either; the link that \<open>symlink_as\<close> makes may point
  anywhere.\<close>

theorem install_as_confined:
  assumes "dest_dir I \<noteq> []"
  shows "(no_links (dest_dir I) (i_disk s) \<longrightarrow> confined (dest_dir I) (i_disk s) (i_disk (snd (install_as I path srcfile cwd s)))) \<and>
    confined (dest_dir I) (i_disk s) (i_disk (snd (symlink_as I path src s)))"
proof (cases "get_install_path I path")
  case (Inl e)
  then show ?thesis by (auto simp: install_as_def symlink_as_def ibind_def ires_def)
next
  case (Inr tgt)
  let ?D = "dest_dir I"
  have t: "py_startswith tgt ?D" by (rule get_install_path_below [OF Inr assms])
  obtain k s1 where k: "check_dir I (dirname tgt) s = (k, s1)" by fastforce
  have c: "safe_change ?D s s1" using check_dir_safe [of ?D s I "dirname tgt"] k by simp
  have "confined ?D (i_disk s) (i_disk (snd (install_as I path srcfile cwd s)))" if nl: "no_links ?D (i_disk s)"
  proof -
    obtain src s2 where src: "(case srcfile of NodeFile n \<Rightarrow> node_abs I n
        | Path p \<Rightarrow> if isabs p then ires (Inr p) else ibind (found_node I cwd srcfile) (node_abs I)) s1 = (src, s2)" by fastforce
    then have d: "i_disk s2 = i_disk s1"
      by (auto simp: node_abs_def ires_def ibind_def found_node_def find_in_cwd_def split: ifile.splits if_splits sum.splits prod.splits option.splits)
    have nl2: "no_links ?D (i_disk s2)" using nl c d no_links_kept by (auto simp: safe_change_def)
    have "confined ?D (i_disk s) (i_disk (snd (do_install I x tgt s2)))" for x
      using do_install_safe [OF t nl2, of I x] c d confined_trans by (auto simp: safe_change_def)
    then show ?thesis using Inr k c d src
      by (cases "path = []"; cases k; cases src) (auto simp: install_as_def ibind_def ires_def safe_change_def split: sum.splits prod.splits)
  qed
  moreover have "confined ?D (i_disk s) (i_disk (snd (symlink_as I path src s)))"
  proof -
    have r: "safe_change ?D s (try_remove I tgt s1)" using safe_change_trans [OF c try_remove_safe [OF t]] .
    have u: "confined ?D d ((tgt, e) # d)" for d e using confined_update [OF _ t, of "(tgt, e) # d" d] by simp
    have l: "confined ?D (i_disk s) ((tgt, ILink src) # i_disk (try_remove I tgt s1))"
      using r u confined_trans by (auto simp: safe_change_def)
    have m: "confined ?D (i_disk s) d" if "os_remove I tgt (i_disk s1) = Some d" for d
      using r that by (simp add: try_remove_def safe_change_def)
    show ?thesis using Inr k c r l m
      by (cases "path = []"; cases k) (auto simp: symlink_as_def ibind_def ires_def safe_change_def Let_def split: option.splits)
  qed
  ultimately show ?thesis by blast
qed

theorem install_as_confined_witness:
  "confined ''/tmp/d'' (i_disk demo_source) (i_disk (snd (install_as (demo_args 1) ''/usr/main.c'' (Path ''/src/main.c'') 1 demo_source)))"
  using install_as_confined [of "demo_args 1" demo_source "''/usr/main.c''" "Path ''/src/main.c''" 1] demo_source_ready(1)
  by (simp add: demo_dest)

subsection \<open>What installing one file does\<close>

lemma follow_file: "map_of d p = Some (IFile m c) \<or> map_of d p = None \<Longrightarrow> follow (Suc n) d p = Some p"
  by auto





lemma copy2_plain:
  assumes "map_of (i_disk s) tgt = None \<or> (\<exists>m c. map_of (i_disk s) tgt = Some (IFile m c))"
  shows "copy2 I src tgt s =
    (if stat (i_disk s) src \<noteq> None \<and> map_of (i_disk s) tgt \<noteq> None \<and> follow 41 (i_disk s) src = Some tgt then (Inl ShutilError, s)
     else case stat (i_disk s) src of
            Some (IFile m c) \<Rightarrow>
              if ia_writable I tgt then (Inr (), s\<lparr>i_disk := AList.update tgt (IFile m c) (i_disk s)\<rparr>) else (Inl could_not_install, s)
          | _ \<Rightarrow> (Inl could_not_install, s))"
proof -
  have f: "follow 41 (i_disk s) tgt = Some tgt" using follow_file [of "i_disk s" tgt _ _ 40] assms by fastforce
  then have st: "stat (i_disk s) tgt = map_of (i_disk s) tgt" by (simp add: stat_def del: follow.simps)
  have "map_of (i_disk s) tgt \<noteq> Some IDir" using assms by auto
  then show ?thesis unfolding copy2_def Let_def st f by (auto simp: f st simp del: follow.simps split: option.split ientry.split)
qed



text \<open>A newer target of the same size is kept although its contents differ, and \<open>--force\<close> deletes a file that is installed onto
  itself.\<close>

lemma newer_target_kept:
  assumes "ia_install I > 0" "\<not> ia_force I" "map_of (i_disk s) src = Some (IFile m c)" "map_of (i_disk s) tgt = Some (IFile m' c')"
    "m \<le> m'" "length c = length c'"
  shows "do_install I src tgt s = (Inr (Some False), s)"
proof -
  have "stat (i_disk s) src = Some (IFile m c)" "stat (i_disk s) tgt = Some (IFile m' c')"
    using assms(3,4) follow_file [of _ _ _ _ 40] by (auto simp: stat_def simp del: follow.simps)
  then show ?thesis using assms by (simp add: do_install_def up_to_date_copy_def)
qed

lemma forced_onto_itself:
  assumes "ia_install I > 0" "ia_force I" "map_of (i_disk s) p = Some (IFile m c)" "ia_removable I p"
  shows "\<exists>s'. do_install I p p s = (Inl could_not_install, s') \<and> map_of (i_disk s') p = None"
proof -
  have t: "try_remove I p s = s\<lparr>i_disk := AList.delete p (i_disk s)\<rparr>" using assms(3,4) by (simp add: try_remove_def os_remove_def)
  have n: "map_of (AList.delete p (i_disk s)) p = None" by (simp add: AList.delete_conv)
  then have "stat (AList.delete p (i_disk s)) p = None" using follow_file [of _ p _ _ 40] by (simp add: stat_def del: follow.simps)
  then show ?thesis using assms(1,2) n copy2_plain [of "try_remove I p s" p I p]
    by (simp add: do_install_def ibind_def t del: follow.simps)
qed

text \<open>\<open>symlink_as\<close> never notes the link in the list of what is uninstalled, so that the folder of the link, which it makes when it
  is missing, is not removed afterwards.\<close>

lemma symlink_not_noted: "i_uninstall (snd (symlink_as I path src s)) = i_uninstall s"
proof -
  have c: "i_uninstall (snd (check_dir I p s)) = i_uninstall s" for p by (auto simp: check_dir_def Let_def case_prod_beta)
  have t: "i_uninstall (try_remove I p s) = i_uninstall s" for p s by (simp add: try_remove_def split: option.split)
  show ?thesis
  proof (cases "get_install_path I path")
    case (Inr tgt)
    obtain k s1 where k: "check_dir I (dirname tgt) s = (k, s1)" by fastforce
    then show ?thesis using c [of "dirname tgt"] t [of tgt s1] Inr
      by (cases k) (auto simp: symlink_as_def ibind_def ires_def Let_def split: option.split)
  qed (simp add: symlink_as_def ibind_def ires_def)
qed

text \<open>Postponed calls run in the order in which they were made, once the group has no tasks left.\<close>

lemma postponed_calls_run:
  assumes "is_install \<noteq> 0" "groups m = [TaskGroup]" "current_group m = 0"
  shows "\<exists>m1 m2 m3. group_method is_install True a m = Inr (Postponed, m1) \<and> group_method is_install True b m1 = Inr (Postponed, m2) \<and>
    manager_next_set NORMAL hsh ts m2 = Inr (None, ts, m3) \<and> installed m3 = installed m @ [a, b]"
  using assms
  by (simp add: group_method_def with_group_def Let_def TaskGroup_def manager_next_set.simps group_next_set_def tasks_in_parallel_def
      ensure_ready_def prepare_def make_cstr_groups_def extract_constraints_def)

text \<open>A call after the last group raises.\<close>

lemma postponed_too_late:
  "is_install \<noteq> 0 \<Longrightarrow> groups m \<noteq> [] \<Longrightarrow> length (groups m) \<le> current_group m \<Longrightarrow> group_method is_install True a m = Inl IndexError"
  by (simp add: group_method_def with_group_def Let_def)

end
