(* ===== verification/WafCompile.thy ===== *)
theory WafCompile
  imports WafNode WafEnv PyRegex
begin

section \<open>Waf: commands from command lines\<close>

text \<open>
  \<open>compile_fun\<close>, \<open>compile_fun_shell\<close> and \<open>compile_fun_noshell\<close> of \<open>src/tools/wafadmin/Task.py\<close>: a line such as
  \<open>${CXX} -o ${TGT} ${SRC}\<close> becomes a function that runs a command. The source writes the text of a Python function and
  executes it; here the compiled form is a value, and \<open>shell_command\<close> and \<open>noshell_command\<close> are what the function passes to
  \<open>exec_command\<close>. Code behind a name in braces, as in \<open>${SRC[0].name}\<close>, is Python: its value is an argument.
\<close>

subsection \<open>The pattern\<close>

text \<open>\<open>(?P<backslash>\)|(?P<dollar>\$\$)|(?P<subst>\$\{(?P<var>\w+)(?P<code>.*?)\})\<close>: the first group is an escaped backslash.\<close>

definition reg_act :: rx where
  "reg_act =
     Alt (Grp 1 (Lit CHR 0x5C))
       (Alt (Grp 2 (Str ''$$''))
         (Grp 3 (Seq (Str ''${'') (Seq (Grp 4 (Plus Word)) (Seq (Grp 5 (LazyStar Any)) (Lit CHR ''}''))))))"

datatype act = Backslash | Dollar | Subst string string

definition act_of :: "string \<Rightarrow> nat \<times> nat \<times> caps \<Rightarrow> act" where
  "act_of s m =
     (if mgroup s m 2 \<noteq> None then Dollar
      else if mgroup s m 1 \<noteq> None then Backslash
      else Subst (case mgroup s m 4 of None \<Rightarrow> [] | Some v \<Rightarrow> v) (case mgroup s m 5 of None \<Rightarrow> [] | Some c \<Rightarrow> c))"

fun substs :: "act list \<Rightarrow> (string \<times> string) list" where
  "substs [] = []"
| "substs (Subst v c # as) = (v, c) # substs as"
| "substs (_ # as) = substs as"

definition extr_of :: "string \<Rightarrow> (string \<times> string) list" where
  "extr_of line = substs (map (act_of line) (finditer reg_act line))"

text \<open>The variables of the environment, each once: they enter the signature of the task.\<close>

definition dvars_of :: "(string \<times> string) list \<Rightarrow> string list" where
  "dvars_of extr =
     fold (\<lambda>(v, c) l. if v = ''SRC'' \<or> v = ''TGT'' \<or> v \<in> set l then l else l @ [v]) extr []"

subsection \<open>What a reference stands for\<close>

record cargs =
  ca_world :: world
  ca_env :: nat
  ca_build :: build
  ca_variant :: string
  ca_inputs :: "nat list"
  ca_outputs :: "nat list"
  ca_code :: "bool \<Rightarrow> string \<Rightarrow> string res"   \<comment> \<open>\<open>task.inputs\<close> or \<open>task.outputs\<close> followed by the code\<close>

fun map_res :: "('a \<Rightarrow> 'b res) \<Rightarrow> 'a list \<Rightarrow> 'b list res" where
  "map_res f [] = Inr []"
| "map_res f (x # xs) = rbind (f x) (\<lambda>y. rbind (map_res f xs) (\<lambda>ys. Inr (y # ys)))"

definition src_paths :: "cargs \<Rightarrow> string list res" where
  "src_paths A = map_res (srcpath (ca_variant A) (ca_build A)) (ca_inputs A)"

definition tgt_paths :: "cargs \<Rightarrow> string list res" where
  "tgt_paths A = map_res (bldpath (ca_variant A) (ca_build A)) (ca_outputs A)"

subsection \<open>With a shell\<close>

definition shell_repl :: "act \<Rightarrow> string" where
  "shell_repl a = (case a of Dollar \<Rightarrow> ''$'' | Backslash \<Rightarrow> [CHR 0x5C, CHR 0x5C] | Subst v c \<Rightarrow> ''%s'')"

definition compile_fun_shell :: "string \<Rightarrow> string \<times> (string \<times> string) list" where
  "compile_fun_shell line = (re_sub reg_act (\<lambda>m. shell_repl (act_of line m)) line, extr_of line)"

text \<open>The line is put between three quotes in the text of the function, where two backslashes are one. A line that ends the
  quotation, or with a carriage return, is left out.\<close>

fun unescape :: "string \<Rightarrow> string" where
  "unescape [] = []"
| "unescape [c] = [c]"
| "unescape (c # d # s) = (if c = CHR 0x5C \<and> d = CHR 0x5C then c # unescape s else c # unescape (d # s))"

definition quoted :: "string \<Rightarrow> string res" where
  "quoted s =
     (if find_sub (replicate 3 CHR 0x27) s \<noteq> None \<or> CHR 0x0D \<in> set s then Inl Unmodelled else Inr (unescape s))"

text \<open>The operator \<open>%\<close>, for \<open>%s\<close> and \<open>%%\<close>.\<close>

fun py_format :: "string \<Rightarrow> string list \<Rightarrow> string res" where
  "py_format [] as = (if as = [] then Inr [] else Inl TypeError)"
| "py_format [c] as = (if c = CHR ''%'' then Inl ValueError else if as = [] then Inr [c] else Inl TypeError)"
| "py_format (c # d # s) as =
     (if c = CHR ''%'' then
        if d = CHR ''%'' then rbind (py_format s as) (\<lambda>t. Inr (CHR ''%'' # t))
        else if d = CHR ''s'' then
          (case as of [] \<Rightarrow> Inl TypeError | a # as \<Rightarrow> rbind (py_format s as) (\<lambda>t. Inr (a @ t)))
        else Inl Unmodelled
      else rbind (py_format (d # s) as) (\<lambda>t. Inr (c # t)))"

definition shell_arg :: "cargs \<Rightarrow> string \<times> string \<Rightarrow> string res" where
  "shell_arg A vc =
     (case vc of (v, c) \<Rightarrow>
        if v = ''SRC'' then (if c \<noteq> [] then ca_code A True c else rbind (src_paths A) (\<lambda>ps. Inr (py_join '' '' ps)))
        else if v = ''TGT'' then (if c \<noteq> [] then ca_code A False c else rbind (tgt_paths A) (\<lambda>ps. Inr (py_join '' '' ps)))
        else get_flat (ca_world A) (ca_env A) v)"

definition shell_command :: "cargs \<Rightarrow> string \<times> (string \<times> string) list \<Rightarrow> string res" where
  "shell_command A f =
     (case f of (line, extr) \<Rightarrow>
        rbind (quoted ('' '' @ line @ '' '')) (\<lambda>cmd.
          if extr = [] then Inr cmd else rbind (map_res (shell_arg A) extr) (\<lambda>as. py_format cmd as)))"

subsection \<open>Without a shell\<close>

definition marker :: string where "marker = ''<<|@|>>''"

definition noshell_repl :: "act \<Rightarrow> string" where
  "noshell_repl a = (case a of Dollar \<Rightarrow> ''$'' | Subst v c \<Rightarrow> marker | Backslash \<Rightarrow> [])"

text \<open>\<open>s.split(sep)\<close> for a longer separator.\<close>

function split_str :: "string \<Rightarrow> string \<Rightarrow> string list" where
  "split_str sep s =
     (case (if sep = [] then None else find_sub sep s) of
        None \<Rightarrow> [s]
      | Some k \<Rightarrow> if length s < k + length sep then [s] else take k s # split_str sep (drop (k + length sep) s))"
  by pat_completeness auto
termination
proof (relation "measure (\<lambda>(sep, s). length s)")
  fix sep s :: string and k
  assume "(if sep = [] then None else find_sub sep s) = Some k" "\<not> length s < k + length sep"
  then show "((sep, drop (k + length sep) s), sep, s) \<in> measure (\<lambda>(sep, s). length s)" by (cases sep) auto
qed simp

declare split_str.simps [simp del]

text \<open>\<open>shlex.split\<close>, for texts without quotes.\<close>

definition shlex_split :: "string \<Rightarrow> string list res" where
  "shlex_split s =
     (if \<exists>c \<in> set s. c \<in> {CHR 0x22, CHR 0x27, CHR 0x5C, CHR 0x0B, CHR 0x0C} then Inl Unmodelled else Inr (py_split_ws s))"

datatype part = Words "string list" | Value string string

fun parts_of :: "string list \<Rightarrow> (string \<times> string) list \<Rightarrow> part list" where
  "parts_of params [] = []"
| "parts_of params ((v, c) # extr) =
     (let p = py_strip (hd params)
      in (if p \<noteq> [] then [Words (py_split_ws p)] else []) @ Value v c # parts_of (tl params) extr)"

definition compile_fun_noshell :: "string \<Rightarrow> part list res" where
  "compile_fun_noshell line =
     (let extr = extr_of line;
          params = split_str marker (re_sub reg_act (\<lambda>m. noshell_repl (act_of line m)) line);
          front = parts_of params extr
      in if last params \<noteq> [] then rbind (shlex_split (last params)) (\<lambda>ws. Inr (front @ [Words ws])) else Inr front)"

text \<open>\<open>to_list\<close> of the compiled function keeps a string whole. A value that is neither string nor list cannot be iterated.\<close>

definition value_list :: "cargs \<Rightarrow> string \<Rightarrow> string \<Rightarrow> string list res" where
  "value_list A v c =
     (if v = ''SRC'' then (if c \<noteq> [] then rbind (ca_code A True c) (\<lambda>x. Inr [x]) else src_paths A)
      else if v = ''TGT'' then (if c \<noteq> [] then rbind (ca_code A False c) (\<lambda>x. Inr [x]) else tgt_paths A)
      else
        (case env_get (ca_world A) (ca_env A) v of
           CAtom (AStr s) \<Rightarrow> Inr [s]
         | CAtom _ \<Rightarrow> Inl TypeError
         | CList xs \<Rightarrow> if list_all (\<lambda>x. case x of AStr s \<Rightarrow> True | _ \<Rightarrow> False) xs then flat_items xs else Inl Unmodelled))"

definition part_list :: "cargs \<Rightarrow> part \<Rightarrow> string list res" where
  "part_list A p = (case p of Words ws \<Rightarrow> Inr ws | Value v c \<Rightarrow> value_list A v c)"


subsection \<open>The choice\<close>

definition found_later :: "string \<Rightarrow> string \<Rightarrow> bool" where
  "found_later sub s = (case find_sub sub s of None \<Rightarrow> False | Some k \<Rightarrow> 0 < k)"

definition use_shell :: "string \<Rightarrow> bool option \<Rightarrow> bool" where
  "use_shell line shell =
     (if found_later ''<'' line \<or> found_later ''>'' line \<or> found_later ''&&'' line then True
      else case shell of None \<Rightarrow> True | Some b \<Rightarrow> b)"

datatype compiled = Shell "string \<times> (string \<times> string) list" | NoShell "part list"

definition compile_fun :: "string \<Rightarrow> bool option \<Rightarrow> (compiled \<times> string list) res" where
  "compile_fun line shell =
     (if use_shell line shell then Inr (Shell (compile_fun_shell line), dvars_of (extr_of line))
      else rbind (compile_fun_noshell line) (\<lambda>ps. Inr (NoShell ps, dvars_of (extr_of line))))"

subsection \<open>What the pattern finds\<close>






subsection \<open>A line as a list of tokens\<close>

datatype tok = Ch char | Act act




definition tok_repl :: "(act \<Rightarrow> string) \<Rightarrow> tok \<Rightarrow> string" where
  "tok_repl f t = (case t of Ch c \<Rightarrow> [c] | Act a \<Rightarrow> f a)"











subsection \<open>The command with a shell\<close>

definition tok_value :: "cargs \<Rightarrow> tok \<Rightarrow> string res" where
  "tok_value A t =
     (case t of
        Ch c \<Rightarrow> Inr [c]
      | Act Backslash \<Rightarrow> Inr [CHR 0x5C]
      | Act Dollar \<Rightarrow> Inr ''$''
      | Act (Subst v c) \<Rightarrow> shell_arg A (v, c))"


definition shell_val :: "act \<Rightarrow> string" where
  "shell_val a = (if a = Backslash then [CHR 0x5C] else shell_repl a)"

lemma tok_simps [simp]:
  "tok_repl f (Ch x) = [x]" "tok_repl f (Act a) = f a"
  "tok_value A (Ch x) = Inr [x]" "tok_value A (Act Backslash) = Inr [CHR 0x5C]" "tok_value A (Act Dollar) = Inr ''$''"
  "tok_value A (Act (Subst v c)) = shell_arg A (v, c)"
  "shell_repl Backslash = [CHR 0x5C, CHR 0x5C]" "shell_repl Dollar = ''$''" "shell_repl (Subst v c) = ''%s''"
  "shell_val Backslash = [CHR 0x5C]" "shell_val Dollar = ''$''" "shell_val (Subst v c) = ''%s''"
  by (simp_all add: tok_repl_def tok_value_def shell_repl_def shell_val_def)










subsection \<open>The command without a shell\<close>










fun texts :: "tok list \<Rightarrow> string \<Rightarrow> string list" where
  "texts [] acc = [acc]"
| "texts (Ch c # ts) acc = texts ts (acc @ [c])"
| "texts (Act Dollar # ts) acc = texts ts (acc @ ''$'')"
| "texts (Act Backslash # ts) acc = texts ts acc"
| "texts (Act (Subst v c) # ts) acc = acc # texts ts []"

lemma noshell_simps [simp]:
  "noshell_repl Backslash = []" "noshell_repl Dollar = ''$''" "noshell_repl (Subst v c) = marker"
  by (simp_all add: noshell_repl_def)

lemma texts_ne [simp]: "texts ts acc \<noteq> []"
  by (induction ts acc rule: texts.induct) simp_all



definition arguments :: "cargs \<Rightarrow> part list \<Rightarrow> string list res" where
  "arguments A ps = rbind (map_res (part_list A) ps) (\<lambda>ls. Inr (concat ls))"

lemma arguments_Nil [simp]: "arguments A [] = Inr []"
  by (simp add: arguments_def)


lemma part_list_Words [simp]: "part_list A (Words ws) = Inr ws"
  by (simp add: part_list_def)





subsection \<open>A concrete command\<close>

definition demo_cargs :: cargs where
  "demo_cargs = \<lparr>ca_world = \<lparr>envs = [\<lparr>table = [(''CC'', VAtom (AStr ''gcc'')), (''CFLAGS'', VList 0)], parent = None\<rparr>], lists = [[AStr ''-g'', AStr ''-O2'']]\<rparr>,
     ca_env = 0, ca_build = demo_build, ca_variant = ''default'', ca_inputs = [3], ca_outputs = [], ca_code = \<lambda>b c. Inl Unmodelled\<rparr>"






text \<open>A \<open>%s\<close> in the text of a line takes the value of the next reference; and the same line keeps or loses its backslashes.\<close>

lemma percent_taken: "shell_command demo_cargs (compile_fun_shell ''printf %s ${CC}'') = Inl TypeError"
  by code_simp

lemma backslash_lost:
  "shell_command demo_cargs (compile_fun_shell [CHR ''a'', CHR 0x5C, CHR ''b'']) = Inr ([CHR '' '', CHR ''a'', CHR 0x5C, CHR ''b'', CHR '' ''])"
  "compile_fun_noshell [CHR ''a'', CHR 0x5C, CHR ''b''] = Inr [Words [''ab'']]"
  by code_simp+

end
